(* ===== verification/Prelude.thy ===== *)
theory Prelude
  imports Main "HOL-Library.Word" "HOL-Library.List_Lexorder"
begin

unbundle bit_operations_syntax

text \<open>
  Shared ground of the development: the types of the model (bytes, machine
  words), the lemma collections, and the generic facts on lists and words that
  the component theories use.

  \<^item> A C++ \<^verbatim>\<open>char\<close>/\<^verbatim>\<open>uint8_t\<close> is a \<^typ>\<open>8 word\<close>; \<^verbatim>\<open>std::string\<close> and
    \<^verbatim>\<open>std::string_view\<close> are lists of them. The order of \<^verbatim>\<open>string_view\<close>
    (\<^verbatim>\<open>char_traits<char>\<close> compares like \<^verbatim>\<open>memcmp\<close>, on unsigned bytes, and
    a proper prefix is smaller) is the lexicographic order that
    \<^theory_text>\<open>List_Lexorder\<close> puts on lists.
  \<^item> \<^verbatim>\<open>uint32_t\<close> and \<^verbatim>\<open>uint64_t\<close> fields that are stored, shifted or cast are
    words; \<^verbatim>\<open>size_t\<close> values that are lengths of buffers are \<^typ>\<open>nat\<close>, and
    every \<^verbatim>\<open>static_cast<uint32_t>\<close> of a length is written as \<open>of_nat\<close>.
\<close>

type_synonym byte = "8 word"
type_synonym bytes = "8 word list"
type_synonym u8 = "8 word"
type_synonym u32 = "32 word"
type_synonym u64 = "64 word"

named_theorems bytes_simps \<open>lengths and slices of encoded byte strings\<close>
named_theorems const_defs \<open>the numeric constants of the source\<close>

text \<open>A string literal of the source as bytes.\<close>

definition str :: "string \<Rightarrow> bytes" where
  "str s = map of_char s"

lemma str_Nil [simp]: "str '''' = []"
  by (simp add: str_def)

lemma str_Cons [simp]: "str (c # s) = of_char c # str s"
  by (simp add: str_def)

lemma length_str [simp]: "length (str s) = length s"
  by (simp add: str_def)

subsection \<open>Slices of a buffer\<close>

text \<open>
  \<open>sub xs i n\<close> is \<^verbatim>\<open>xs.substr(i, n)\<close>: at most \<open>n\<close> elements from position \<open>i\<close>
  (\<^verbatim>\<open>substr\<close> clamps the length; the callers keep \<open>i\<close> within the buffer).
\<close>

definition sub :: "'a list \<Rightarrow> nat \<Rightarrow> nat \<Rightarrow> 'a list" where
  "sub xs i n = take n (drop i xs)"

lemma length_sub [simp]: "length (sub xs i n) = min n (length xs - i)"
  by (simp add: sub_def min.commute)

lemma sub_append_left [bytes_simps]: "i + n \<le> length xs \<Longrightarrow> sub (xs @ ys) i n = sub xs i n"
  by (simp add: sub_def)

lemma sub_append_right [bytes_simps]:
  "length xs \<le> i \<Longrightarrow> sub (xs @ ys) i n = sub ys (i - length xs) n"
  by (simp add: sub_def)

lemma sub_0 [bytes_simps]: "sub xs 0 n = take n xs"
  by (simp add: sub_def)

lemma sub_all [simp]: "sub xs 0 (length xs) = xs"
  by (simp add: sub_def)

lemma drop_append_exact [simp]: "drop (length xs) (xs @ ys) = ys"
  by simp

lemma drop_append_len: "n = length xs \<Longrightarrow> drop n (xs @ ys) = ys"
  by simp

lemma take_append_len: "n = length xs \<Longrightarrow> take n (xs @ ys) = xs"
  by simp

lemma take_sub: "take m (sub xs i n) = sub xs i (min m n)"
  by (simp add: sub_def)

lemma drop_sub: "drop m (sub xs i n) = sub xs (i + m) (n - m)"
  by (simp add: sub_def drop_take add.commute)

lemma take_prefix_eq: "n \<le> m \<Longrightarrow> take n (take m xs) = take n xs"
  by (simp add: min_def)

subsection \<open>Sorted lists under a relation\<close>

lemma sorted_wrt_mid:
  "sorted_wrt P (xs @ y # ys) \<longleftrightarrow>
     sorted_wrt P xs \<and> sorted_wrt P ys \<and> (\<forall>x\<in>set xs. P x y) \<and> (\<forall>z\<in>set ys. P y z) \<and>
     (\<forall>x\<in>set xs. \<forall>z\<in>set ys. P x z)"
  by (auto simp: sorted_wrt_append)

lemma find_hd_dropWhile:
  "find P xs = (case dropWhile (\<lambda>x. \<not> P x) xs of [] \<Rightarrow> None | y # _ \<Rightarrow> Some y)"
  by (induction xs) auto

lemma find_append: "find P (xs @ ys) = (case find P xs of None \<Rightarrow> find P ys | Some x \<Rightarrow> Some x)"
  by (induction xs) auto

lemma find_None_all: "(\<And>x. x \<in> set xs \<Longrightarrow> \<not> P x) \<Longrightarrow> find P xs = None"
  by (auto simp: find_None_iff)

subsection \<open>Words\<close>

lemma unat_of_nat_u32: "n < 2 ^ 32 \<Longrightarrow> unat (of_nat n :: u32) = n"
  by (simp add: unat_of_nat take_bit_nat_eq_self)

lemma unat_of_nat_u64: "n < 2 ^ 64 \<Longrightarrow> unat (of_nat n :: u64) = n"
  by (simp add: unat_of_nat take_bit_nat_eq_self)

lemma unat_u8_less [simp]: "unat (w :: u8) < 256"
  using unsigned_less [of w] by simp

lemma unat_u32_less [simp]: "unat (w :: u32) < 4294967296"
  using unsigned_less [of w] by simp

lemma unat_u64_less [simp]: "unat (w :: u64) < 18446744073709551616"
  using unsigned_less [of w] by simp

end
