(* ===== verification/Encoding.thy ===== *)
theory Encoding
  imports Prelude
begin

text \<open>
  Little-endian fixed-width integers (\<^verbatim>\<open>include/bedrockkv/encoding.h\<close>): the
  encoders, the decoders, and that each decoder inverts its encoder, whatever
  follows in the buffer. The decoders read from the head of a list, as the source
  reads from a \<^verbatim>\<open>const char*\<close>; a caller reads at an offset with \<open>drop\<close>.
\<close>

definition PutFixed32 :: "u32 \<Rightarrow> bytes" where
  "PutFixed32 v =
     [ucast (v AND 0xff), ucast (drop_bit 8 v AND 0xff),
      ucast (drop_bit 16 v AND 0xff), ucast (drop_bit 24 v AND 0xff)]"

definition PutFixed64 :: "u64 \<Rightarrow> bytes" where
  "PutFixed64 v = map (\<lambda>i. ucast (drop_bit (8 * i) v AND 0xff)) [0..<8]"

definition GetFixed32 :: "bytes \<Rightarrow> u32" where
  "GetFixed32 src =
     ucast (src ! 0) OR push_bit 8 (ucast (src ! 1)) OR
     push_bit 16 (ucast (src ! 2)) OR push_bit 24 (ucast (src ! 3))"

text \<open>The loop \<^verbatim>\<open>for (int i = 7; i >= 0; --i) v = (v << 8) | src[i]\<close>.\<close>

fun getfixed64_loop :: "nat \<Rightarrow> bytes \<Rightarrow> u64 \<Rightarrow> u64" where
  "getfixed64_loop 0 src v = v"
| "getfixed64_loop (Suc i) src v = getfixed64_loop i src (push_bit 8 v OR ucast (src ! i))"

definition GetFixed64 :: "bytes \<Rightarrow> u64" where
  "GetFixed64 src = getfixed64_loop 8 src 0"

lemma length_PutFixed32 [simp, bytes_simps]: "length (PutFixed32 v) = 4"
  by (simp add: PutFixed32_def)

lemma length_PutFixed64 [simp, bytes_simps]: "length (PutFixed64 v) = 8"
  by (simp add: PutFixed64_def)

lemma PutFixed64_unfold:
  "PutFixed64 v =
     [ucast (v AND 0xff), ucast (drop_bit 8 v AND 0xff), ucast (drop_bit 16 v AND 0xff),
      ucast (drop_bit 24 v AND 0xff), ucast (drop_bit 32 v AND 0xff),
      ucast (drop_bit 40 v AND 0xff), ucast (drop_bit 48 v AND 0xff),
      ucast (drop_bit 56 v AND 0xff)]"
  by (simp add: PutFixed64_def upt_rec)

lemma GetFixed64_unfold:
  "GetFixed64 src =
     push_bit 8 (push_bit 8 (push_bit 8 (push_bit 8 (push_bit 8 (push_bit 8 (push_bit 8
       (ucast (src ! 7)) OR ucast (src ! 6)) OR ucast (src ! 5)) OR ucast (src ! 4))
       OR ucast (src ! 3)) OR ucast (src ! 2)) OR ucast (src ! 1)) OR ucast (src ! 0)"
  by (simp add: GetFixed64_def numeral_eq_Suc)

lemma mask8: "(0xff :: 'a::len word) = mask 8"
  by (simp add: mask_eq_exp_minus_1)

lemma le_step: "push_bit 8 (drop_bit (8 + k) v) OR ucast (ucast (drop_bit k v AND 0xff) :: u8) = drop_bit k (v :: 'a::len word)"
proof (rule bit_word_eqI)
  fix n assume "n < LENGTH('a)"
  show "bit (push_bit 8 (drop_bit (8 + k) v) OR ucast (ucast (drop_bit k v AND 0xff) :: u8)) n = bit (drop_bit k v) n"
    by (cases "n < 8") (auto simp: mask8 bit_simps ac_simps dest: bit_imp_le_length)
qed

lemma ucast_byte: "ucast (ucast (x AND 0xff) :: u8) = (x AND 0xff :: 'a::len word)"
  by (rule bit_word_eqI) (auto simp: mask8 bit_simps)

lemma top64: "(drop_bit 56 v AND 0xff :: u64) = drop_bit 56 v"
  by (rule bit_word_eqI) (auto simp: mask8 bit_simps dest: bit_imp_le_length)
lemma top32: "(drop_bit 24 v AND 0xff :: u32) = drop_bit 24 v"
  by (rule bit_word_eqI) (auto simp: mask8 bit_simps dest: bit_imp_le_length)

lemma ucast_top64: "ucast (ucast (drop_bit 56 v) :: u8) = (drop_bit 56 v :: u64)"
  using ucast_byte [of "drop_bit 56 v"] by (simp only: top64)
lemma GetFixed64_PutFixed64 [simp]: "GetFixed64 (PutFixed64 v @ r) = v"
proof -
  have steps: "push_bit 8 (drop_bit 56 v) OR (drop_bit 48 v AND 0xff) = drop_bit 48 v"
     "push_bit 8 (drop_bit 48 v) OR (drop_bit 40 v AND 0xff) = drop_bit 40 v"
     "push_bit 8 (drop_bit 40 v) OR (drop_bit 32 v AND 0xff) = drop_bit 32 v"
     "push_bit 8 (drop_bit 32 v) OR (drop_bit 24 v AND 0xff) = drop_bit 24 v"
     "push_bit 8 (drop_bit 24 v) OR (drop_bit 16 v AND 0xff) = drop_bit 16 v"
     "push_bit 8 (drop_bit 16 v) OR (drop_bit 8 v AND 0xff) = drop_bit 8 v"
     "push_bit 8 (drop_bit 8 v) OR (v AND 0xff) = v"
    using le_step[of 48 v] le_step[of 40 v] le_step[of 32 v] le_step[of 24 v] le_step[of 16 v] le_step[of 8 v] le_step[of 0 v]
    by (simp_all only: ucast_byte) simp_all
  show ?thesis
    by (simp add: GetFixed64_unfold PutFixed64_unfold ucast_byte top64 ucast_top64 steps
       del: push_bit_or push_bit_and push_bit_push_bit)
qed
lemma GetFixed32_PutFixed32 [simp]: "GetFixed32 (PutFixed32 v @ r) = v"
proof (rule bit_word_eqI)
  fix n assume "n < LENGTH(32)"
  then consider "n < 8" | "8 \<le> n" "n < 16" | "16 \<le> n" "n < 24" | "24 \<le> n" "n < 32"
    by force
  then show "bit (GetFixed32 (PutFixed32 v @ r)) n = bit v n"
    by cases (auto simp: GetFixed32_def PutFixed32_def mask8 bit_simps)
qed

lemma GetFixed32_PutFixed32_Nil [simp]: "GetFixed32 (PutFixed32 v) = v"
  using GetFixed32_PutFixed32 [of v "[]"] by simp

lemma GetFixed64_PutFixed64_Nil [simp]: "GetFixed64 (PutFixed64 v) = v"
  using GetFixed64_PutFixed64 [of v "[]"] by simp

text \<open>A decoder looks at its own bytes only.\<close>

lemma GetFixed32_append [bytes_simps]: "4 \<le> length xs \<Longrightarrow> GetFixed32 (xs @ ys) = GetFixed32 xs"
  by (auto simp: GetFixed32_def nth_append)

lemma GetFixed64_append [bytes_simps]: "8 \<le> length xs \<Longrightarrow> GetFixed64 (xs @ ys) = GetFixed64 xs"
  by (auto simp: GetFixed64_unfold nth_append)

lemma GetFixed32_take: "4 \<le> n \<Longrightarrow> 4 \<le> length xs \<Longrightarrow> GetFixed32 (take n xs) = GetFixed32 xs"
  by (simp add: GetFixed32_def)

lemma GetFixed64_take: "8 \<le> n \<Longrightarrow> 8 \<le> length xs \<Longrightarrow> GetFixed64 (take n xs) = GetFixed64 xs"
  by (simp add: GetFixed64_unfold)

lemma PutFixed32_inject [simp]: "PutFixed32 a = PutFixed32 b \<longleftrightarrow> a = b"
  by (metis GetFixed32_PutFixed32_Nil)

lemma PutFixed64_inject [simp]: "PutFixed64 a = PutFixed64 b \<longleftrightarrow> a = b"
  by (metis GetFixed64_PutFixed64_Nil)

lemma PutFixed32_GetFixed32:
  assumes "4 \<le> length d"
  shows "PutFixed32 (GetFixed32 d) = take 4 d"
proof -
  let ?L = "{xs :: bytes. set xs \<subseteq> UNIV \<and> length xs = 4}"
  have "card (range PutFixed32) = card ?L"
    by (simp only: card_lists_length_eq [OF finite] card_image [OF injI [of PutFixed32, OF PutFixed32_inject [THEN iffD1]]]) (simp add: card_word)
  then have "range PutFixed32 = ?L" using finite_lists_length_eq [OF finite, of "UNIV :: u8 set" 4] by (intro card_subset_eq) auto
  moreover have "take 4 d \<in> ?L" using assms by simp
  ultimately obtain v where "take 4 d = PutFixed32 v" by blast
  then show ?thesis by (metis GetFixed32_PutFixed32 append_take_drop_id)
qed

lemma PutFixed64_GetFixed64:
  assumes "8 \<le> length d"
  shows "PutFixed64 (GetFixed64 d) = take 8 d"
proof -
  let ?L = "{xs :: bytes. set xs \<subseteq> UNIV \<and> length xs = 8}"
  have "card (range PutFixed64) = card ?L"
    by (simp only: card_lists_length_eq [OF finite] card_image [OF injI [of PutFixed64, OF PutFixed64_inject [THEN iffD1]]]) (simp add: card_word)
  then have "range PutFixed64 = ?L" using finite_lists_length_eq [OF finite, of "UNIV :: u8 set" 8] by (intro card_subset_eq) auto
  moreover have "take 8 d \<in> ?L" using assms by simp
  ultimately obtain v where "take 8 d = PutFixed64 v" by blast
  then show ?thesis by (metis GetFixed64_PutFixed64 append_take_drop_id)
qed

end
