(* ===== verification/Crc32.thy ===== *)
theory Crc32
  imports Encoding
begin

text \<open>
  The CRC-32 of \<^verbatim>\<open>src/crc32.cpp\<close>: the lookup table built by the constructor, the
  byte loop, the pre- and post-inversion. Shown: the streaming law of the header,
  that the check value is the one IEEE 802.3 defines by polynomial division, and
  what it protects: no change confined to four consecutive bytes
  leaves it unchanged.
\<close>

subsection \<open>The code\<close>

text \<open>One round of the inner loop of the table constructor.\<close>

definition crc_bit :: "u32 \<Rightarrow> u32" where
  "crc_bit c = (if c AND 1 \<noteq> 0 then 0xEDB88320 XOR drop_bit 1 c else drop_bit 1 c)"

definition Crc32Table :: "u32 list" where
  "Crc32Table = map (\<lambda>i. (crc_bit ^^ 8) (of_nat i)) [0..<256]"

text \<open>One round of the loop of \<^verbatim>\<open>Crc32\<close>.\<close>

definition crc_byte :: "byte \<Rightarrow> u32 \<Rightarrow> u32" where
  "crc_byte p c = Crc32Table ! unat ((c XOR ucast p) AND 0xFF) XOR drop_bit 8 c"

definition Crc32 :: "bytes \<Rightarrow> u32 \<Rightarrow> u32" where
  "Crc32 data crc = fold crc_byte data (crc XOR 0xFFFFFFFF) XOR 0xFFFFFFFF"

subsection \<open>The definition of the standard\<close>

text \<open>
  The definition of IEEE 802.3, over lists of coefficients with the highest power first. The
  bits of the message are taken in the order of transmission, each byte from its lowest bit
  on; the first 32 of them are complemented, the message is multiplied by \<open>x\<^sup>3\<^sup>2\<close> and divided
  by the generator, and the remainder is complemented.
\<close>

definition ieee_generator :: "nat set" where
  "ieee_generator = {32, 26, 23, 22, 16, 12, 11, 10, 8, 7, 5, 4, 2, 1, 0}"

definition ieee_tail :: "bool list" where
  "ieee_tail = map (\<lambda>e. e \<in> ieee_generator) (rev [0..<32])"

fun xor_front :: "bool list \<Rightarrow> bool list \<Rightarrow> bool list" where
  "xor_front [] ys = ys"
| "xor_front (x # xs) [] = []"
| "xor_front (x # xs) (y # ys) = (x \<noteq> y) # xor_front xs ys"

lemma length_xor_front [simp]: "length (xor_front xs ys) = length ys"
  by (induction xs ys rule: xor_front.induct) simp_all

function poly_rem :: "bool list \<Rightarrow> bool list" where
  "poly_rem bs = (if length bs \<le> 32 then bs else poly_rem (if hd bs then xor_front ieee_tail (tl bs) else tl bs))"
  by pat_completeness auto
termination by (relation "measure length") auto

declare poly_rem.simps [simp del]

definition byte_bits :: "byte \<Rightarrow> bool list" where
  "byte_bits p = map (bit p) [0..<8]"

definition crc_ieee :: "bytes \<Rightarrow> bool list" where
  "crc_ieee data = map Not (poly_rem (xor_front (replicate 32 True) (concat (map byte_bits data) @ replicate 32 False)))"

abbreviation word_bits :: "u32 \<Rightarrow> bool list" where
  "word_bits c \<equiv> map (bit c) [0..<32]"

subsection \<open>Properties\<close>

lemma and_1_bit: "(c AND 1 \<noteq> 0) = bit (c :: u32) 0"
  by (simp add: and_one_eq mod_2_eq_odd bit_0)

lemma crc_bit_alt: "crc_bit c = (if bit c 0 then 0xEDB88320 XOR drop_bit 1 c else drop_bit 1 c)"
  by (simp add: crc_bit_def and_1_bit)

lemma crc_bit_xor: "crc_bit (a XOR b) = crc_bit a XOR crc_bit b"
  by (cases "bit a 0"; cases "bit b 0")
     (simp_all add: crc_bit_alt bit_xor_iff drop_bit_xor xor.assoc xor.left_commute)

lemma crc_pow_xor: "(crc_bit ^^ n) (a XOR b) = (crc_bit ^^ n) a XOR (crc_bit ^^ n) b"
  by (induction n) (simp_all add: crc_bit_xor)

lemma crc_pow_shift: "(\<And>i. i < n \<Longrightarrow> \<not> bit x i) \<Longrightarrow> (crc_bit ^^ n) x = drop_bit n x"
proof (induction n)
  case (Suc n)
  then have "(crc_bit ^^ n) x = drop_bit n x" by simp
  moreover have "\<not> bit (drop_bit n x) 0" using Suc.prems by (simp add: bit_drop_bit_eq)
  ultimately show ?case using crc_bit_alt [of "drop_bit n x"] by (simp add: drop_bit_drop_bit)
qed simp

lemma bit31_poly: "bit (0xEDB88320 :: u32) 31"
  by (simp add: bit_iff_odd)

lemma crc_bit_31: "bit (crc_bit c) 31 = bit c 0"
  using bit31_poly by (auto simp: crc_bit_alt bit_xor_iff bit_drop_bit_eq dest: bit_imp_le_length)

lemma xor_left_cancel: "x XOR a = x XOR b \<longleftrightarrow> a = b" for x a b :: "'a::len word"
  by (metis xor.assoc xor_self_eq xor.left_neutral)

lemma crc_bit_inj: "crc_bit a = crc_bit b \<Longrightarrow> a = b"
proof (rule bit_word_eqI)
  fix n assume eq: "crc_bit a = crc_bit b" 
  have 0: "bit a 0 = bit b 0" using crc_bit_31 [of a] crc_bit_31 [of b] eq by simp
  then have "drop_bit 1 a = drop_bit 1 b"
    using eq by (auto simp: crc_bit_alt xor_left_cancel split: if_splits)
  then have "bit (drop_bit 1 a) (n - 1) = bit (drop_bit 1 b) (n - 1)" by simp
  with 0 show "bit a n = bit b n" by (cases n) (auto simp: bit_drop_bit_eq)
qed

lemma crc_pow_inj: "(crc_bit ^^ n) a = (crc_bit ^^ n) b \<Longrightarrow> a = b"
  by (induction n) (auto dest: crc_bit_inj)

lemma split_low: "x = (x AND 0xFF) XOR (x AND NOT 0xFF)" for x :: u32
  by (rule bit_word_eqI) (auto simp: bit_simps)

lemma crc_byte_ref: "crc_byte p c = (crc_bit ^^ 8) (c XOR ucast p)"
proof -
  let ?y = "c XOR ucast p"
  let ?i = "?y AND 0xFF"
  have le: "unat ?i < 256"
  proof -
    have "unat ?i \<le> unat (0xFF :: u32)" by (rule word_and_le1 [THEN word_le_nat_alt [THEN iffD1]])
    then show ?thesis by simp
  qed
  have "(crc_bit ^^ 8) ?y = (crc_bit ^^ 8) ?i XOR (crc_bit ^^ 8) (?y AND NOT 0xFF)"
    by (subst split_low) (rule crc_pow_xor)
  moreover have "(crc_bit ^^ 8) (?y AND NOT 0xFF) = drop_bit 8 (?y AND NOT 0xFF)"
    by (rule crc_pow_shift) (auto simp: mask8 bit_simps)
  moreover have "drop_bit 8 (?y AND NOT 0xFF) = drop_bit 8 c"
    by (rule bit_word_eqI) (auto simp: mask8 bit_simps dest: bit_imp_le_length)
  moreover have "Crc32Table ! unat ?i = (crc_bit ^^ 8) ?i"
    using le by (simp add: Crc32Table_def del: of_nat_unat) simp
  ultimately show ?thesis by (simp add: crc_byte_def)
qed


lemma Crc32_append: "Crc32 (a @ b) c = Crc32 b (Crc32 a c)"
  by (simp add: Crc32_def xor.assoc)

lemma Crc32_Nil [simp]: "Crc32 [] c = c"
  by (simp add: Crc32_def xor.assoc)

subsection \<open>Agreement with the standard\<close>

lemma ieee_tail_poly: "ieee_tail = word_bits 0xEDB88320"
  by code_simp

lemma nth_xor_front: "i < length ys \<Longrightarrow> xor_front xs ys ! i = (if i < length xs then xs ! i \<noteq> ys ! i else ys ! i)"
  by (induction xs ys arbitrary: i rule: xor_front.induct) (auto simp: nth_Cons split: nat.splits)

lemma xor_front_assoc: "length xs = length zs \<Longrightarrow> xor_front xs (xor_front zs ys) = xor_front (xor_front xs zs) ys"
  by (rule nth_equalityI) (auto simp: nth_xor_front)

lemma xor_front_pad: "length xs < length ys \<Longrightarrow> xor_front (xs @ [False]) ys = xor_front xs ys"
  by (rule nth_equalityI) (auto simp: nth_xor_front nth_append)

lemma crc_bit_bits: "word_bits (crc_bit c) = xor_front (if bit c 0 then ieee_tail else []) (tl (word_bits c) @ [False])"
proof (rule nth_equalityI)
  fix i assume "i < length (word_bits (crc_bit c))"
  then have i: "i < 32" by simp
  have "(tl (word_bits c) @ [False]) ! i = bit c (Suc i)" using i
    by (cases "i < 31") (auto simp: nth_append nth_tl dest: bit_imp_le_length)
  then show "word_bits (crc_bit c) ! i = xor_front (if bit c 0 then ieee_tail else []) (tl (word_bits c) @ [False]) ! i"
    using i by (auto simp: nth_xor_front ieee_tail_poly crc_bit_alt bit_xor_iff bit_drop_bit_eq)
qed simp

lemma poly_rem_bit:
  assumes "32 \<le> length bs"
  shows "poly_rem (xor_front (word_bits c) (b # bs)) = poly_rem (xor_front (word_bits (crc_bit (c XOR of_bool b))) bs)"
proof -
  let ?c = "c XOR of_bool b" and ?t = "tl (word_bits c)"
  have b0: "bit ?c 0 = (bit c 0 \<noteq> b)" by (simp add: bit_xor_iff)
  have t: "tl (word_bits ?c) = ?t" by (rule nth_equalityI) (auto simp: nth_tl bit_xor_iff bit_of_bool_iff)
  have w: "word_bits c = bit c 0 # ?t" by (simp add: upt_rec)
  have "poly_rem (xor_front (word_bits c) (b # bs)) = poly_rem ((bit c 0 \<noteq> b) # xor_front ?t bs)" by (subst w) simp
  also have "\<dots> = poly_rem (xor_front (if bit ?c 0 then ieee_tail else []) (xor_front ?t bs))"
    using assms by (subst poly_rem.simps) (simp add: b0)
  also have "xor_front ?t bs = xor_front (?t @ [False]) bs" using assms by (intro xor_front_pad [symmetric]) simp
  also have "xor_front (if bit ?c 0 then ieee_tail else []) (xor_front (?t @ [False]) bs) = xor_front (word_bits (crc_bit ?c)) bs"
    unfolding crc_bit_bits [of ?c] t by (simp add: xor_front_assoc ieee_tail_poly)
  finally show ?thesis .
qed

lemma poly_rem_bits:
  "poly_rem (xor_front (word_bits c) (bs @ replicate 32 False)) = word_bits (fold (\<lambda>b c. crc_bit (c XOR of_bool b)) bs c)"
proof (induction bs arbitrary: c)
  case Nil
  have "xor_front (word_bits c) (replicate 32 False) = word_bits c" by (rule nth_equalityI) (auto simp: nth_xor_front)
  then show ?case by (simp add: poly_rem.simps [of "word_bits c"])
next
  case (Cons b bs)
  have "poly_rem (xor_front (word_bits c) ((b # bs) @ replicate 32 False))
      = poly_rem (xor_front (word_bits (crc_bit (c XOR of_bool b))) (bs @ replicate 32 False))"
    unfolding append_Cons by (rule poly_rem_bit) simp
  then show ?case using Cons.IH by simp
qed

lemma take_bit_step: "take_bit (Suc n) x = take_bit n x XOR push_bit n (of_bool (bit x n))" for x :: u32
  by (rule bit_word_eqI) (auto simp: bit_simps)

lemma crc_bits_upto:
  assumes "n \<le> 8"
  shows "fold (\<lambda>b c. crc_bit (c XOR of_bool b)) (map (bit p) [0..<n]) c = (crc_bit ^^ n) (c XOR take_bit n (ucast p))"
  using assms
proof (induction n)
  case (Suc n)
  let ?x = "ucast p :: u32" and ?b = "of_bool (bit p n) :: u32"
  have bx: "bit ?x n = bit p n" using Suc.prems by (simp add: bit_ucast_iff)
  have "(crc_bit ^^ n) (push_bit n ?b) = drop_bit n (push_bit n ?b)" by (rule crc_pow_shift) (simp add: bit_simps)
  also have "\<dots> = ?b" using Suc.prems by (intro bit_word_eqI) (auto simp: bit_simps)
  finally have s: "(crc_bit ^^ n) (push_bit n ?b) = ?b" .
  have "fold (\<lambda>b c. crc_bit (c XOR of_bool b)) (map (bit p) [0..<Suc n]) c = crc_bit ((crc_bit ^^ n) (c XOR take_bit n ?x) XOR ?b)"
    using Suc by simp
  also have "\<dots> = crc_bit ((crc_bit ^^ n) (c XOR take_bit n ?x XOR push_bit n ?b))" by (simp add: crc_pow_xor s xor.assoc)
  also have "c XOR take_bit n ?x XOR push_bit n ?b = c XOR take_bit (Suc n) ?x" by (simp add: take_bit_step bx xor.assoc)
  finally show ?case by simp
qed simp

lemma crc_byte_bits: "fold (\<lambda>b c. crc_bit (c XOR of_bool b)) (byte_bits p) c = crc_byte p c"
proof -
  have "take_bit 8 (ucast p :: u32) = ucast p" by (rule bit_word_eqI) (auto simp: bit_simps dest: bit_imp_le_length)
  then show ?thesis using crc_bits_upto [of 8 p c] by (simp add: byte_bits_def crc_byte_ref)
qed

lemma crc_data_bits: "fold (\<lambda>b c. crc_bit (c XOR of_bool b)) (concat (map byte_bits data)) c = fold crc_byte data c"
  by (induction data arbitrary: c) (simp_all add: crc_byte_bits)

text \<open>
  C35: \<^verbatim>\<open>Crc32\<close> is the CRC-32 of IEEE 802.3: for every message the bits of the check value,
  from the lowest on, are the complemented remainder of the division by the generator
  polynomial of the standard, given by its exponents.
\<close>

theorem Crc32_ieee: "map (bit (Crc32 data 0)) [0..<32] = crc_ieee data"
proof -
  have ones: "replicate 32 True = word_bits 0xFFFFFFFF" by code_simp
  have "crc_ieee data = map Not (word_bits (fold crc_byte data 0xFFFFFFFF))"
    unfolding crc_ieee_def ones poly_rem_bits crc_data_bits ..
  also have "\<dots> = word_bits (Crc32 data 0)"
  proof (rule nth_equalityI)
    fix i assume "i < length (map Not (word_bits (fold crc_byte data 0xFFFFFFFF)))"
    then have "i < 32" by simp
    moreover from this have "bit (0xFFFFFFFF :: u32) i" using arg_cong [OF ones, of "\<lambda>xs. xs ! i"] by simp
    ultimately show "map Not (word_bits (fold crc_byte data 0xFFFFFFFF)) ! i = word_bits (Crc32 data 0) ! i"
      by (simp add: Crc32_def bit_xor_iff)
  qed simp
  finally show ?thesis ..
qed

subsection \<open>Damage\<close>

lemma crc_byte_inj: "crc_byte p a = crc_byte p b \<Longrightarrow> a = b"
  unfolding crc_byte_ref by (drule crc_pow_inj) (metis xor.commute xor_left_cancel)

lemma fold_crc_inj: "fold crc_byte ps a = fold crc_byte ps b \<Longrightarrow> a = b"
  by (induction ps arbitrary: a b) (auto dest: crc_byte_inj)

text \<open>Up to four bytes as one little-endian word.\<close>

fun le_word :: "bytes \<Rightarrow> u32" where
  "le_word [] = 0"
| "le_word (p # ps) = ucast p XOR push_bit 8 (le_word ps)"

lemma le_word_high: "8 * length ps \<le> n \<Longrightarrow> \<not> bit (le_word ps) n"
proof (induction ps arbitrary: n)
  case (Cons p ps)
  then have "\<not> bit (le_word ps) (n - 8)" and "8 \<le> n" by auto
  then show ?case by (auto simp: bit_simps dest: bit_imp_le_length)
qed simp

lemma drop_push_le_word:
  assumes "length ps \<le> 3"
  shows "drop_bit 8 (push_bit 8 (le_word ps)) = le_word ps"
proof (rule bit_word_eqI)
  fix n
  show "bit (drop_bit 8 (push_bit 8 (le_word ps))) n = bit (le_word ps) n"
    using le_word_high [of ps n] assms by (cases "n < 24") (auto simp: bit_simps)
qed

lemma fold_crc_le_word:
  "length xs \<le> 4 \<Longrightarrow> fold crc_byte xs c = (crc_bit ^^ (8 * length xs)) (c XOR le_word xs)"
proof (induction xs arbitrary: c)
  case (Cons p ps)
  let ?w = "push_bit 8 (le_word ps)"
  have "(crc_bit ^^ 8) ?w = drop_bit 8 ?w"
    by (rule crc_pow_shift) (simp add: bit_simps)
  then have w: "(crc_bit ^^ 8) ?w = le_word ps"
    using Cons.prems drop_push_le_word by simp
  have "fold crc_byte (p # ps) c = (crc_bit ^^ (8 * length ps)) (crc_byte p c XOR le_word ps)"
    using Cons by simp
  also have "crc_byte p c XOR le_word ps = (crc_bit ^^ 8) (c XOR ucast p XOR ?w)"
    by (simp only: crc_byte_ref crc_pow_xor w xor.assoc)
  also have "(crc_bit ^^ (8 * length ps)) \<dots> = (crc_bit ^^ (8 * length ps + 8)) (c XOR ucast p XOR ?w)"
    by (simp only: funpow_add comp_apply)
  finally show ?case by (simp add: xor.assoc add.commute del: funpow.simps)
qed simp

lemma le_word_inj:
  "length xs = length ys \<Longrightarrow> length xs \<le> 4 \<Longrightarrow> le_word xs = le_word ys \<Longrightarrow> xs = ys"
proof (induction xs ys rule: list_induct2)
  case (Cons x xs y ys)
  have eq: "bit (ucast x XOR push_bit 8 (le_word xs)) n = bit (ucast y XOR push_bit 8 (le_word ys)) n" for n
    using Cons.prems by simp
  have "x = y"
  proof (rule bit_word_eqI)
    fix n assume "n < LENGTH(8)"
    then show "bit x n = bit y n" using eq [of n] by (simp add: bit_simps)
  qed
  then have "push_bit 8 (le_word xs) = push_bit 8 (le_word ys)"
    using Cons.prems by (simp add: xor_left_cancel)
  then have "drop_bit 8 (push_bit 8 (le_word xs)) = drop_bit 8 (push_bit 8 (le_word ys))"
    by (rule arg_cong)
  moreover have "length xs \<le> 3" "length ys \<le> 3" using Cons.hyps Cons.prems by auto
  ultimately have "le_word xs = le_word ys"
    by (simp only: drop_push_le_word)
  with \<open>x = y\<close> show ?case using Cons by simp
qed simp

lemma xor_right_cancel: "a XOR x = b XOR x \<longleftrightarrow> a = b" for x a b :: "'a::len word"
  by (metis xor.commute xor_left_cancel)

lemma Crc32_burst_neq:
  assumes "length xs = length ys" and "length xs \<le> 4" and "xs \<noteq> ys"
  shows "Crc32 (a @ xs @ b) c \<noteq> Crc32 (a @ ys @ b) c"
proof
  define s where "s = fold crc_byte a (c XOR 0xFFFFFFFF)"
  assume "Crc32 (a @ xs @ b) c = Crc32 (a @ ys @ b) c"
  then have "fold crc_byte b (fold crc_byte xs s) = fold crc_byte b (fold crc_byte ys s)"
    by (simp add: Crc32_def s_def xor_right_cancel)
  then have "fold crc_byte xs s = fold crc_byte ys s" by (rule fold_crc_inj)
  then have "(crc_bit ^^ (8 * length xs)) (s XOR le_word xs) = (crc_bit ^^ (8 * length xs)) (s XOR le_word ys)"
    using assms(1,2) fold_crc_le_word [of xs s] fold_crc_le_word [of ys s] by simp
  then have "s XOR le_word xs = s XOR le_word ys" by (rule crc_pow_inj)
  then have "le_word xs = le_word ys" by (simp add: xor_left_cancel)
  with assms show False using le_word_inj by blast
qed
text \<open>
  C37: replacing up to four consecutive bytes by different ones always changes the
  check value, wherever they sit in the message.
\<close>

theorem Crc32_burst:
  assumes "length xs = length ys" and "length xs \<le> 4" and "xs \<noteq> ys"
  shows "Crc32 (a @ xs @ b) c \<noteq> Crc32 (a @ ys @ b) c"
  using assms by (rule Crc32_burst_neq)

theorem Crc32_burst_witness:
  "length ([1] :: bytes) = length ([2] :: bytes) \<and> length ([1] :: bytes) \<le> 4 \<and> ([1] :: bytes) \<noteq> [2] \<and>
   Crc32 ([7] @ [1] @ [9]) 0 \<noteq> Crc32 ([7] @ [2] @ [9]) 0"
  using Crc32_burst [of "[1]" "[2]" "[7]" "[9]" 0] by simp

end
