(* ===== verification/Status.thy ===== *)
theory Status
  imports Crc32
begin

text \<open>
  \<^verbatim>\<open>Status\<close> (\<^verbatim>\<open>include/bedrockkv/status.h\<close>, \<^verbatim>\<open>src/status.cpp\<close>): the code and
  the message every fallible operation returns, the named constructors, the
  comparison and the printer.
\<close>

datatype Code = kOk | kNotFound | kCorruption | kIOError | kInvalidArgument | kNotSupported

record Status =
  code :: Code
  message :: bytes

definition Ok :: Status where
  "Ok = \<lparr>code = kOk, message = []\<rparr>"

definition NotFound :: "bytes \<Rightarrow> Status" where
  "NotFound msg = \<lparr>code = kNotFound, message = msg\<rparr>"

definition Corruption :: "bytes \<Rightarrow> Status" where
  "Corruption msg = \<lparr>code = kCorruption, message = msg\<rparr>"

definition IOError :: "bytes \<Rightarrow> Status" where
  "IOError msg = \<lparr>code = kIOError, message = msg\<rparr>"

definition InvalidArgument :: "bytes \<Rightarrow> Status" where
  "InvalidArgument msg = \<lparr>code = kInvalidArgument, message = msg\<rparr>"

definition NotSupported :: "bytes \<Rightarrow> Status" where
  "NotSupported msg = \<lparr>code = kNotSupported, message = msg\<rparr>"

definition ok :: "Status \<Rightarrow> bool" where
  "ok s \<longleftrightarrow> code s = kOk"

definition status_eq :: "Status \<Rightarrow> Status \<Rightarrow> bool" where
  "status_eq a b \<longleftrightarrow> code a = code b \<and> (ok a \<or> message a = message b)"

definition ToString :: "Status \<Rightarrow> bytes" where
  "ToString s = (case code s of
     kOk \<Rightarrow> str ''OK''
   | kNotFound \<Rightarrow> str ''NotFound: '' @ message s
   | kCorruption \<Rightarrow> str ''Corruption: '' @ message s
   | kIOError \<Rightarrow> str ''IOError: '' @ message s
   | kInvalidArgument \<Rightarrow> str ''InvalidArgument: '' @ message s
   | kNotSupported \<Rightarrow> str ''NotSupported: '' @ message s)"

lemmas status_defs =
  Ok_def NotFound_def Corruption_def IOError_def InvalidArgument_def NotSupported_def

lemma ok_simps [simp]:
  "ok Ok" "\<not> ok (NotFound m)" "\<not> ok (Corruption m)" "\<not> ok (IOError m)"
  "\<not> ok (InvalidArgument m)" "\<not> ok (NotSupported m)"
  by (simp_all add: ok_def status_defs)

lemma code_simps [simp]:
  "code Ok = kOk" "code (NotFound m) = kNotFound" "code (Corruption m) = kCorruption"
  "code (IOError m) = kIOError" "code (InvalidArgument m) = kInvalidArgument"
  "code (NotSupported m) = kNotSupported"
  by (simp_all add: status_defs)

lemma message_simps [simp]:
  "message Ok = []" "message (NotFound m) = m" "message (Corruption m) = m"
  "message (IOError m) = m" "message (InvalidArgument m) = m" "message (NotSupported m) = m"
  by (simp_all add: status_defs)

text \<open>The comparison is an equivalence, and the printer respects and separates its classes.\<close>

lemma status_eq_refl [simp]: "status_eq a a"
  by (simp add: status_eq_def)

lemma status_eq_sym: "status_eq a b \<Longrightarrow> status_eq b a"
  by (auto simp: status_eq_def ok_def)

lemma status_eq_trans: "status_eq a b \<Longrightarrow> status_eq b c \<Longrightarrow> status_eq a c"
  by (auto simp: status_eq_def ok_def)

lemma ToString_eq_iff: "ToString a = ToString b \<longleftrightarrow> status_eq a b"
  by (cases "code a"; cases "code b") (simp_all add: ToString_def status_eq_def ok_def)

end
