(* ===== verification/Wal.thy ===== *)
theory Wal
  imports Status
begin

text \<open>
  The write-ahead log (\<^verbatim>\<open>include/bedrockkv/log.h\<close>, \<^verbatim>\<open>src/log.cpp\<close>): records in
  32 KiB blocks, each fragment with length, CRC and type.

  \<^item> \<open>encode_loop\<close>/\<open>EncodeRecord\<close> fragment a payload; \<open>write_all\<close> and
    \<open>AddRecord\<close> append it to the file. The kernel's answers to the successive
    \<^verbatim>\<open>::write\<close> calls are a list (short writes, EINTR, an error with its
    \<^verbatim>\<open>strerror\<close> text); once the list is used up every call takes all bytes.
  \<^item> \<open>fill_block\<close>, \<open>ReadPhysicalRecord\<close>, \<open>ReadRecord\<close> are the reader with its
    block buffer; \<open>read_all\<close> is the loop every caller runs over it.
  \<^item> \<open>phys_at\<close> is the reader's specification: parsing at an absolute offset of
    the file, with no buffer. The reader refines it.
\<close>

subsection \<open>Constants\<close>

definition kBlockSize :: nat where [const_defs]: "kBlockSize = 32768"
definition kHeaderSize :: nat where [const_defs]: "kHeaderSize = 9"

definition kZeroType :: u8 where [simp]: "kZeroType = 0"
definition kFullType :: u8 where [simp]: "kFullType = 1"
definition kFirstType :: u8 where [simp]: "kFirstType = 2"
definition kMiddleType :: u8 where [simp]: "kMiddleType = 3"
definition kLastType :: u8 where [simp]: "kLastType = 4"

subsection \<open>Writer\<close>

definition frag_header :: "u8 \<Rightarrow> bytes \<Rightarrow> bytes" where
  "frag_header t frag =
     PutFixed32 (of_nat (length frag)) @ PutFixed32 (Crc32 frag (Crc32 [t] 0)) @ [t]"

lemma length_frag_header [simp, bytes_simps]: "length (frag_header t frag) = kHeaderSize"
  by (simp add: frag_header_def kHeaderSize_def)

text \<open>The pieces one round of the loop of \<^verbatim>\<open>EncodeRecord\<close> computes.\<close>

definition enc_pad :: "nat \<Rightarrow> nat" where
  "enc_pad block_off =
     (let leftover = kBlockSize - block_off in if leftover < kHeaderSize then leftover else 0)"

definition enc_off :: "nat \<Rightarrow> nat" where
  "enc_off block_off = (if kBlockSize - block_off < kHeaderSize then 0 else block_off)"

definition enc_frag :: "nat \<Rightarrow> nat \<Rightarrow> nat" where
  "enc_frag left off =
     (let avail = kBlockSize - off - kHeaderSize in if left < avail then left else avail)"

definition enc_type :: "bool \<Rightarrow> nat \<Rightarrow> nat \<Rightarrow> u8" where
  "enc_type first frag left =
     (if first \<and> frag = left then kFullType
      else if first then kFirstType
      else if frag = left then kLastType
      else kMiddleType)"

lemma enc_frag_le: "enc_frag left off \<le> left"
  by (simp add: enc_frag_def Let_def)

lemma enc_frag_progress: "0 < left \<Longrightarrow> off < kBlockSize - kHeaderSize \<Longrightarrow> 0 < enc_frag left off"
  by (auto simp: enc_frag_def Let_def)

function encode_loop :: "bytes \<Rightarrow> nat \<Rightarrow> bool \<Rightarrow> bytes" where
  "encode_loop p block_off first =
     (let off = enc_off block_off;
          frag = enc_frag (length p) off;
          t = enc_type first frag (length p);
          out = replicate (enc_pad block_off) 0 @ frag_header t (take frag p) @ take frag p
      in if frag < length p
         then out @ encode_loop (drop frag p) (off + kHeaderSize + frag) False
         else out)"
  by pat_completeness auto
termination
proof (relation "measures [\<lambda>(p, off, first). length p, \<lambda>(p, off, first). if enc_off off < kBlockSize - kHeaderSize then 0 else 1]", goal_cases)
  case (2 p block_off first off frag t out)
  show ?case
  proof (cases "off < kBlockSize - kHeaderSize")
    case True
    with 2 have "0 < length p" by auto
    from this True have "0 < enc_frag (length p) off" by (rule enc_frag_progress)
    with 2 have "0 < frag" by simp
    with 2 show ?thesis by auto
  next
    case False
    with 2 have "frag = 0" and "enc_off (off + kHeaderSize + frag) = 0"
      by (auto simp: enc_frag_def enc_off_def const_defs Let_def)
    with 2 False show ?thesis by (auto simp: const_defs)
  qed
qed simp

declare encode_loop.simps [simp del]

definition EncodeRecord :: "bytes \<Rightarrow> nat \<Rightarrow> bytes" where
  "EncodeRecord payload absolute_offset =
     encode_loop payload (absolute_offset mod kBlockSize) True"

datatype wr = Wrote nat | WEintr | WErr bytes

text \<open>
  \<^verbatim>\<open>Writer::WriteAll\<close> on the file contents: the status, the new contents, and
  the kernel answers not used. \<^verbatim>\<open>::write\<close> never takes more than it is offered.
\<close>

fun write_all :: "wr list \<Rightarrow> bytes \<Rightarrow> bytes \<Rightarrow> Status \<times> bytes \<times> wr list" where
  "write_all ws file data =
     (if data = [] then (Ok, file, ws)
      else case ws of
        [] \<Rightarrow> (Ok, file @ data, [])
      | Wrote k # ws' \<Rightarrow> write_all ws' (file @ take k data) (drop k data)
      | WEintr # ws' \<Rightarrow> write_all ws' file data
      | WErr e # ws' \<Rightarrow> (IOError (str ''WAL write failed: '' @ e), file, ws'))"

declare write_all.simps [simp del]

record Writer =
  wfile :: bytes
  file_offset :: nat

definition AddRecord :: "wr list \<Rightarrow> bytes \<Rightarrow> Writer \<Rightarrow> Status \<times> Writer \<times> wr list" where
  "AddRecord ws payload w =
     (let buf = EncodeRecord payload (file_offset w);
          (s, file, ws') = write_all ws (wfile w) buf
      in (s, w\<lparr>wfile := file,
               file_offset := (if ok s then file_offset w + length buf else file_offset w)\<rparr>,
          ws'))"

subsection \<open>Reader\<close>

datatype rd = Got nat | REintr | RErr

text \<open>
  The loop that pulls one block from the file: the block read so far, whether the
  end of file was met, the unread rest, the kernel answers left; \<open>None\<close> on a read
  error. \<^verbatim>\<open>::read\<close> returns between 1 and the requested number of bytes while any
  are left, and 0 at the end of the file.
\<close>

fun fill_block :: "rd list \<Rightarrow> bytes \<Rightarrow> bytes \<Rightarrow> (bytes \<times> bool) option \<times> bytes \<times> rd list" where
  "fill_block rs rest block =
     (if kBlockSize \<le> length block then (Some (block, False), rest, rs)
      else case rs of
        [] \<Rightarrow> (let got = take (kBlockSize - length block) rest
               in (Some (block @ got, length (block @ got) < kBlockSize),
                   drop (kBlockSize - length block) rest, []))
      | Got k # rs' \<Rightarrow>
          (if rest = [] then (Some (block, True), [], rs')
           else let k' = max 1 (min k (kBlockSize - length block))
                in fill_block rs' (drop k' rest) (block @ take k' rest))
      | REintr # rs' \<Rightarrow> fill_block rs' rest block
      | RErr # rs' \<Rightarrow> (None, rest, rs'))"

declare fill_block.simps [simp del]

record Reader =
  unread :: bytes
  answers :: "rd list"
  buffer :: bytes
  rpos :: nat
  eof :: bool
  bytes_read :: nat
  last_good_end :: nat

definition open_reader :: "rd list \<Rightarrow> bytes \<Rightarrow> Reader" where
  "open_reader rs file = \<lparr>unread = file, answers = rs, buffer = [], rpos = 0, eof = False,
                          bytes_read = 0, last_good_end = 0\<rparr>"

datatype phys = PhysOk bytes u8 nat | PhysEof | PhysCorrupt


lemma fill_block_length:
  "fill_block rs rest block = (Some (blk, e), rest', rs') \<Longrightarrow>
     length blk + length rest' = length block + length rest"
proof (induction rs rest block rule: fill_block.induct)
  case (1 rs rest block)
  show ?case
  proof (cases "kBlockSize \<le> length block")
    case True
    with "1.prems" show ?thesis by (simp add: fill_block.simps [of rs])
  next
    case False
    show ?thesis
    proof (cases rs)
      case Nil
      with False "1.prems" show ?thesis by (auto simp: fill_block.simps [of "[]"] Let_def)
    next
      case (Cons a rs1)
      show ?thesis
      proof (cases a)
        case (Got k)
        show ?thesis
        proof (cases "rest = []")
          case True
          with Cons Got False "1.prems" show ?thesis by (auto simp: fill_block.simps [of "_ # _"])
        next
          case rest: False
          let ?k = "max 1 (min k (kBlockSize - length block))"
          have "fill_block rs1 (drop ?k rest) (block @ take ?k rest) = (Some (blk, e), rest', rs')"
            using Cons Got False rest "1.prems" by (simp add: fill_block.simps [of "_ # _"] Let_def)
          from "1.IH"(1) [OF False Cons Got rest refl this] show ?thesis
            by (metis (no_types) add.assoc append_take_drop_id length_append)
        qed
      next
        case REintr
        then have "fill_block rs1 rest block = (Some (blk, e), rest', rs')"
          using Cons False "1.prems" by (simp add: fill_block.simps [of "_ # _"])
        from "1.IH"(2) [OF False Cons REintr this] show ?thesis .
      next
        case RErr
        with Cons False "1.prems" show ?thesis by (simp add: fill_block.simps [of "_ # _"])
      qed
    qed
  qed
qed

lemma fill_block_less:
  assumes "fill_block rs rest [] = (Some (blk, e), rest', rs')" and "blk \<noteq> []"
  shows "length rest' < length rest"
  using fill_block_length [OF assms(1)] assms(2) by (cases blk) auto

function ReadPhysicalRecord :: "Reader \<Rightarrow> phys \<times> Reader" where
  "ReadPhysicalRecord r =
     (if length (buffer r) < rpos r + kHeaderSize then
        if eof r then (PhysEof, r)
        else
          let r0 = r\<lparr>rpos := length (buffer r)\<rparr> in
          case fill_block (answers r) (unread r) [] of
            (None, rest, rs) \<Rightarrow> (PhysCorrupt, r0\<lparr>unread := rest, answers := rs\<rparr>)
          | (Some (block, e), rest, rs) \<Rightarrow>
              let r1 = r0\<lparr>unread := rest, answers := rs, eof := e\<rparr> in
              if block = [] then (PhysEof, r1)
              else ReadPhysicalRecord
                     (r1\<lparr>bytes_read := bytes_read r + length block, buffer := block, rpos := 0\<rparr>)
      else
        let hd = drop (rpos r) (buffer r);
            len = GetFixed32 hd;
            stored_crc = GetFixed32 (drop 4 hd);
            t = hd ! 8;
            p = rpos r + kHeaderSize
        in if t = kZeroType \<and> len = 0 \<and> stored_crc = 0 then
             ReadPhysicalRecord (r\<lparr>rpos := length (buffer r)\<rparr>)
           else if kBlockSize - kHeaderSize < unat len \<or> length (buffer r) < p + unat len then
             (PhysCorrupt, r\<lparr>rpos := p\<rparr>)
           else
             let fragment = sub (buffer r) p (unat len);
                 r' = r\<lparr>rpos := p + unat len\<rparr>;
                 end_offset = bytes_read r - length (buffer r) + rpos r'
             in if Crc32 fragment (Crc32 [t] 0) \<noteq> stored_crc then (PhysCorrupt, r')
                else (PhysOk fragment t end_offset, r'))"
  by pat_completeness auto
termination
proof (relation "measures [\<lambda>r. length (unread r), \<lambda>r. length (buffer r) - rpos r]", goal_cases)
  case (2 r r0 a b c block e rest rs r1)
  then have "fill_block (answers r) (unread r) [] = (Some (block, e), rest, rs)" by simp
  from fill_block_less [OF this] 2 show ?case by simp
qed (simp_all add: kHeaderSize_def)

declare ReadPhysicalRecord.simps [simp del]


text \<open>What a reader has still to look at; every fragment it returns uses some of it.\<close>

definition reader_left :: "Reader \<Rightarrow> nat" where
  "reader_left r = length (unread r) + (length (buffer r) - rpos r)"

lemma ReadPhysicalRecord_left:
  "ReadPhysicalRecord r = (PhysOk frag t e, r') \<Longrightarrow> reader_left r' < reader_left r"
proof (induction r rule: ReadPhysicalRecord.induct)
  case (1 r)
  note eq = ReadPhysicalRecord.simps [of r]
  show ?case
  proof (cases "length (buffer r) < rpos r + kHeaderSize")
    case True
    show ?thesis
    proof (cases "eof r")
      case False
      obtain ob rest rs where fb: "fill_block (answers r) (unread r) [] = (ob, rest, rs)"
        by (metis surj_pair)
      obtain blk e0 where ob: "ob = Some (blk, e0)" "blk \<noteq> []"
      proof (cases ob)
        case None
        with 1(3) True False fb have False unfolding eq by (simp add: Let_def)
        then show ?thesis ..
      next
        case (Some be)
        obtain blk e0 where be: "be = (blk, e0)" by (metis surj_pair)
        have "blk \<noteq> []"
          using 1(3) True False fb Some be unfolding eq by (auto simp: Let_def)
        with Some be show ?thesis by (auto intro: that)
      qed
      let ?r1 = "r\<lparr>rpos := length (buffer r)\<rparr>\<lparr>unread := rest, answers := rs, eof := e0\<rparr>
         \<lparr>bytes_read := bytes_read r + length blk, buffer := blk, rpos := 0\<rparr>"
      have "ReadPhysicalRecord ?r1 = (PhysOk frag t e, r')"
        using 1(3) True False fb ob unfolding eq by (simp add: Let_def)
      from 1(1) [OF True False refl fb [symmetric] ob(1) refl refl refl ob(2) this]
      have "reader_left r' < reader_left ?r1" .
      moreover have "reader_left ?r1 \<le> reader_left r"
        using fill_block_length [of "answers r" "unread r" "[]" blk e0 rest rs] fb ob
        by (auto simp: reader_left_def)
      ultimately show ?thesis by simp
    next
      case eof: True
      with 1(3) True show ?thesis unfolding eq by simp
    qed
  next
    case False
    let ?hd = "drop (rpos r) (buffer r)"
    let ?zero = "?hd ! 8 = kZeroType \<and> GetFixed32 ?hd = 0 \<and> GetFixed32 (drop 4 ?hd) = 0"
    show ?thesis
    proof (cases ?zero)
      case True
      then have "ReadPhysicalRecord (r\<lparr>rpos := length (buffer r)\<rparr>) = (PhysOk frag t e, r')"
        using 1(3) False unfolding eq by (simp add: Let_def)
      from 1(2) [OF False refl refl refl refl refl True this] False show ?thesis
        by (simp add: reader_left_def kHeaderSize_def)
    next
      case nz: False
      then have "r' = r\<lparr>rpos := rpos r + kHeaderSize + unat (GetFixed32 ?hd)\<rparr>"
        using 1(3) False unfolding eq by (simp only: Let_def if_False split: if_splits) simp_all
      with False show ?thesis by (simp add: reader_left_def kHeaderSize_def)
    qed
  qed
qed

datatype rres = RecOk bytes | RecEof | RecCorrupt nat

text \<open>
  The loop of \<^verbatim>\<open>ReadRecord\<close>: \<open>in_fragmented\<close> and the assembled \<open>scratch\<close>. On
  corruption the result carries \<^verbatim>\<open>*corruption_offset\<close>.
\<close>

function read_loop :: "bool \<Rightarrow> bytes \<Rightarrow> Reader \<Rightarrow> rres \<times> Reader" where
  "read_loop in_fragmented scratch r =
     (case ReadPhysicalRecord r of
        (PhysEof, r1) \<Rightarrow> (if in_fragmented then RecCorrupt (last_good_end r1) else RecEof, r1)
      | (PhysCorrupt, r1) \<Rightarrow> (RecCorrupt (last_good_end r1), r1)
      | (PhysOk fragment t end_offset, r1) \<Rightarrow>
          if t = kFullType then
            if in_fragmented then (RecCorrupt (last_good_end r1), r1)
            else (RecOk fragment, r1\<lparr>last_good_end := end_offset\<rparr>)
          else if t = kFirstType then
            if in_fragmented then (RecCorrupt (last_good_end r1), r1)
            else read_loop True fragment r1
          else if t = kMiddleType then
            if \<not> in_fragmented then (RecCorrupt (last_good_end r1), r1)
            else read_loop True (scratch @ fragment) r1
          else if t = kLastType then
            if \<not> in_fragmented then (RecCorrupt (last_good_end r1), r1)
            else (RecOk (scratch @ fragment), r1\<lparr>last_good_end := end_offset\<rparr>)
          else (RecCorrupt (last_good_end r1), r1))"
  by pat_completeness auto
termination
proof (relation "measure (\<lambda>(f, s, r). reader_left r)", goal_cases)
  case (2 f s r x y frag t e)
  then have "ReadPhysicalRecord r = (PhysOk frag t e, y)" by simp
  then show ?case by (simp add: ReadPhysicalRecord_left)
next
  case (3 f s r x y frag t e)
  then have "ReadPhysicalRecord r = (PhysOk frag t e, y)" by simp
  then show ?case by (simp add: ReadPhysicalRecord_left)
qed simp

declare read_loop.simps [simp del]

definition ReadRecord :: "Reader \<Rightarrow> rres \<times> Reader" where
  "ReadRecord r = read_loop False [] r"

lemma read_loop_left: "read_loop f s r = (RecOk p, r') \<Longrightarrow> reader_left r' < reader_left r"
proof (induction f s r rule: read_loop.induct)
  case (1 f s r)
  obtain ph r1 where ph: "ReadPhysicalRecord r = (ph, r1)" by (metis surj_pair)
  show ?case
  proof (cases ph)
    case (PhysOk frag t e)
    have less: "reader_left r1 < reader_left r" using ReadPhysicalRecord_left ph PhysOk by blast
    have r1': "reader_left (r1\<lparr>last_good_end := e\<rparr>) = reader_left r1" by (simp add: reader_left_def)
    have IH1: "t = 2 \<Longrightarrow> \<not> f \<Longrightarrow> read_loop True frag r1 = (RecOk p, r') \<Longrightarrow> reader_left r' < reader_left r1"
      using "1.IH"(1) [OF ph [symmetric] PhysOk] by simp
    have IH2: "t = 3 \<Longrightarrow> f \<Longrightarrow> read_loop True (s @ frag) r1 = (RecOk p, r') \<Longrightarrow> reader_left r' < reader_left r1"
      using "1.IH"(2) [OF ph [symmetric] PhysOk] by simp
    have eq: "read_loop f s r = (if t = 1 then if f then (RecCorrupt (last_good_end r1), r1)
            else (RecOk frag, r1\<lparr>last_good_end := e\<rparr>)
          else if t = 2 then if f then (RecCorrupt (last_good_end r1), r1) else read_loop True frag r1
          else if t = 3 then if \<not> f then (RecCorrupt (last_good_end r1), r1) else read_loop True (s @ frag) r1
          else if t = 4 then if \<not> f then (RecCorrupt (last_good_end r1), r1)
            else (RecOk (s @ frag), r1\<lparr>last_good_end := e\<rparr>)
          else (RecCorrupt (last_good_end r1), r1))"
      by (simp add: read_loop.simps [of f s r] ph PhysOk)
    consider "t = 1 \<and> \<not> f" | "t = 2 \<and> \<not> f" | "t = 3 \<and> f" | "t = 4 \<and> f"
      | "f \<and> t \<noteq> 3 \<and> t \<noteq> 4 \<or> \<not> f \<and> t \<noteq> 1 \<and> t \<noteq> 2"
      by blast
    then show ?thesis
    proof cases
      case 1
      with eq "1.prems" r1' less show ?thesis by simp
    next
      case 2
      with eq "1.prems" IH1 less show ?thesis by simp
    next
      case 3
      with eq "1.prems" IH2 less show ?thesis by simp
    next
      case 4
      with eq "1.prems" r1' less show ?thesis by simp
    next
      case 5
      then have "read_loop f s r = (RecCorrupt (last_good_end r1), r1)" unfolding eq by auto
      with "1.prems" show ?thesis by simp
    qed
  next
    case PhysEof
    with "1.prems" ph show ?thesis by (simp add: read_loop.simps [of f s r] split: if_splits)
  next
    case PhysCorrupt
    with "1.prems" ph show ?thesis by (simp add: read_loop.simps [of f s r])
  qed
qed

lemma ReadRecord_left: "ReadRecord r = (RecOk p, r') \<Longrightarrow> reader_left r' < reader_left r"
  unfolding ReadRecord_def by (rule read_loop_left)

text \<open>
  The loop around \<^verbatim>\<open>ReadRecord\<close> in \<^verbatim>\<open>DB::Open\<close> and \<^verbatim>\<open>ParseManifest\<close>: the payloads
  in order and how the log ended.
\<close>

function read_all :: "Reader \<Rightarrow> bytes list \<times> rres \<times> Reader" where
  "read_all r =
     (case ReadRecord r of
        (RecOk p, r1) \<Rightarrow> (case read_all r1 of (ps, e, r2) \<Rightarrow> (p # ps, e, r2))
      | (e, r1) \<Rightarrow> ([], e, r1))"
  by pat_completeness auto
termination
proof (relation "measure reader_left", goal_cases)
  case (2 r x y p)
  then have "ReadRecord r = (RecOk p, y)" by simp
  then show ?case by (simp add: ReadRecord_left)
qed simp

declare read_all.simps [simp del]

end
