(* ===== verification/WalCorrect.thy ===== *)
theory WalCorrect
  imports Wal
begin

text \<open>
  Correctness of the write-ahead log. \<open>phys_at\<close>, \<open>rec_at\<close> and \<open>log_at\<close> parse the
  file at absolute offsets, with no buffer and no kernel; the reader of
  \<^theory_text>\<open>Wal\<close> refines them for every way the kernel may split its reads. On them: the
  round trip of any sequence of records, what a torn tail is read as, and the
  writer's contract.
\<close>

subsection \<open>Parsing at absolute offsets\<close>

definition block_end :: "bytes \<Rightarrow> nat \<Rightarrow> nat" where
  "block_end f P = min (length f) ((P div kBlockSize + 1) * kBlockSize)"

lemma block_pos: "0 < kBlockSize" by (simp add: kBlockSize_def)
lemma header_pos: "0 < kHeaderSize" by (simp add: kHeaderSize_def)

lemma less_next_block: "P < (P div kBlockSize + 1) * kBlockSize"
  using dividend_less_times_div [OF block_pos, of P] by (simp add: algebra_simps)

lemma block_end_gt: "P < length f \<Longrightarrow> P < block_end f P"
  using less_next_block by (simp add: block_end_def)

function phys_at :: "bytes \<Rightarrow> nat \<Rightarrow> phys" where
  "phys_at f P =
     (if block_end f P < P + kHeaderSize then
        if P < block_end f P \<and> block_end f P < length f then phys_at f (block_end f P) else PhysEof
      else
        let len = unat (GetFixed32 (drop P f));
            crc = GetFixed32 (drop (P + 4) f);
            t = f ! (P + 8)
        in if t = kZeroType \<and> len = 0 \<and> crc = 0 then phys_at f (block_end f P)
           else if kBlockSize - kHeaderSize < len \<or> block_end f P < P + kHeaderSize + len
           then PhysCorrupt
           else if Crc32 (sub f (P + kHeaderSize) len) (Crc32 [t] 0) \<noteq> crc then PhysCorrupt
           else PhysOk (sub f (P + kHeaderSize) len) t (P + kHeaderSize + len))"
  by pat_completeness auto
termination
proof (relation "measure (\<lambda>(f, P). length f - P)", goal_cases)
  case (2 f P)
  then show ?case by auto
next
  case (3 f P)
  then have "P < block_end f P" by (simp add: kHeaderSize_def)
  moreover have "block_end f P \<le> length f" by (simp add: block_end_def)
  ultimately show ?case by auto
qed simp

declare phys_at.simps [simp del]

lemma phys_at_bounds: "phys_at f P = PhysOk frag t e \<Longrightarrow> P + kHeaderSize \<le> e \<and> e \<le> length f"
proof (induction f P rule: phys_at.induct)
  case (1 f P)
  have le: "block_end f P \<le> length f" by (simp add: block_end_def)
  show ?case
  proof (cases "block_end f P < P + kHeaderSize")
    case True
    with "1.prems" have c: "P < block_end f P \<and> block_end f P < length f"
      and "phys_at f (block_end f P) = PhysOk frag t e"
      by (simp_all add: phys_at.simps [of f P] split: if_splits)
    from "1.IH"(1) [OF True this] c show ?thesis by simp
  next
    case False
    let ?len = "unat (GetFixed32 (drop P f))" and ?crc = "GetFixed32 (drop (P + 4) f)" and ?t = "f ! (P + 8)"
    show ?thesis
    proof (cases "?t = kZeroType \<and> ?len = 0 \<and> ?crc = 0")
      case True
      with False "1.prems" have "phys_at f (block_end f P) = PhysOk frag t e"
        by (simp add: phys_at.simps [of f P])
      from "1.IH"(2) [OF False refl refl refl True this] False show ?thesis by simp
    next
      case nz: False
      have eq: "phys_at f P = (if kBlockSize - kHeaderSize < ?len \<or> block_end f P < P + kHeaderSize + ?len
           then PhysCorrupt
           else if Crc32 (sub f (P + kHeaderSize) ?len) (Crc32 [?t] 0) \<noteq> ?crc then PhysCorrupt
           else PhysOk (sub f (P + kHeaderSize) ?len) ?t (P + kHeaderSize + ?len))"
        unfolding phys_at.simps [of f P] Let_def using False nz by (simp only: if_False)
      from "1.prems" le show ?thesis unfolding eq by (simp split: if_splits)
    qed
  qed
qed

subsection \<open>The buffered reader refines it\<close>

definition no_read_error :: "rd list \<Rightarrow> bool" where
  "no_read_error rs \<longleftrightarrow> RErr \<notin> set rs"

lemma take_split_at: "k \<le> n \<Longrightarrow> take k xs @ take (n - min (length xs) k) (drop k xs) = take n xs"
  by (cases "k \<le> length xs") (simp_all add: min_def flip: take_add)

lemma drop_split_at: "k \<le> n \<Longrightarrow> drop (n - min (length xs) k) (drop k xs) = drop n xs"
  by (cases "k \<le> length xs") (simp_all add: min_def)

lemma fill_block_spec:
  assumes "no_read_error rs" and "length block \<le> kBlockSize"
  shows "\<exists>rs' e. fill_block rs rest block =
           (Some (block @ take (kBlockSize - length block) rest, e), drop (kBlockSize - length block) rest, rs')
         \<and> no_read_error rs' \<and> (e \<longrightarrow> drop (kBlockSize - length block) rest = [])"
  using assms
proof (induction rs arbitrary: rest block)
  case Nil
  show ?case
  proof (cases "kBlockSize \<le> length block")
    case True
    with Nil show ?thesis by (auto simp: fill_block.simps)
  next
    case False
    then show ?thesis by (auto simp: fill_block.simps Let_def no_read_error_def)
  qed
next
  case (Cons a rs)
  let ?n = "kBlockSize - length block"
  have rs: "no_read_error rs" using Cons.prems by (simp add: no_read_error_def)
  show ?case
  proof (cases "kBlockSize \<le> length block")
    case True
    with Cons.prems show ?thesis by (auto simp: fill_block.simps)
  next
    case False
    show ?thesis
    proof (cases a)
      case (Got k)
      show ?thesis
      proof (cases "rest = []")
        case True
        with Got False rs show ?thesis by (auto simp: fill_block.simps [of "_ # _"])
      next
        case rest: False
        let ?k = "max 1 (min k ?n)"
        have k: "?k \<le> ?n" using False by simp
        have step: "fill_block (a # rs) rest block = fill_block rs (drop ?k rest) (block @ take ?k rest)"
          using Got False rest by (simp add: fill_block.simps [of "_ # _"] Let_def)
        have len: "length (block @ take ?k rest) \<le> kBlockSize" using k False by simp
        have m: "kBlockSize - length (block @ take ?k rest) = ?n - min (length rest) ?k" by simp
        from Cons.IH [OF rs len, of "drop ?k rest"] show ?thesis
          unfolding step append_assoc m take_split_at [OF k] drop_split_at [OF k] .
      qed
    next
      case REintr
      with False have "fill_block (a # rs) rest block = fill_block rs rest block"
        by (simp add: fill_block.simps [of "_ # _"])
      with Cons.IH [OF rs Cons.prems(2), of rest] show ?thesis by simp
    next
      case RErr
      with Cons.prems show ?thesis by (simp add: no_read_error_def)
    qed
  qed
qed

text \<open>
  The reader stands at absolute offset \<open>P\<close> of file \<open>f\<close>: its buffer is a block of
  the file, or its last part.
\<close>

definition reader_at :: "bytes \<Rightarrow> nat \<Rightarrow> Reader \<Rightarrow> bool" where
  "reader_at f P r \<longleftrightarrow>
     (\<exists>s. kBlockSize dvd s \<and> s + length (buffer r) = bytes_read r \<and> P = s + rpos r
        \<and> sub f s (length (buffer r)) = buffer r \<and> length (buffer r) \<le> kBlockSize)
     \<and> rpos r \<le> length (buffer r) \<and> bytes_read r \<le> length f
     \<and> (bytes_read r = length f \<or> kBlockSize dvd bytes_read r)
     \<and> unread r = drop (bytes_read r) f \<and> (eof r \<longrightarrow> bytes_read r = length f)
     \<and> no_read_error (answers r)"

lemma reader_at_open: "no_read_error rs \<Longrightarrow> reader_at f 0 (open_reader rs f)"
  by (simp add: reader_at_def open_reader_def sub_def)

lemma phys_at_length: "length f \<le> P \<Longrightarrow> phys_at f P = PhysEof"
proof -
  assume "length f \<le> P"
  moreover have "block_end f P \<le> length f" by (simp add: block_end_def)
  ultimately have "block_end f P < P + kHeaderSize" "\<not> P < block_end f P"
    using header_pos by linarith+
  then show ?thesis by (simp add: phys_at.simps [of f P])
qed

lemma div_block: "kBlockSize dvd s \<Longrightarrow> i < kBlockSize \<Longrightarrow> (s + i) div kBlockSize * kBlockSize = s"
  by (auto simp: div_add)

lemma block_end_inside: "kBlockSize dvd s \<Longrightarrow> i < kBlockSize \<Longrightarrow> block_end f (s + i) = min (length f) (s + kBlockSize)"
  by (simp add: block_end_def add_mult_distrib div_block)

lemma reader_at_block_end:
  assumes "reader_at f P r" and "rpos r < length (buffer r)"
  shows "block_end f P = bytes_read r"
proof -
  from assms obtain s where s: "kBlockSize dvd s" "s + length (buffer r) = bytes_read r" "P = s + rpos r"
    "length (buffer r) \<le> kBlockSize" and le: "bytes_read r \<le> length f"
    and al: "bytes_read r = length f \<or> kBlockSize dvd bytes_read r"
    unfolding reader_at_def by blast
  have "block_end f P = min (length f) (s + kBlockSize)"
    using s assms(2) by (simp add: block_end_inside)
  moreover have "bytes_read r = length f \<or> length (buffer r) = kBlockSize"
  proof (cases "kBlockSize dvd bytes_read r")
    case True
    then have "kBlockSize dvd length (buffer r)" using s by (metis dvd_add_right_iff)
    with assms(2) s(4) show ?thesis by (auto dest!: dvd_imp_le)
  qed (use al in simp)
  ultimately show ?thesis using s le by auto
qed

lemma phys_at_exhausted:
  assumes r: "reader_at f P r" and short: "length (buffer r) < rpos r + kHeaderSize"
  shows "phys_at f P = phys_at f (bytes_read r)"
proof (cases "rpos r < length (buffer r)")
  case False
  with r have "P = bytes_read r" unfolding reader_at_def by auto
  then show ?thesis by simp
next
  case True
  have be: "block_end f P = bytes_read r" by (rule reader_at_block_end [OF r True])
  have P: "P < bytes_read r" "bytes_read r < P + kHeaderSize" "bytes_read r \<le> length f"
    using r True short unfolding reader_at_def by auto
  show ?thesis
  proof (cases "bytes_read r < length f")
    case True
    with P be show ?thesis by (simp add: phys_at.simps [of f P])
  next
    case False
    with P be show ?thesis by (simp add: phys_at.simps [of f P] phys_at_length)
  qed
qed

lemma reader_at_refill:
  assumes r: "reader_at f P r" and e: "\<not> eof r"
  obtains block e' rs' where
    "fill_block (answers r) (unread r) [] = (Some (block, e'), drop (bytes_read r + length block) f, rs')"
    "block = [] \<longleftrightarrow> bytes_read r = length f"
    "block \<noteq> [] \<Longrightarrow> reader_at f (bytes_read r)
       (r\<lparr>rpos := length (buffer r)\<rparr>\<lparr>unread := drop (bytes_read r + length block) f, answers := rs', eof := e'\<rparr>
          \<lparr>bytes_read := bytes_read r + length block, buffer := block, rpos := 0\<rparr>)"
proof -
  let ?N = "bytes_read r"
  let ?block = "take kBlockSize (drop ?N f)"
  from r have un: "unread r = drop ?N f" and le: "?N \<le> length f" and nre: "no_read_error (answers r)"
    and al: "?N = length f \<or> kBlockSize dvd ?N"
    unfolding reader_at_def by auto
  have dr: "drop kBlockSize (drop ?N f) = drop (?N + length ?block) f"
    using le by (cases "kBlockSize \<le> length f - ?N") (simp_all add: add.commute)
  from fill_block_spec [OF nre, of "[]" "unread r"] obtain rs' e' where
    fb: "fill_block (answers r) (unread r) [] = (Some (?block, e'), drop (?N + length ?block) f, rs')"
    and rs': "no_read_error rs'" and e': "e' \<Longrightarrow> drop (?N + length ?block) f = []"
    unfolding un using dr by (auto simp del: drop_drop)
  show ?thesis
  proof (rule that [OF fb])
    show "?block = [] \<longleftrightarrow> ?N = length f" using le by (auto simp: kBlockSize_def)
  next
    assume ne: "?block \<noteq> []"
    then have dvd: "kBlockSize dvd ?N" using al by auto
    have "?N + length ?block = length f \<or> kBlockSize dvd ?N + length ?block"
      using dvd le by (cases "kBlockSize \<le> length f - ?N") auto
    moreover have "sub f ?N (length ?block) = ?block"
      by (cases "kBlockSize \<le> length f - ?N") (simp_all add: sub_def)
    ultimately show "reader_at f ?N
       (r\<lparr>rpos := length (buffer r)\<rparr>\<lparr>unread := drop (?N + length ?block) f, answers := rs', eof := e'\<rparr>
          \<lparr>bytes_read := ?N + length ?block, buffer := ?block, rpos := 0\<rparr>)"
      using dvd rs' e' le unfolding reader_at_def by (auto intro!: exI [of _ ?N])
  qed
qed

lemma reader_at_move:
  assumes "reader_at f P r" and "q \<le> length (buffer r)" and "P' + rpos r = P + q"
  shows "reader_at f P' (r\<lparr>rpos := q\<rparr>)"
  using assms unfolding reader_at_def by force

lemma ReadPhysicalRecord_refines:
  "reader_at f P r \<Longrightarrow>
     \<exists>r'. ReadPhysicalRecord r = (phys_at f P, r') \<and> last_good_end r' = last_good_end r
        \<and> (\<forall>frag t e. phys_at f P = PhysOk frag t e \<longrightarrow> reader_at f e r')"
proof (induction r arbitrary: P rule: ReadPhysicalRecord.induct)
  case (1 r)
  note eq = ReadPhysicalRecord.simps [of r]
  show ?case
  proof (cases "length (buffer r) < rpos r + kHeaderSize")
    case short: True
    have skip: "phys_at f P = phys_at f (bytes_read r)" by (rule phys_at_exhausted [OF "1.prems" short])
    show ?thesis
    proof (cases "eof r")
      case True
      with "1.prems" have "phys_at f (bytes_read r) = PhysEof"
        by (simp add: reader_at_def phys_at_length)
      with skip True short show ?thesis unfolding eq by simp
    next
      case False
      from reader_at_refill [OF "1.prems" False] obtain block e' rs' where
        fb: "fill_block (answers r) (unread r) [] = (Some (block, e'), drop (bytes_read r + length block) f, rs')"
        and nil: "block = [] \<longleftrightarrow> bytes_read r = length f"
        and at: "block \<noteq> [] \<Longrightarrow> reader_at f (bytes_read r)
           (r\<lparr>rpos := length (buffer r)\<rparr>\<lparr>unread := drop (bytes_read r + length block) f, answers := rs', eof := e'\<rparr>
              \<lparr>bytes_read := bytes_read r + length block, buffer := block, rpos := 0\<rparr>)"
        by blast
      show ?thesis
      proof (cases "block = []")
        case True
        with nil have "phys_at f (bytes_read r) = PhysEof" by (simp add: phys_at_length)
        with skip True short False fb show ?thesis unfolding eq by (simp add: Let_def)
      next
        case ne: False
        from "1.IH"(1) [OF short False refl fb [symmetric] refl refl refl refl ne at [OF ne]]
        show ?thesis using short False fb ne unfolding eq skip by (simp add: Let_def)
      qed
    qed
  next
    case False
    then have lt: "rpos r < length (buffer r)" using header_pos by linarith
    obtain s where s: "kBlockSize dvd s" "s + length (buffer r) = bytes_read r" "P = s + rpos r"
      and buf: "sub f s (length (buffer r)) = buffer r" and le: "bytes_read r \<le> length f"
      using "1.prems" unfolding reader_at_def by blast
    have be: "block_end f P = bytes_read r" by (rule reader_at_block_end [OF "1.prems" lt])
    let ?hd = "drop (rpos r) (buffer r)"
    have hd: "?hd = sub f P (length (buffer r) - rpos r)"
      using s buf by (metis drop_sub)
    have len: "GetFixed32 ?hd = GetFixed32 (drop P f)"
      unfolding hd sub_def using False s(2,3) le by (intro GetFixed32_take) (simp_all add: kHeaderSize_def)
    have crc: "GetFixed32 (drop 4 ?hd) = GetFixed32 (drop (P + 4) f)"
      unfolding hd drop_sub unfolding sub_def using False s(2,3) le
      by (intro GetFixed32_take) (simp_all add: kHeaderSize_def)
    have t: "?hd ! 8 = f ! (P + 8)"
      unfolding hd sub_def using False s le by (simp add: kHeaderSize_def)
    note spec = phys_at.simps [of f P] and fields = len crc t
    show ?thesis
    proof (cases "?hd ! 8 = kZeroType \<and> GetFixed32 ?hd = 0 \<and> GetFixed32 (drop 4 ?hd) = 0")
      case True
      have at: "reader_at f (bytes_read r) (r\<lparr>rpos := length (buffer r)\<rparr>)"
        using s by (intro reader_at_move [OF "1.prems"]) simp_all
      have "phys_at f P = phys_at f (bytes_read r)"
        unfolding spec Let_def using True False s unfolding be fields by simp
      with "1.IH"(2) [OF False refl refl refl refl refl True at] True False show ?thesis
        unfolding eq by (simp add: Let_def)
    next
      case nz: False
      let ?len = "unat (GetFixed32 ?hd)" and ?p = "rpos r + kHeaderSize"
      let ?bad = "kBlockSize - kHeaderSize < ?len \<or> length (buffer r) < ?p + ?len"
      have bad: "?bad \<longleftrightarrow> kBlockSize - kHeaderSize < ?len \<or> bytes_read r < P + kHeaderSize + ?len"
        using s by auto
      have zero: "\<not> (f ! (P + 8) = kZeroType \<and> unat (GetFixed32 (drop P f)) = 0 \<and> GetFixed32 (drop (P + 4) f) = 0)"
        using nz unfolding fields by (simp add: unat_eq_zero)
      have short: "\<not> bytes_read r < P + kHeaderSize" using False s by simp
      have spec': "phys_at f P = (if ?bad then PhysCorrupt
          else if Crc32 (sub f (P + kHeaderSize) ?len) (Crc32 [?hd ! 8] 0) \<noteq> GetFixed32 (drop 4 ?hd) then PhysCorrupt
          else PhysOk (sub f (P + kHeaderSize) ?len) (?hd ! 8) (P + kHeaderSize + ?len))"
        unfolding spec Let_def be bad unfolding fields using zero short by (simp only: if_False)
      have eq': "ReadPhysicalRecord r = (if ?bad then (PhysCorrupt, r\<lparr>rpos := ?p\<rparr>)
          else if Crc32 (sub (buffer r) ?p ?len) (Crc32 [?hd ! 8] 0) \<noteq> GetFixed32 (drop 4 ?hd)
          then (PhysCorrupt, r\<lparr>rpos := ?p + ?len\<rparr>)
          else (PhysOk (sub (buffer r) ?p ?len) (?hd ! 8) (bytes_read r - length (buffer r) + (?p + ?len)),
                r\<lparr>rpos := ?p + ?len\<rparr>))"
        unfolding eq Let_def using nz False by (simp only: if_False) simp
      show ?thesis
      proof (cases ?bad)
        case True
        then show ?thesis unfolding eq' spec' by simp
      next
        case ok: False
        have fr: "sub (buffer r) ?p ?len = sub f (P + kHeaderSize) ?len"
        proof -
          have "?len \<le> length (buffer r) - ?p" using ok by linarith
          then show ?thesis
            by (subst buf [symmetric]) (simp add: s sub_def drop_take ac_simps min_absorb1)
        qed
        have en: "bytes_read r - length (buffer r) + (?p + ?len) = P + kHeaderSize + ?len"
          using s by simp
        have "reader_at f (P + kHeaderSize + ?len) (r\<lparr>rpos := ?p + ?len\<rparr>)"
          using s ok by (intro reader_at_move [OF "1.prems"]) simp_all
        then show ?thesis unfolding eq' spec' fr en using ok by simp
      qed
    qed
  qed
qed

text \<open>
  One record from offset \<open>P\<close>: \<open>start\<close> is the end of the last good record; the
  second result is the offset after the record.
\<close>

function rec_at :: "bytes \<Rightarrow> nat \<Rightarrow> bool \<Rightarrow> bytes \<Rightarrow> nat \<Rightarrow> rres \<times> nat" where
  "rec_at f start infrag s P =
     (case phys_at f P of
        PhysEof \<Rightarrow> (if infrag then RecCorrupt start else RecEof, P)
      | PhysCorrupt \<Rightarrow> (RecCorrupt start, P)
      | PhysOk frag t e \<Rightarrow>
          if t = kFullType \<and> \<not> infrag then (RecOk frag, e)
          else if t = kFirstType \<and> \<not> infrag then rec_at f start True frag e
          else if t = kMiddleType \<and> infrag then rec_at f start True (s @ frag) e
          else if t = kLastType \<and> infrag then (RecOk (s @ frag), e)
          else (RecCorrupt start, P))"
  by pat_completeness auto
termination
  by (relation "measure (\<lambda>(f, start, infrag, s, P). length f - P)")
     (simp_all add: phys_at_bounds diff_less_mono2 less_le_trans header_pos, (drule phys_at_bounds, use header_pos in linarith)+)

declare rec_at.simps [simp del]

lemma rec_at_steps:
  "phys_at f P = PhysEof \<Longrightarrow> rec_at f start infrag s P = (if infrag then RecCorrupt start else RecEof, P)"
  "phys_at f P = PhysCorrupt \<Longrightarrow> rec_at f start infrag s P = (RecCorrupt start, P)"
  "phys_at f P = PhysOk frag 1 e \<Longrightarrow> rec_at f start False s P = (RecOk frag, e)"
  "phys_at f P = PhysOk frag 2 e \<Longrightarrow> rec_at f start False s P = rec_at f start True frag e"
  "phys_at f P = PhysOk frag 3 e \<Longrightarrow> rec_at f start True s P = rec_at f start True (s @ frag) e"
  "phys_at f P = PhysOk frag 4 e \<Longrightarrow> rec_at f start True s P = (RecOk (s @ frag), e)"
  by (subst rec_at.simps; simp)+

lemma read_loop_steps:
  "ReadPhysicalRecord r = (PhysEof, r1) \<Longrightarrow>
     read_loop infrag s r = (if infrag then RecCorrupt (last_good_end r1) else RecEof, r1)"
  "ReadPhysicalRecord r = (PhysCorrupt, r1) \<Longrightarrow> read_loop infrag s r = (RecCorrupt (last_good_end r1), r1)"
  "ReadPhysicalRecord r = (PhysOk frag 1 e, r1) \<Longrightarrow> read_loop False s r = (RecOk frag, r1\<lparr>last_good_end := e\<rparr>)"
  "ReadPhysicalRecord r = (PhysOk frag 2 e, r1) \<Longrightarrow> read_loop False s r = read_loop True frag r1"
  "ReadPhysicalRecord r = (PhysOk frag 3 e, r1) \<Longrightarrow> read_loop True s r = read_loop True (s @ frag) r1"
  "ReadPhysicalRecord r = (PhysOk frag 4 e, r1) \<Longrightarrow> read_loop True s r = (RecOk (s @ frag), r1\<lparr>last_good_end := e\<rparr>)"
  by (subst read_loop.simps; simp)+

lemma fragment_cases:
  fixes t :: u8
  obtains "t = 1" "\<not> infrag" | "t = 2" "\<not> infrag" | "t = 3" "infrag" | "t = 4" "infrag"
    | "\<not> (t = 1 \<and> \<not> infrag)" "\<not> (t = 2 \<and> \<not> infrag)" "\<not> (t = 3 \<and> infrag)" "\<not> (t = 4 \<and> infrag)"
  by blast

lemma rec_at_bad:
  "phys_at f P = PhysOk frag t e \<Longrightarrow> \<not> (t = 1 \<and> \<not> infrag) \<Longrightarrow> \<not> (t = 2 \<and> \<not> infrag) \<Longrightarrow>
   \<not> (t = 3 \<and> infrag) \<Longrightarrow> \<not> (t = 4 \<and> infrag) \<Longrightarrow> rec_at f start infrag s P = (RecCorrupt start, P)"
  by (subst rec_at.simps) auto

lemma read_loop_bad:
  "ReadPhysicalRecord r = (PhysOk frag t e, r1) \<Longrightarrow> \<not> (t = 1 \<and> \<not> infrag) \<Longrightarrow> \<not> (t = 2 \<and> \<not> infrag) \<Longrightarrow>
   \<not> (t = 3 \<and> infrag) \<Longrightarrow> \<not> (t = 4 \<and> infrag) \<Longrightarrow> read_loop infrag s r = (RecCorrupt (last_good_end r1), r1)"
  by (subst read_loop.simps) auto

lemma rec_at_bounds: "rec_at f start infrag s P = (RecOk p, e) \<Longrightarrow> P < e \<and> e \<le> length f"
proof (induction f start infrag s P rule: rec_at.induct)
  case (1 f start infrag s P)
  show ?case
  proof (cases "phys_at f P")
    case (PhysOk frag t e')
    have b: "P < e'" "e' \<le> length f" using phys_at_bounds [OF PhysOk] header_pos by linarith+
    show ?thesis
    proof (cases t infrag rule: fragment_cases)
      case 2
      with "1.prems" PhysOk have "rec_at f start True frag e' = (RecOk p, e)" by (simp add: rec_at_steps)
      with "1.IH"(1) [OF PhysOk] 2 b show ?thesis by auto
    next
      case 3
      with "1.prems" PhysOk have "rec_at f start True (s @ frag) e' = (RecOk p, e)" by (simp add: rec_at_steps)
      with "1.IH"(2) [OF PhysOk] 3 b show ?thesis by auto
    next
      case 5
      from "1.prems" rec_at_bad [OF PhysOk 5] show ?thesis by simp
    qed (use "1.prems" PhysOk b in \<open>simp_all add: rec_at_steps\<close>)
  qed (use "1.prems" in \<open>simp_all add: rec_at_steps split: if_splits\<close>)
qed

lemma read_loop_refines:
  "reader_at f P r \<Longrightarrow> last_good_end r = start \<Longrightarrow>
     \<exists>r'. read_loop infrag s r = (fst (rec_at f start infrag s P), r')
        \<and> (\<forall>p e. rec_at f start infrag s P = (RecOk p, e) \<longrightarrow> reader_at f e r' \<and> last_good_end r' = e)"
proof (induction f start infrag s P arbitrary: r rule: rec_at.induct)
  case (1 f start infrag s P)
  from ReadPhysicalRecord_refines [OF "1.prems"(1)] "1.prems"(2) obtain r1 where
    ph: "ReadPhysicalRecord r = (phys_at f P, r1)" and lg: "last_good_end r1 = start"
    and at: "\<And>frag t e. phys_at f P = PhysOk frag t e \<Longrightarrow> reader_at f e r1" by blast
  show ?case
  proof (cases "phys_at f P")
    case (PhysOk frag t e)
    have at': "reader_at f e r1" by (rule at [OF PhysOk])
    have upd: "reader_at f e (r1\<lparr>last_good_end := e\<rparr>)" using at' by (simp add: reader_at_def)
    note ph' = ph [unfolded PhysOk]
    show ?thesis
    proof (cases t infrag rule: fragment_cases)
      case 2
      with "1.IH"(1) [OF PhysOk _ _ at' lg] PhysOk ph' show ?thesis
        by (simp add: rec_at_steps read_loop_steps)
    next
      case 3
      with "1.IH"(2) [OF PhysOk _ _ _ at' lg] PhysOk ph' show ?thesis
        by (simp add: rec_at_steps read_loop_steps)
    next
      case 5
      with rec_at_bad [OF PhysOk 5] read_loop_bad [OF ph' 5] lg show ?thesis by simp
    qed (use PhysOk ph' upd in \<open>simp_all add: rec_at_steps read_loop_steps\<close>)
  qed (use ph lg in \<open>simp_all add: rec_at_steps read_loop_steps\<close>)
qed

text \<open>The whole log from a record boundary.\<close>

function log_at :: "bytes \<Rightarrow> nat \<Rightarrow> bytes list \<times> rres" where
  "log_at f P =
     (case rec_at f P False [] P of
        (RecOk p, e) \<Rightarrow> (case log_at f e of (ps, x) \<Rightarrow> (p # ps, x))
      | (x, _) \<Rightarrow> ([], x))"
  by pat_completeness auto
termination
proof (relation "measure (\<lambda>(f, P). length f - P)", goal_cases)
  case (2 f P x e p)
  then have "rec_at f P False [] P = (RecOk p, e)" by simp
  from rec_at_bounds [OF this] show ?case by auto
qed simp

declare log_at.simps [simp del]

lemma read_all_refines:
  "reader_at f P r \<Longrightarrow> last_good_end r = P \<Longrightarrow>
     \<exists>r'. read_all r = (fst (log_at f P), snd (log_at f P), r')"
proof (induction f P arbitrary: r rule: log_at.induct)
  case (1 f P)
  obtain r1 where rl: "ReadRecord r = (fst (rec_at f P False [] P), r1)"
    and at: "\<And>p e. rec_at f P False [] P = (RecOk p, e) \<Longrightarrow> reader_at f e r1 \<and> last_good_end r1 = e"
    using read_loop_refines [OF "1.prems", of False "[]"] unfolding ReadRecord_def by blast
  obtain x e where re: "rec_at f P False [] P = (x, e)" by (metis surj_pair)
  show ?case
  proof (cases x)
    case (RecOk p)
    with "1.IH" [of x e p r1] at re obtain r' where
      "read_all r1 = (fst (log_at f e), snd (log_at f e), r')" by auto
    with rl re RecOk show ?thesis
      by (simp add: read_all.simps [of r] log_at.simps [of f P] split: prod.splits)
  qed (use rl re in \<open>simp_all add: read_all.simps [of r] log_at.simps [of f P]\<close>)
qed

text \<open>
  What the callers of the reader see of a file, whatever sizes the kernel's reads
  have.
\<close>

lemma read_all_open:
  assumes "no_read_error rs"
  obtains r' where "read_all (open_reader rs f) = (fst (log_at f 0), snd (log_at f 0), r')"
  using read_all_refines [OF reader_at_open [OF assms, of f]] by (auto simp: open_reader_def)

subsection \<open>Parsing what the writer wrote\<close>

lemma block_end_alt: "block_end f P = min (length f) (P + (kBlockSize - P mod kBlockSize))"
proof -
  have "P div kBlockSize * kBlockSize + P mod kBlockSize = P" by (rule div_mult_mod_eq)
  moreover have "P mod kBlockSize < kBlockSize" using block_pos by (rule mod_less_divisor)
  ultimately have "(P div kBlockSize + 1) * kBlockSize = P + (kBlockSize - P mod kBlockSize)"
    unfolding add_mult_distrib by linarith
  then show ?thesis by (simp only: block_end_def)
qed

lemma phys_at_fragment:
  assumes f: "f = A @ frag_header t frag @ frag @ Z" and t: "t \<noteq> 0"
    and fits: "length A mod kBlockSize + kHeaderSize + length frag \<le> kBlockSize"
  shows "phys_at f (length A) = PhysOk frag t (length A + kHeaderSize + length frag)"
proof -
  let ?P = "length A"
  have be: "?P + kHeaderSize + length frag \<le> block_end f ?P"
    using fits f by (simp add: block_end_alt)
  have small: "length frag < 2 ^ 32" "length frag \<le> kBlockSize - kHeaderSize"
    using fits by (simp_all add: const_defs)
  have d: "drop ?P f = PutFixed32 (of_nat (length frag)) @ PutFixed32 (Crc32 frag (Crc32 [t] 0)) @ t # frag @ Z"
    by (simp add: f frag_header_def)
  have len: "unat (GetFixed32 (drop ?P f)) = length frag"
    unfolding d using small by (simp add: unat_of_nat_u32)
  have crc: "GetFixed32 (drop (?P + 4) f) = Crc32 frag (Crc32 [t] 0)"
    unfolding add.commute [of ?P] drop_drop [symmetric] d by simp
  have ty: "f ! (?P + 8) = t"
    by (simp add: f frag_header_def nth_append)
  have fr: "sub f (?P + kHeaderSize) (length frag) = frag"
    by (simp add: f sub_def)
  show ?thesis
    unfolding phys_at.simps [of f ?P] Let_def len crc ty fr using be small t by simp
qed

text \<open>A fragment of which only the first \<open>k\<close> bytes reached the file.\<close>

lemma phys_at_torn:
  assumes f: "f = A @ take k (frag_header t frag @ frag)" and t: "t \<noteq> 0"
    and k: "k < kHeaderSize + length frag"
    and fits: "length A mod kBlockSize + kHeaderSize + length frag \<le> kBlockSize"
  shows "phys_at f (length A) = (if k < kHeaderSize then PhysEof else PhysCorrupt)"
proof -
  let ?P = "length A"
  have len_f: "length f = ?P + k" using f k by simp
  have be: "block_end f ?P = ?P + k"
    using fits k by (simp add: block_end_alt len_f)
  show ?thesis
  proof (cases "k < kHeaderSize")
    case True
    then show ?thesis using be len_f by (simp add: phys_at.simps [of f ?P])
  next
    case False
    obtain Z where Z: "f = A @ frag_header t frag @ Z"
      using f False by (auto simp: not_less)
    have small: "length frag < 2 ^ 32" using fits by (simp add: const_defs)
    have len: "unat (GetFixed32 (drop ?P f)) = length frag"
      using small by (simp add: Z frag_header_def unat_of_nat_u32)
    have ty: "f ! (?P + 8) = t"
      by (simp add: Z frag_header_def nth_append)
    show ?thesis
      unfolding phys_at.simps [of f ?P] Let_def len ty be using False t k by simp
  qed
qed

text \<open>The zeroes at the end of a block are skipped.\<close>

lemma phys_at_pad:
  assumes f: "length A + enc_pad off \<le> length f" and off: "off \<le> kBlockSize"
    and al: "length A mod kBlockSize = off mod kBlockSize"
  shows "phys_at f (length A) = phys_at f (length A + enc_pad off)"
proof (cases "enc_pad off = 0")
  case False
  let ?P = "length A"
  have o: "off < kBlockSize" "kBlockSize - off < kHeaderSize" "enc_pad off = kBlockSize - off"
    using False off by (auto simp: enc_pad_def Let_def split: if_splits)
  then have be: "block_end f ?P = ?P + enc_pad off" using f al by (simp add: block_end_alt)
  have "block_end f ?P < ?P + kHeaderSize" "?P < block_end f ?P" "block_end f ?P \<le> length f"
    using be o f by linarith+
  then have "phys_at f ?P = phys_at f (block_end f ?P)"
    by (cases "block_end f ?P < length f") (simp_all add: phys_at.simps [of f ?P] phys_at_length)
  then show ?thesis by (simp only: be)
qed simp

text \<open>
  One round of \<^verbatim>\<open>EncodeRecord\<close>: where its fragment starts, that it fits its
  block, and that the round after it starts where this one ended.
\<close>

lemma enc_off_mod:
  assumes "off \<le> kBlockSize" and "a mod kBlockSize = off mod kBlockSize"
  shows "(a + enc_pad off) mod kBlockSize = enc_off off"
    and "enc_off off + kHeaderSize + enc_frag n (enc_off off) \<le> kBlockSize"
proof -
  have "(a + enc_pad off) mod kBlockSize = (off + enc_pad off) mod kBlockSize"
    using assms(2) by (metis mod_add_left_eq)
  also have "\<dots> = enc_off off"
    using assms(1) by (cases "off = kBlockSize") (auto simp: enc_pad_def enc_off_def Let_def header_pos)
  finally show "(a + enc_pad off) mod kBlockSize = enc_off off" .
  show "enc_off off + kHeaderSize + enc_frag n (enc_off off) \<le> kBlockSize"
    using assms(1) by (auto simp: enc_off_def enc_frag_def Let_def const_defs)
qed

lemma encode_loop_step:
  fixes p bo first
  defines "n \<equiv> enc_frag (length p) (enc_off bo)"
  defines "rest \<equiv> if n < length p then encode_loop (drop n p) (enc_off bo + kHeaderSize + n) False else []"
  shows "encode_loop p bo first =
     replicate (enc_pad bo) 0 @ (frag_header (enc_type first n (length p)) (take n p) @ take n p) @ rest"
  by (simp add: encode_loop.simps [of p bo first] Let_def n_def rest_def)

lemma enc_type_nz: "enc_type first n m \<noteq> 0"
  by (simp add: enc_type_def)

lemma rec_at_encode:
  assumes "bo \<le> kBlockSize" and "length A mod kBlockSize = bo mod kBlockSize"
    and "f = A @ encode_loop p bo first @ Z" and "first \<longrightarrow> s = []"
  shows "rec_at f start (\<not> first) s (length A) = (RecOk (s @ p), length A + length (encode_loop p bo first))"
  using assms
proof (induction p bo first arbitrary: A s rule: encode_loop.induct)
  case (1 p bo first)
  let ?off = "enc_off bo"
  let ?n = "enc_frag (length p) ?off"
  let ?t = "enc_type first ?n (length p)"
  let ?pad = "replicate (enc_pad bo) 0"
  let ?next = "?off + kHeaderSize + ?n"
  let ?rest = "if ?n < length p then encode_loop (drop ?n p) ?next False else []"
  note step = encode_loop_step [of p bo first]
  note round = enc_off_mod [OF "1.prems"(1,2)]
  have n: "?n \<le> length p" by (rule enc_frag_le)
  have len: "length (encode_loop p bo first) = enc_pad bo + kHeaderSize + ?n + length ?rest"
    unfolding step using n by simp
  have f: "f = (A @ ?pad) @ frag_header ?t (take ?n p) @ take ?n p @ ?rest @ Z"
    using "1.prems"(3) step by simp
  have "phys_at f (length (A @ ?pad)) = PhysOk (take ?n p) ?t (length (A @ ?pad) + kHeaderSize + length (take ?n p))"
    using round n by (intro phys_at_fragment [OF f] enc_type_nz) simp
  moreover have "phys_at f (length A) = phys_at f (length (A @ ?pad))"
    using phys_at_pad [OF _ "1.prems"(1,2), of f] f by simp
  ultimately have ph: "phys_at f (length A) = PhysOk (take ?n p) ?t (length A + enc_pad bo + kHeaderSize + ?n)"
    using n by simp
  show ?case
  proof (cases "?n < length p")
    case False
    then have "?n = length p" using n by simp
    with ph "1.prems"(4) len show ?thesis
      unfolding len by (cases first) (simp_all add: rec_at_steps enc_type_def)
  next
    case True
    let ?A = "A @ ?pad @ frag_header ?t (take ?n p) @ take ?n p"
    have lenA: "length ?A = length A + enc_pad bo + kHeaderSize + ?n" using n by simp
    have al: "length ?A mod kBlockSize = ?next mod kBlockSize"
      using round(1) unfolding lenA by (metis add.assoc mod_add_left_eq)
    have "f = ?A @ encode_loop (drop ?n p) ?next False @ Z" using f True by simp
    from "1.IH" [OF refl refl refl refl True round(2) al this]
    have IH: "rec_at f start True s' (length ?A) =
       (RecOk (s' @ drop ?n p), length ?A + length (encode_loop (drop ?n p) ?next False))" for s'
      by simp
    show ?thesis
      using ph True "1.prems"(4) IH [of "s @ take ?n p"] unfolding lenA len
      by (cases first) (simp_all add: rec_at_steps enc_type_def)
  qed
qed

lemma take_append3:
  "take k (a @ b @ c) =
     (if k < length a + length b then a @ take (k - length a) b else a @ b @ take (k - length a - length b) c)"
  if "length a \<le> k"
  using that by auto

lemma phys_at_short: "length f < P + kHeaderSize \<Longrightarrow> P mod kBlockSize + (length f - P) < kBlockSize \<Longrightarrow> phys_at f P = PhysEof"
proof -
  assume short: "length f < P + kHeaderSize" and "P mod kBlockSize + (length f - P) < kBlockSize"
  then have "block_end f P = length f" unfolding block_end_alt by linarith
  with short show ?thesis by (simp add: phys_at.simps [of f P])
qed

lemma rec_at_encode_torn:
  assumes "bo \<le> kBlockSize" and "length A mod kBlockSize = bo mod kBlockSize"
    and "k < length (encode_loop p bo first)" and "f = A @ take k (encode_loop p bo first)"
  shows "fst (rec_at f start (\<not> first) s (length A)) =
           (if first \<and> k < enc_pad bo + kHeaderSize then RecEof else RecCorrupt start)"
  using assms
proof (induction p bo first arbitrary: A s k rule: encode_loop.induct)
  case (1 p bo first)
  let ?off = "enc_off bo"
  let ?n = "enc_frag (length p) ?off"
  let ?t = "enc_type first ?n (length p)"
  let ?pad = "replicate (enc_pad bo) 0"
  let ?fr = "frag_header ?t (take ?n p) @ take ?n p"
  let ?next = "?off + kHeaderSize + ?n"
  let ?rest = "if ?n < length p then encode_loop (drop ?n p) ?next False else []"
  note step = encode_loop_step [of p bo first]
  note round = enc_off_mod [OF "1.prems"(1,2)]
  have n: "?n \<le> length p" by (rule enc_frag_le)
  consider "k < enc_pad bo" | "enc_pad bo \<le> k" "k < enc_pad bo + (kHeaderSize + ?n)"
    | "enc_pad bo + (kHeaderSize + ?n) \<le> k" by linarith
  then show ?case
  proof cases
    case 1
    then have "length f = length A + k" using "1.prems"(4) step by simp
    moreover have "k < kBlockSize - bo" "kBlockSize - bo < kHeaderSize" "bo < kBlockSize"
      using 1 by (auto simp: enc_pad_def Let_def split: if_splits)
    ultimately have "phys_at f (length A) = PhysEof" using "1.prems"(2) by (intro phys_at_short) auto
    with 1 show ?thesis by (simp add: rec_at_steps)
  next
    case 2
    have f: "f = (A @ ?pad) @ take (k - enc_pad bo) ?fr"
      using "1.prems"(4) 2 n unfolding step by (subst (asm) take_append3) (simp_all split: if_splits)
    have "phys_at f (length (A @ ?pad)) = (if k - enc_pad bo < kHeaderSize then PhysEof else PhysCorrupt)"
      using 2 n round by (intro phys_at_torn [OF f] enc_type_nz) simp_all
    moreover have "phys_at f (length A) = phys_at f (length (A @ ?pad))"
      using phys_at_pad [OF _ "1.prems"(1,2), of f] f by simp
    ultimately show ?thesis using 2
      by (cases "k - enc_pad bo < kHeaderSize"; cases first) (simp_all add: rec_at_steps)
  next
    case 3
    have more: "?n < length p" using "1.prems"(3) 3 n unfolding step by (simp split: if_splits)
    let ?A = "A @ ?pad @ ?fr" and ?k = "k - enc_pad bo - (kHeaderSize + ?n)"
    have f: "f = ?A @ take ?k (encode_loop (drop ?n p) ?next False)"
      using "1.prems"(4) 3 n more unfolding step by (subst (asm) take_append3) simp_all
    have lenA: "length ?A = length A + enc_pad bo + kHeaderSize + ?n" using n by simp
    have al: "length ?A mod kBlockSize = ?next mod kBlockSize"
      using round(1) unfolding lenA by (metis add.assoc mod_add_left_eq)
    have k: "?k < length (encode_loop (drop ?n p) ?next False)"
      using "1.prems"(3) 3 n more unfolding step by simp
    have IH: "fst (rec_at f start True s' (length ?A)) = RecCorrupt start" for s'
      using "1.IH" [OF refl refl refl refl more round(2) al k f] by simp
    have f': "f = (A @ ?pad) @ frag_header ?t (take ?n p) @ take ?n p @ take ?k (encode_loop (drop ?n p) ?next False)"
      using f by simp
    have "phys_at f (length (A @ ?pad)) = PhysOk (take ?n p) ?t (length (A @ ?pad) + kHeaderSize + length (take ?n p))"
      using round n by (intro phys_at_fragment [OF f'] enc_type_nz) simp
    moreover have "phys_at f (length A) = phys_at f (length (A @ ?pad))"
      using phys_at_pad [OF _ "1.prems"(1,2), of f] f by simp
    ultimately have ph: "phys_at f (length A) = PhysOk (take ?n p) ?t (length ?A)" using n by simp
    then show ?thesis
      using more 3 IH [of "take ?n p"] IH [of "s @ take ?n p"] unfolding lenA
      by (cases first) (simp_all add: rec_at_steps enc_type_def)
  qed
qed

subsection \<open>Sequences of records\<close>

text \<open>The file a writer produces from offset \<open>P\<close> on for the records \<open>ps\<close>.\<close>

fun enc_log :: "nat \<Rightarrow> bytes list \<Rightarrow> bytes" where
  "enc_log P [] = []"
| "enc_log P (p # ps) = EncodeRecord p P @ enc_log (P + length (EncodeRecord p P)) ps"

lemma enc_log_append: "enc_log P (ps @ qs) = enc_log P ps @ enc_log (P + length (enc_log P ps)) qs"
  by (induction ps arbitrary: P) (simp_all add: add.assoc)

lemma rec_at_EncodeRecord:
  "rec_at (A @ EncodeRecord p (length A) @ Z) start False [] (length A) =
     (RecOk p, length A + length (EncodeRecord p (length A)))"
  using rec_at_encode [of "length A mod kBlockSize" A _ p True Z "[]"] block_pos
  by (simp add: EncodeRecord_def less_imp_le)

lemma rec_at_EncodeRecord_torn:
  "k < length (EncodeRecord p (length A)) \<Longrightarrow>
     fst (rec_at (A @ take k (EncodeRecord p (length A))) start False [] (length A)) \<in> {RecEof, RecCorrupt start}"
  using rec_at_encode_torn [of "length A mod kBlockSize" A k p True _ start "[]"] block_pos
  by (simp add: EncodeRecord_def less_imp_le)

lemma log_at_step: "rec_at f P False [] P = (RecOk p, e) \<Longrightarrow> log_at f P = (p # fst (log_at f e), snd (log_at f e))"
  by (simp add: log_at.simps [of f P] split: prod.splits)

lemma log_at_stop: "fst (rec_at f P False [] P) \<in> {RecEof, RecCorrupt x} \<Longrightarrow> log_at f P = ([], fst (rec_at f P False [] P))"
  by (auto simp: log_at.simps [of f P] split: prod.splits)

lemma log_at_records:
  "log_at (A @ enc_log (length A) ps @ Z) (length A) =
     (ps @ fst (log_at (A @ enc_log (length A) ps @ Z) (length A + length (enc_log (length A) ps))),
      snd (log_at (A @ enc_log (length A) ps @ Z) (length A + length (enc_log (length A) ps))))"
proof (induction ps arbitrary: A)
  case (Cons p ps)
  let ?b = "EncodeRecord p (length A)"
  let ?f = "A @ enc_log (length A) (p # ps) @ Z"
  have f: "?f = (A @ ?b) @ enc_log (length (A @ ?b)) ps @ Z" by simp
  have "rec_at ?f (length A) False [] (length A) = (RecOk p, length (A @ ?b))"
    using rec_at_EncodeRecord [of A p "enc_log (length (A @ ?b)) ps @ Z"] by simp
  from log_at_step [OF this] Cons.IH [of "A @ ?b"] show ?case
    unfolding f by (simp add: add.assoc)
qed simp

lemma log_at_end: "log_at f (length f) = ([], RecEof)"
  by (simp add: log_at.simps [of f "length f"] rec_at_steps phys_at_length)

lemma log_at_enc_log: "log_at (enc_log 0 ps) 0 = (ps, RecEof)"
  using log_at_records [of "[]" ps "[]"] by (simp add: log_at_end)

text \<open>Cutting the file anywhere leaves the records that are complete.\<close>

lemma log_at_torn:
  assumes "n \<le> length (enc_log (length A) ps)"
  shows "\<exists>k \<le> length ps. \<exists>x. length (enc_log (length A) (take k ps)) \<le> n
     \<and> (k < length ps \<longrightarrow> n < length (enc_log (length A) (take (Suc k) ps)))
     \<and> log_at (A @ take n (enc_log (length A) ps)) (length A) = (take k ps, x)
     \<and> x \<in> {RecEof, RecCorrupt (length A + length (enc_log (length A) (take k ps)))}"
  using assms
proof (induction ps arbitrary: A n)
  case Nil
  then show ?case by (simp add: log_at_end)
next
  case (Cons p ps)
  let ?b = "EncodeRecord p (length A)"
  show ?case
  proof (cases "n < length ?b")
    case True
    then have f: "A @ take n (enc_log (length A) (p # ps)) = A @ take n ?b" by simp
    note torn = rec_at_EncodeRecord_torn [OF True, of "length A"]
    show ?thesis
      by (rule exI [of _ 0]) (use True torn log_at_stop [OF torn] in \<open>simp add: f\<close>)
  next
    case False
    let ?A = "A @ ?b" and ?n = "n - length ?b"
    have "?n \<le> length (enc_log (length ?A) ps)" using Cons.prems False by simp
    from Cons.IH [OF this] obtain k x where k: "k \<le> length ps"
      "length (enc_log (length ?A) (take k ps)) \<le> ?n"
      "k < length ps \<longrightarrow> ?n < length (enc_log (length ?A) (take (Suc k) ps))"
      "log_at (?A @ take ?n (enc_log (length ?A) ps)) (length ?A) = (take k ps, x)"
      "x \<in> {RecEof, RecCorrupt (length ?A + length (enc_log (length ?A) (take k ps)))}" by blast
    have f: "A @ take n (enc_log (length A) (p # ps)) = ?A @ take ?n (enc_log (length ?A) ps)"
      using False by simp
    have "rec_at (A @ ?b @ take ?n (enc_log (length ?A) ps)) (length A) False [] (length A) = (RecOk p, length ?A)"
      using rec_at_EncodeRecord [of A p] by simp
    from log_at_step [OF this] k(4) have
      "log_at (?A @ take ?n (enc_log (length ?A) ps)) (length A) = (p # take k ps, x)" by simp
    with k False show ?thesis
      unfolding f by (intro exI [of _ "Suc k"] conjI exI [of _ x]) (auto simp: add.assoc)
  qed
qed

subsection \<open>The writer\<close>

definition no_write_error :: "wr list \<Rightarrow> bool" where
  "no_write_error ws \<longleftrightarrow> (\<forall>e. WErr e \<notin> set ws)"

lemma write_all_ok:
  "no_write_error ws \<Longrightarrow> \<exists>ws'. write_all ws fl dt = (Ok, fl @ dt, ws') \<and> no_write_error ws'"
proof (induction ws arbitrary: fl dt)
  case Nil
  then show ?case by (simp add: write_all.simps)
next
  case (Cons a ws)
  then have IH: "\<exists>ws'. write_all ws f d = (Ok, f @ d, ws') \<and> no_write_error ws'" for f d
    by (simp add: no_write_error_def)
  show ?case
  proof (cases a)
    case (Wrote k)
    with IH [of "fl @ take k dt" "drop k dt"] Cons.prems show ?thesis
      by (simp add: write_all.simps [of "_ # _"])
  qed (use IH [of fl dt] Cons.prems in \<open>auto simp: write_all.simps [of "_ # _"] no_write_error_def\<close>)
qed


text \<open>The writer's file holds the records \<open>ps\<close> and nothing else.\<close>

definition holds :: "Writer \<Rightarrow> bytes list \<Rightarrow> bool" where
  "holds w ps \<longleftrightarrow> wfile w = enc_log 0 ps \<and> file_offset w = length (wfile w)"


text \<open>A list of records appended one after the other, stopping at the first failure.\<close>

fun add_records :: "wr list \<Rightarrow> bytes list \<Rightarrow> Writer \<Rightarrow> bool \<times> Writer" where
  "add_records ws [] w = (True, w)"
| "add_records ws (p # ps) w =
     (case AddRecord ws p w of (s, w', ws') \<Rightarrow> if ok s then add_records ws' ps w' else (False, w'))"

lemma add_records_ok:
  "no_write_error ws \<Longrightarrow> holds w qs \<Longrightarrow> \<exists>w'. add_records ws ps w = (True, w') \<and> holds w' (qs @ ps)"
proof (induction ps arbitrary: ws w qs)
  case (Cons p ps)
  obtain ws1 where wa: "write_all ws (wfile w) (EncodeRecord p (file_offset w)) =
      (Ok, wfile w @ EncodeRecord p (file_offset w), ws1)" and n: "no_write_error ws1"
    using write_all_ok [OF Cons.prems(1)] by blast
  let ?w = "w\<lparr>wfile := wfile w @ EncodeRecord p (file_offset w),
    file_offset := file_offset w + length (EncodeRecord p (file_offset w))\<rparr>"
  have "holds ?w (qs @ [p])" using Cons.prems(2) by (simp add: holds_def enc_log_append)
  from Cons.IH [OF n this] wa show ?case by (simp add: AddRecord_def Let_def)
qed simp

subsection \<open>A tail shorter than a header\<close>

lemma GetFixed32_shifted: "drop_bit 8 (GetFixed32 (b # PutFixed32 v @ r)) = take_bit 24 v"
proof (rule bit_word_eqI)
  fix n assume "n < LENGTH(32)"
  then consider "n < 8" | "8 \<le> n" "n < 16" | "16 \<le> n" "n < 24" | "24 \<le> n" "n < 32"
    by force
  then show "bit (drop_bit 8 (GetFixed32 (b # PutFixed32 v @ r))) n = bit (take_bit 24 v) n"
    by cases (auto simp: GetFixed32_def PutFixed32_def mask8 bit_simps dest: bit_imp_le_length)
qed

lemma GetFixed32_shifted_ge:
  assumes "n < 2 ^ 24"
  shows "256 * n \<le> unat (GetFixed32 (b # PutFixed32 (of_nat n) @ r))"
proof -
  let ?w = "GetFixed32 (b # PutFixed32 (of_nat n) @ r)"
  have "unat (drop_bit 8 ?w) = n"
    unfolding GetFixed32_shifted using assms
    by (simp add: unsigned_take_bit_eq unat_of_nat take_bit_nat_eq_self)
  then have "unat ?w div 256 = n" by (simp add: drop_bit_eq_div unat_div)
  then show ?thesis by auto
qed

lemma phys_at_after_torn_byte:
  assumes p: "p \<noteq> []" and room: "length A mod kBlockSize + 11 \<le> kBlockSize"
  shows "phys_at (A @ b # EncodeRecord p (length A + 1)) (length A) = PhysCorrupt"
proof -
  let ?P = "length A" and ?f = "A @ b # EncodeRecord p (length A + 1)"
  let ?bo = "?P mod kBlockSize + 1"
  have bo: "(?P + 1) mod kBlockSize = ?bo"
    using room by (simp add: mod_Suc)
  define n where "n = enc_frag (length p) ?bo"
  have o: "enc_off ?bo = ?bo" "enc_pad ?bo = 0"
    using room by (auto simp: enc_off_def enc_pad_def Let_def const_defs)
  have n: "0 < n" "n \<le> length p" "n \<le> kBlockSize"
    using p room by (auto simp: n_def enc_frag_def Let_def const_defs)
  let ?t = "enc_type True n (length p)"
  let ?rest = "if n < length p then encode_loop (drop n p) (?bo + kHeaderSize + n) False else []"
  have f: "?f = A @ b # PutFixed32 (of_nat n) @ PutFixed32 (Crc32 (take n p) (Crc32 [?t] 0)) @ [?t] @ take n p @ ?rest"
    using n(2) unfolding EncodeRecord_def bo encode_loop_step [of p ?bo True] o n_def
    by (simp add: frag_header_def o)
  have "n < 2 ^ 24" using n(3) by (simp add: kBlockSize_def)
  then have len: "256 * n \<le> unat (GetFixed32 (drop ?P ?f))"
    unfolding f using GetFixed32_shifted_ge by simp
  have be: "block_end ?f ?P \<le> ?P + 10 + n"
  proof (cases "n < length p")
    case True
    then have "n + 10 = kBlockSize - ?P mod kBlockSize"
      using room by (auto simp: n_def enc_frag_def Let_def const_defs split: if_splits)
    then show ?thesis by (simp add: block_end_alt)
  next
    case False
    then have "length ?f = ?P + 10 + n" unfolding f using n(2) by simp
    then show ?thesis by (simp only: block_end_alt)
  qed
  have H: "kHeaderSize = 9" by (simp add: kHeaderSize_def)
  have "\<not> block_end ?f ?P < ?P + kHeaderSize"
    using room n(1) unfolding block_end_alt f by (simp add: H)
  moreover have "unat (GetFixed32 (drop ?P ?f)) \<noteq> 0" using len n by linarith
  moreover have "block_end ?f ?P < ?P + kHeaderSize + unat (GetFixed32 (drop ?P ?f))"
    using be len n(1) unfolding H by linarith
  ultimately show ?thesis unfolding phys_at.simps [of ?f ?P] Let_def by simp
qed

subsection \<open>Damage inside a record\<close>

text \<open>Bytes of a file replaced from an offset on.\<close>

definition damage :: "nat \<Rightarrow> bytes \<Rightarrow> bytes \<Rightarrow> bytes" where
  "damage i ys f = take i f @ ys @ drop (i + length ys) f"

text \<open>
  The fragments of an encoded record: the offset of the header in the encoding, the type and
  the piece of the payload.
\<close>

inductive fragment_in :: "bytes \<Rightarrow> nat \<Rightarrow> bool \<Rightarrow> nat \<Rightarrow> u8 \<Rightarrow> bytes \<Rightarrow> bool" where
  fragment_here: "n = enc_frag (length p) (enc_off bo) \<Longrightarrow> fragment_in p bo first (enc_pad bo) (enc_type first n (length p)) (take n p)"
| fragment_later: "n = enc_frag (length p) (enc_off bo) \<Longrightarrow> n < length p \<Longrightarrow>
     fragment_in (drop n p) (enc_off bo + kHeaderSize + n) False pos t frag \<Longrightarrow>
     fragment_in p bo first (enc_pad bo + kHeaderSize + n + pos) t frag"

text \<open>The bytes the checksum of a fragment guards, and the checksum: all but the length field.\<close>

definition guarded :: "nat \<Rightarrow> bytes \<Rightarrow> nat \<Rightarrow> nat \<Rightarrow> bool" where
  "guarded pos frag i m \<longleftrightarrow> (pos + 4 \<le> i \<and> i + m \<le> pos + 8) \<or> (pos + 8 \<le> i \<and> i + m \<le> pos + kHeaderSize + length frag)"

lemma damage_left: "i + length ys \<le> length xs \<Longrightarrow> damage i ys (xs @ zs) = damage i ys xs @ zs"
  by (simp add: damage_def)

lemma damage_right: "length xs \<le> i \<Longrightarrow> damage i ys (xs @ zs) = xs @ damage (i - length xs) ys zs"
  by (simp add: damage_def)

lemma length_damage: "i + length ys \<le> length xs \<Longrightarrow> length (damage i ys xs) = length xs"
  by (simp add: damage_def)

lemma damage_changes: "i < length xs \<Longrightarrow> xs ! i \<noteq> y \<Longrightarrow> damage i [y] xs \<noteq> xs"
  by (metis damage_def length_take less_imp_le min.absorb2 nth_append_length append_Cons)

lemma Crc32_damage:
  assumes "length ys \<le> 4" and "i + length ys \<le> length xs" and "damage i ys xs \<noteq> xs"
  shows "Crc32 (damage i ys xs) c \<noteq> Crc32 xs c"
proof -
  let ?zs = "take (length ys) (drop i xs)"
  have x: "xs = take i xs @ ?zs @ drop (i + length ys) xs" by (metis append_take_drop_id drop_drop add.commute)
  have "length ys = length ?zs" using assms(2) by simp
  moreover have "ys \<noteq> ?zs" using assms(3) x by (auto simp: damage_def)
  ultimately have "Crc32 (take i xs @ ys @ drop (i + length ys) xs) c \<noteq> Crc32 (take i xs @ ?zs @ drop (i + length ys) xs) c"
    using assms(1) by (intro Crc32_burst_neq) auto
  then show ?thesis using x by (simp add: damage_def)
qed

lemma phys_at_mismatch:
  assumes f: "f = A @ PutFixed32 (of_nat (length body)) @ PutFixed32 c @ t # body @ Z"
    and fits: "length A mod kBlockSize + kHeaderSize + length body \<le> kBlockSize"
    and nz: "\<not> (t = 0 \<and> body = [] \<and> c = 0)" and crc: "Crc32 body (Crc32 [t] 0) \<noteq> c"
  shows "phys_at f (length A) = PhysCorrupt"
proof -
  let ?P = "length A"
  have d: "drop ?P f = PutFixed32 (of_nat (length body)) @ PutFixed32 c @ t # body @ Z" by (simp add: f)
  have be: "\<not> block_end f ?P < ?P + kHeaderSize" using fits by (simp add: f block_end_alt const_defs)
  have len: "unat (GetFixed32 (drop ?P f)) = length body"
    unfolding d GetFixed32_PutFixed32 using fits by (intro unat_of_nat_u32) (simp add: const_defs)
  have cr: "GetFixed32 (drop (?P + 4) f) = c" unfolding add.commute [of ?P] drop_drop [symmetric] d by simp
  have ty: "f ! (?P + 8) = t" by (simp add: f nth_append)
  have fr: "sub f (?P + kHeaderSize) (length body) = body" by (simp add: f sub_def kHeaderSize_def)
  show ?thesis unfolding phys_at.simps [of f ?P] Let_def len cr ty fr using be nz crc by auto
qed

lemma Crc32_type:
  assumes "t \<in> {1, 2, 3, 4}"
  shows "Crc32 [t] 0 \<noteq> 0"
proof -
  have "Crc32 [t] 0 = (crc_bit ^^ 8) (0xFFFFFFFF XOR ucast t) XOR 0xFFFFFFFF" by (simp add: Crc32_def crc_byte_ref)
  moreover have "(crc_bit ^^ 8) (0xFFFFFFFF XOR ucast (1 :: u8)) XOR 0xFFFFFFFF \<noteq> 0" by code_simp
  moreover have "(crc_bit ^^ 8) (0xFFFFFFFF XOR ucast (2 :: u8)) XOR 0xFFFFFFFF \<noteq> 0" by code_simp
  moreover have "(crc_bit ^^ 8) (0xFFFFFFFF XOR ucast (3 :: u8)) XOR 0xFFFFFFFF \<noteq> 0" by code_simp
  moreover have "(crc_bit ^^ 8) (0xFFFFFFFF XOR ucast (4 :: u8)) XOR 0xFFFFFFFF \<noteq> 0" by code_simp
  ultimately show ?thesis using assms by (elim insertE emptyE) (simp_all only: not_False_eq_True)
qed

lemma enc_type_range: "enc_type first n m \<in> {1, 2, 3, 4}"
  by (simp add: enc_type_def)

text \<open>Damage to the guarded bytes of a fragment is seen where the fragment is read.\<close>

lemma phys_at_damaged:
  assumes f: "f = A @ damage i ys (frag_header t frag @ frag) @ Z" and t: "t \<in> {1, 2, 3, 4}"
    and fits: "length A mod kBlockSize + kHeaderSize + length frag \<le> kBlockSize"
    and g: "guarded 0 frag i (length ys)" and ys: "length ys \<le> 4" "damage i ys (frag_header t frag @ frag) \<noteq> frag_header t frag @ frag"
  shows "phys_at f (length A) = PhysCorrupt"
proof -
  let ?L = "PutFixed32 (of_nat (length frag))" and ?c = "Crc32 frag (Crc32 [t] 0)"
  have h: "frag_header t frag @ frag = ?L @ PutFixed32 ?c @ t # frag" by (simp add: frag_header_def)
  from g consider (crc) "4 \<le> i" "i + length ys \<le> 8" | (body) "8 \<le> i" "i + length ys \<le> 9 + length frag"
    unfolding guarded_def kHeaderSize_def by auto
  then show ?thesis
  proof cases
    case crc
    let ?C = "damage (i - 4) ys (PutFixed32 ?c)"
    have d: "damage i ys (frag_header t frag @ frag) = ?L @ ?C @ t # frag"
      unfolding h using crc by (simp add: damage_right damage_left)
    have "length ?C = 4" using crc by (simp add: length_damage)
    then have C: "PutFixed32 (GetFixed32 ?C) = ?C" using PutFixed32_GetFixed32 [of ?C] by simp
    have "?C \<noteq> PutFixed32 ?c" using ys(2) d h by auto
    then have "?c \<noteq> GetFixed32 ?C" using C by metis
    then show ?thesis using t fits f unfolding d by (intro phys_at_mismatch [of f A frag "GetFixed32 ?C" t Z]) (auto simp: C)
  next
    case body
    have d: "damage i ys (frag_header t frag @ frag) = ?L @ PutFixed32 ?c @ damage (i - 8) ys (t # frag)"
      unfolding h using body by (simp add: damage_right)
    have l: "i - 8 + length ys \<le> length (t # frag)" using body by simp
    then obtain t' frag' where b: "damage (i - 8) ys (t # frag) = t' # frag'" "length frag' = length frag"
      using length_damage [OF l] by (cases "damage (i - 8) ys (t # frag)") auto
    have "damage (i - 8) ys (t # frag) \<noteq> t # frag" using ys(2) d h by auto
    from Crc32_damage [OF ys(1) l this, of 0] have "Crc32 (t' # frag') 0 \<noteq> Crc32 (t # frag) 0" by (simp add: b(1))
    then have neq: "Crc32 frag' (Crc32 [t'] 0) \<noteq> ?c" using Crc32_append [of "[t']" frag' 0] Crc32_append [of "[t]" frag 0] by simp
    have "\<not> (frag' = [] \<and> ?c = 0)" using Crc32_type [OF t] b(2) by auto
    then show ?thesis using neq fits f unfolding d b by (intro phys_at_mismatch [of f A frag' ?c t' Z]) (auto simp: b(2))
  qed
qed

lemma guarded_shift: "guarded (k + pos) frag i m \<Longrightarrow> k + pos \<le> i \<and> guarded pos frag (i - k) m"
  by (auto simp: guarded_def)

text \<open>Whichever fragment of a record is damaged, the record is not returned.\<close>

lemma rec_at_damaged:
  assumes "fragment_in p bo first pos t frag" and "bo \<le> kBlockSize" and "length A mod kBlockSize = bo mod kBlockSize"
    and "f = A @ damage i ys (encode_loop p bo first) @ Z" and "guarded pos frag i (length ys)"
    and "length ys \<le> 4" and "damage i ys (encode_loop p bo first) \<noteq> encode_loop p bo first"
  shows "fst (rec_at f start (\<not> first) s (length A)) = RecCorrupt start"
  using assms
proof (induction p bo first pos t frag arbitrary: A i s rule: fragment_in.induct)
  case (fragment_here n p bo first)
  let ?pad = "replicate (enc_pad bo) (0 :: u8)" and ?t = "enc_type first n (length p)"
  let ?fr = "frag_header ?t (take n p) @ take n p"
  obtain rest where step: "encode_loop p bo first = ?pad @ ?fr @ rest"
    using encode_loop_step [of p bo first] fragment_here.hyps by blast
  have n: "n \<le> length p" using enc_frag_le fragment_here.hyps by simp
  note round = enc_off_mod [OF fragment_here.prems(1,2)]
  have g: "enc_pad bo \<le> i" "guarded 0 (take n p) (i - enc_pad bo) (length ys)"
    using guarded_shift [of "enc_pad bo" 0] fragment_here.prems(4) by auto
  have fits: "i - enc_pad bo + length ys \<le> length ?fr" using g(2) by (auto simp: guarded_def kHeaderSize_def)
  have d: "damage i ys (encode_loop p bo first) = ?pad @ damage (i - enc_pad bo) ys ?fr @ rest"
    unfolding step using g(1) damage_left [OF fits, of rest] by (simp only: damage_right length_replicate)
  have f: "f = (A @ ?pad) @ damage (i - enc_pad bo) ys ?fr @ rest @ Z" using fragment_here.prems(3) d by simp
  have ne: "damage (i - enc_pad bo) ys ?fr \<noteq> ?fr" using fragment_here.prems(6) d unfolding step by auto
  have "phys_at f (length (A @ ?pad)) = PhysCorrupt"
    by (rule phys_at_damaged [OF f enc_type_range _ g(2) fragment_here.prems(5) ne])
       (use round n fragment_here.hyps in \<open>simp add: add.commute\<close>)
  moreover have "phys_at f (length A) = phys_at f (length (A @ ?pad))"
    using phys_at_pad [OF _ fragment_here.prems(1,2), of f] f by simp
  ultimately show ?case by (simp add: rec_at_steps)
next
  case (fragment_later n p bo pos t frag first)
  let ?pad = "replicate (enc_pad bo) (0 :: u8)" and ?t = "enc_type first n (length p)" and ?next = "enc_off bo + kHeaderSize + n"
  let ?rest = "encode_loop (drop n p) ?next False" and ?k = "enc_pad bo + kHeaderSize + n"
  let ?A = "?pad @ frag_header ?t (take n p) @ take n p"
  have step: "encode_loop p bo first = ?A @ ?rest" using encode_loop_step [of p bo first] fragment_later.hyps(1,2) by simp
  note round = enc_off_mod [OF fragment_later.prems(1,2)]
  have lenA: "length ?A = ?k" using fragment_later.hyps(2) by simp
  have g: "?k \<le> i" "guarded pos frag (i - ?k) (length ys)" using guarded_shift [OF fragment_later.prems(4)] by auto
  have d: "damage i ys (encode_loop p bo first) = ?A @ damage (i - ?k) ys ?rest"
    unfolding step using damage_right [of ?A i ys ?rest] g(1) unfolding lenA by simp
  have f: "f = (A @ ?A) @ damage (i - ?k) ys ?rest @ Z" using fragment_later.prems(3) d by simp
  have al: "length (A @ ?A) mod kBlockSize = ?next mod kBlockSize"
    using round(1) lenA fragment_later.hyps(1) by (metis add.assoc length_append mod_add_left_eq)
  have ne: "damage (i - ?k) ys ?rest \<noteq> ?rest" using fragment_later.prems(6) d unfolding step by auto
  have next_ok: "?next \<le> kBlockSize" using round(2) fragment_later.hyps(1) by simp
  have IH: "fst (rec_at f start True s' (length (A @ ?A))) = RecCorrupt start" for s'
    using fragment_later.IH [OF next_ok al f g(2) fragment_later.prems(5) ne] by simp
  have f': "f = (A @ ?pad) @ frag_header ?t (take n p) @ take n p @ damage (i - ?k) ys ?rest @ Z" using f by simp
  have "phys_at f (length (A @ ?pad)) = PhysOk (take n p) ?t (length (A @ ?pad) + kHeaderSize + length (take n p))"
    using round fragment_later.hyps(1,2) by (intro phys_at_fragment [OF f'] enc_type_nz) simp
  moreover have "phys_at f (length A) = phys_at f (length (A @ ?pad))"
    using phys_at_pad [OF _ fragment_later.prems(1,2), of f] f by simp
  ultimately have ph: "phys_at f (length A) = PhysOk (take n p) ?t (length (A @ ?A))" using fragment_later.hyps(2) by simp
  show ?case using ph IH [of "take n p"] IH [of "s @ take n p"] fragment_later.hyps(2)
    by (cases first) (simp_all add: rec_at_steps enc_type_def)
qed

subsection \<open>Whole files\<close>

lemma EncodeRecord_single:
  assumes "a mod kBlockSize + kHeaderSize + length p \<le> kBlockSize"
  shows "EncodeRecord p a = frag_header kFullType p @ p"
proof -
  have "enc_pad (a mod kBlockSize) = 0" "enc_off (a mod kBlockSize) = a mod kBlockSize"
    using assms by (auto simp: enc_pad_def enc_off_def Let_def)
  moreover have "enc_frag (length p) (a mod kBlockSize) = length p"
    using assms by (auto simp: enc_frag_def Let_def)
  ultimately show ?thesis
    by (simp add: EncodeRecord_def encode_loop_step [of p "a mod kBlockSize"] enc_type_def)
qed

lemma log_at_prefix:
  assumes "fst (rec_at (enc_log 0 ps @ Z) (length (enc_log 0 ps)) False [] (length (enc_log 0 ps))) = x"
    and "x \<in> {RecEof, RecCorrupt y}"
  shows "log_at (enc_log 0 ps @ Z) 0 = (ps, x)"
  using log_at_records [of "[]" ps Z] log_at_stop [of "enc_log 0 ps @ Z" "length (enc_log 0 ps)" y] assms by simp

lemma read_all_open_ex:
  "no_read_error rs \<Longrightarrow> log_at f 0 = (ps, x) \<Longrightarrow> \<exists>r. read_all (open_reader rs f) = (ps, x, r)"
  using read_all_open [of rs f] by (metis fst_conv snd_conv)

subsection \<open>Properties\<close>

text \<open>
  C1: records appended to an empty log with short writes and interrupted calls,
  but no write error, all succeed, and a reader of the file, whatever the sizes of
  its reads, returns exactly these records in order and then a clean end.
\<close>

theorem wal_roundtrip:
  assumes "no_write_error ws" and "no_read_error rs"
  shows "\<exists>w r. add_records ws ps \<lparr>wfile = [], file_offset = 0\<rparr> = (True, w) \<and>
           read_all (open_reader rs (wfile w)) = (ps, RecEof, r)"
proof -
  have "holds \<lparr>wfile = [], file_offset = 0\<rparr> []" by (simp add: holds_def)
  from add_records_ok [OF assms(1) this, of ps] obtain w where
    w: "add_records ws ps \<lparr>wfile = [], file_offset = 0\<rparr> = (True, w)" "wfile w = enc_log 0 ps"
    by (auto simp: holds_def)
  from read_all_open [OF assms(2), of "wfile w"] w show ?thesis by (auto simp: log_at_enc_log)
qed

theorem wal_roundtrip_witness:
  "\<exists>w r. add_records [Wrote 3, WEintr, Wrote 0] [[1, 2], [], [7]] \<lparr>wfile = [], file_offset = 0\<rparr> = (True, w) \<and>
     read_all (open_reader [Got 2, REintr, Got 5] (wfile w)) = ([[1, 2], [], [7]], RecEof, r)"
  by (rule wal_roundtrip) (simp_all add: no_write_error_def no_read_error_def)

text \<open>
  C2: the log cut at any byte by a crash. The reader returns exactly the records
  that lie completely before the cut, and then a clean end or a corruption at the
  end of the last complete record.
\<close>

theorem wal_torn_tail:
  assumes "holds w ps" and "n \<le> length (wfile w)" and "no_read_error rs"
  shows "\<exists>k \<le> length ps. \<exists>x r.
     length (enc_log 0 (take k ps)) \<le> n \<and> (k < length ps \<longrightarrow> n < length (enc_log 0 (take (Suc k) ps))) \<and>
     read_all (open_reader rs (take n (wfile w))) = (take k ps, x, r) \<and>
     x \<in> {RecEof, RecCorrupt (length (enc_log 0 (take k ps)))}"
proof -
  from assms(1,2) have "n \<le> length (enc_log (length ([] :: bytes)) ps)" by (simp add: holds_def)
  from log_at_torn [OF this] obtain k x where k: "k \<le> length ps" "length (enc_log 0 (take k ps)) \<le> n"
    "k < length ps \<longrightarrow> n < length (enc_log 0 (take (Suc k) ps))"
    "log_at (take n (enc_log 0 ps)) 0 = (take k ps, x)"
    "x \<in> {RecEof, RecCorrupt (length (enc_log 0 (take k ps)))}" by auto
  from read_all_open [OF assms(3), of "take n (wfile w)"] obtain r where
    "read_all (open_reader rs (take n (wfile w))) = (take k ps, x, r)"
    using k(4) assms(1) by (auto simp: holds_def)
  with k show ?thesis by blast
qed

theorem wal_torn_tail_witness:
  "\<exists>k \<le> length [[1, 2 :: u8]]. \<exists>x r.
     length (enc_log 0 (take k [[1, 2]])) \<le> 10 \<and>
     (k < length [[1, 2 :: u8]] \<longrightarrow> 10 < length (enc_log 0 (take (Suc k) [[1, 2]]))) \<and>
     read_all (open_reader [] (take 10 (wfile \<lparr>wfile = enc_log 0 [[1, 2]], file_offset = 11\<rparr>))) = (take k [[1, 2]], x, r) \<and>
     x \<in> {RecEof, RecCorrupt (length (enc_log 0 (take k [[1, 2]])))}"
  by (rule wal_torn_tail)
     (simp_all add: holds_def no_read_error_def EncodeRecord_single const_defs frag_header_def)



text \<open>
  C4: recovery by truncation. When the reader of a torn log reports corruption at
  offset \<open>off\<close>, cutting the file there and reopening the writer at its end gives a
  well-formed log of exactly the records that were returned.
\<close>

theorem wal_truncate_recovers:
  assumes "holds w ps" and "n \<le> length (wfile w)" and "no_read_error rs"
    and "read_all (open_reader rs (take n (wfile w))) = (got, RecCorrupt off, r)"
  shows "holds \<lparr>wfile = take off (take n (wfile w)), file_offset = off\<rparr> got"
proof -
  from assms(1,2) have "n \<le> length (enc_log (length ([] :: bytes)) ps)" by (simp add: holds_def)
  from log_at_torn [OF this] obtain k x where k: "length (enc_log 0 (take k ps)) \<le> n"
    "log_at (take n (enc_log 0 ps)) 0 = (take k ps, x)"
    "x \<in> {RecEof, RecCorrupt (length (enc_log 0 (take k ps)))}" by auto
  moreover from read_all_open [OF assms(3), of "take n (wfile w)"] obtain r' where
    "read_all (open_reader rs (take n (wfile w))) = (take k ps, x, r')"
    using k(2) assms(1) by (auto simp: holds_def)
  ultimately have g: "got = take k ps" "off = length (enc_log 0 (take k ps))" using assms(4) by auto
  have "enc_log 0 ps = enc_log 0 (take k ps) @ enc_log (length (enc_log 0 (take k ps))) (drop k ps)"
    using enc_log_append [of 0 "take k ps" "drop k ps"] by simp
  then have "take off (enc_log 0 ps) = enc_log 0 (take k ps)" using g by simp
  with assms(1) g k(1) show ?thesis by (simp add: holds_def min_absorb1)
qed

theorem wal_truncate_recovers_witness:
  "\<exists>r. read_all (open_reader [] (take 10 (EncodeRecord [1, 2] 0))) = ([], RecCorrupt 0, r) \<and>
     holds \<lparr>wfile = take 0 (take 10 (EncodeRecord [1, 2] 0)), file_offset = 0\<rparr> []"
proof -
  let ?w = "\<lparr>wfile = EncodeRecord [1, 2] 0, file_offset = 11\<rparr>"
  have len: "length (EncodeRecord [1, 2] 0) = 11"
    by (simp add: EncodeRecord_single const_defs frag_header_def)
  have h: "holds ?w [[1, 2]]" by (simp add: holds_def len)
  have "fst (rec_at (take 10 (EncodeRecord [1, 2] 0)) 0 False [] 0) = RecCorrupt 0"
    using rec_at_encode_torn [of 0 "[]" 10 "[1, 2]" True _ 0 "[]"] len
    by (simp add: EncodeRecord_def enc_pad_def const_defs)
  then have "log_at (take 10 (wfile ?w)) 0 = ([], RecCorrupt 0)"
    using log_at_stop [of "take 10 (wfile ?w)" 0 0] by simp
  then obtain r where "read_all (open_reader [] (take 10 (wfile ?w))) = ([], RecCorrupt 0, r)"
    using read_all_open_ex [of "[]" "take 10 (wfile ?w)"] by (auto simp: no_read_error_def)
  with wal_truncate_recovers [OF h _ _ this] len show ?thesis by (auto simp: no_read_error_def)
qed

text \<open>
  C24: a torn tail of a single byte of the next header is not reported: the reader
  sees a clean end of file, so the caller keeps the byte and appends after it. The
  record it then appends is lost to every later reader, although the append
  succeeded.
\<close>

theorem wal_torn_byte_loses_append:
  assumes "holds w ps" and "p \<noteq> []" and "file_offset w mod kBlockSize + 11 \<le> kBlockSize"
    and "no_read_error rs" and "torn = \<lparr>wfile = wfile w @ [b], file_offset = file_offset w + 1\<rparr>"
  shows "(\<exists>r. read_all (open_reader rs (wfile torn)) = (ps, RecEof, r)) \<and>
         (\<exists>w'. AddRecord [] p torn = (Ok, w', []) \<and>
            (\<exists>r. read_all (open_reader rs (wfile w')) = (ps, RecCorrupt (file_offset w), r)))"
proof -
  let ?A = "enc_log 0 ps"
  have w: "wfile w = ?A" "file_offset w = length ?A" using assms(1) by (simp_all add: holds_def)
  have "phys_at (?A @ [b]) (length ?A) = PhysEof"
    using assms(3) unfolding w by (intro phys_at_short) (simp_all add: kHeaderSize_def)
  then have "log_at (?A @ [b]) 0 = (ps, RecEof)"
    by (intro log_at_prefix) (simp_all add: rec_at_steps)
  then have 1: "\<exists>r. read_all (open_reader rs (?A @ [b])) = (ps, RecEof, r)"
    by (rule read_all_open_ex [OF assms(4)])
  let ?f = "?A @ [b] @ EncodeRecord p (length ?A + 1)"
  have "phys_at ?f (length ?A) = PhysCorrupt"
    using phys_at_after_torn_byte [OF assms(2), of ?A b] assms(3) unfolding w by simp
  then have "log_at ?f 0 = (ps, RecCorrupt (length ?A))"
    by (intro log_at_prefix) (simp_all add: rec_at_steps)
  then have 2: "\<exists>r. read_all (open_reader rs ?f) = (ps, RecCorrupt (length ?A), r)"
    by (rule read_all_open_ex [OF assms(4)])
  have "AddRecord [] p torn = (Ok, \<lparr>wfile = ?f, file_offset = length ?A + 1 + length (EncodeRecord p (length ?A + 1))\<rparr>, [])"
    using assms(5) by (simp add: AddRecord_def Let_def write_all.simps w)
  with 1 2 show ?thesis unfolding assms(5) w by auto
qed

theorem wal_torn_byte_loses_append_witness:
  "(\<exists>r. read_all (open_reader [] [3]) = ([], RecEof, r)) \<and>
   (\<exists>w'. AddRecord [] [5] \<lparr>wfile = [3], file_offset = 1\<rparr> = (Ok, w', []) \<and>
      (\<exists>r. read_all (open_reader [] (wfile w')) = ([], RecCorrupt 0, r)))"
  using wal_torn_byte_loses_append [of "\<lparr>wfile = [], file_offset = 0\<rparr>" "[]" "[5]" "[]" _ 3]
  by (simp add: holds_def no_read_error_def const_defs)

text \<open>
  C27: damage to a record of any length. Up to four consecutive bytes replaced in the
  checksum field of one of its fragments, or in the type byte and the payload of one, are
  detected, whatever follows in the file: the reader returns the records before it and reports
  corruption where the last of them ends. The length field and the padding of a block are outside the checksum.
\<close>

theorem wal_detects_burst:
  assumes "holds w ps" and "fragment_in p (file_offset w mod kBlockSize) True pos t frag" and "guarded pos frag i (length ys)"
    and "length ys \<le> 4" and "damage i ys (EncodeRecord p (file_offset w)) \<noteq> EncodeRecord p (file_offset w)" and "no_read_error rs"
  shows "\<exists>r. read_all (open_reader rs (wfile w @ damage i ys (EncodeRecord p (file_offset w)) @ Z)) = (ps, RecCorrupt (file_offset w), r)"
proof -
  let ?A = "enc_log 0 ps"
  have w: "wfile w = ?A" "file_offset w = length ?A" using assms(1) by (simp_all add: holds_def)
  let ?bo = "length ?A mod kBlockSize"
  have "?bo \<le> kBlockSize" "length ?A mod kBlockSize = ?bo mod kBlockSize" using block_pos by (simp_all add: less_imp_le)
  from rec_at_damaged [OF assms(2) [unfolded w] this refl assms(3,4)] assms(5)
  have "fst (rec_at (?A @ damage i ys (EncodeRecord p (length ?A)) @ Z) (length ?A) False [] (length ?A)) = RecCorrupt (length ?A)"
    unfolding w EncodeRecord_def by simp
  then have "log_at (?A @ damage i ys (EncodeRecord p (length ?A)) @ Z) 0 = (ps, RecCorrupt (length ?A))"
    by (rule log_at_prefix) simp
  then show ?thesis unfolding w by (rule read_all_open_ex [OF assms(6)])
qed

text \<open>The second fragment of a record of 40000 bytes.\<close>

theorem wal_detects_burst_witness:
  "\<exists>r. read_all (open_reader [] (damage 32780 [7] (EncodeRecord (replicate 40000 5) 0))) = ([], RecCorrupt 0, r)"
proof -
  let ?w = "\<lparr>wfile = [], file_offset = 0\<rparr>" and ?p = "replicate 40000 (5 :: u8)"
  have e: "enc_off 0 = 0" "enc_pad 0 = 0" "enc_frag 40000 0 = 32759" "enc_off 32768 = 0" "enc_pad 32768 = 0" "enc_frag 7241 0 = 7241"
    by (simp_all add: enc_off_def enc_pad_def enc_frag_def const_defs)
  have "fragment_in (replicate 7241 5) 32768 False 0 (enc_type False 7241 7241) (take 7241 (replicate 7241 5))"
    using fragment_here [of 7241 "replicate 7241 (5 :: u8)" 32768 False] e by simp
  then have fr: "fragment_in ?p 0 True 32768 (enc_type False 7241 7241) (replicate 7241 5)"
    using fragment_later [of 32759 ?p 0 0 "enc_type False 7241 7241" "replicate 7241 5" True] e by (simp add: kHeaderSize_def)
  have g: "guarded 32768 (replicate 7241 (5 :: u8)) 32780 (length [7 :: u8])" by (simp add: guarded_def kHeaderSize_def)
  have q: "encode_loop (replicate 7241 (5 :: u8)) 32768 False = frag_header 4 (replicate 7241 5) @ replicate 7241 5"
    unfolding encode_loop_step [of "replicate 7241 (5 :: u8)" 32768 False] length_replicate e by (simp add: enc_type_def)
  have "EncodeRecord ?p 0 = (frag_header 2 (replicate 32759 5) @ replicate 32759 5) @ frag_header 4 (replicate 7241 5) @ replicate 7241 5"
    unfolding EncodeRecord_def mod_0 unfolding encode_loop_step [of ?p 0 True] length_replicate e
    by (simp add: enc_type_def kHeaderSize_def take_replicate drop_replicate q)
  then have "EncodeRecord ?p 0 ! 32780 = 5" "32780 < length (EncodeRecord ?p 0)"
    by (simp_all add: nth_append kHeaderSize_def)
  then have ne: "damage 32780 [7] (EncodeRecord ?p 0) \<noteq> EncodeRecord ?p 0" by (intro damage_changes) simp_all
  from wal_detects_burst [of ?w "[]" ?p 32768 _ _ 32780 "[7]" "[]" "[]"] fr g ne show ?thesis
    by (simp add: holds_def no_read_error_def)
qed

end
