(* ===== verification/FileNames.thy ===== *)
theory FileNames
  imports Status
begin

text \<open>
  The names of the numbered files (\<^verbatim>\<open>DB::SstFileName\<close>, \<^verbatim>\<open>DB::LogFileName\<close>,
  \<^verbatim>\<open>VLog::FileName\<close>) and the parser that recognises them in a directory listing
  (\<^verbatim>\<open>ParseNumberedFile\<close> in \<^verbatim>\<open>src/db.cpp\<close>), with the decimal conversions of the
  standard library that they use. Every name a database writes is recognised with its number,
  up to the largest 64-bit number, and as no other kind of file.
\<close>

subsection \<open>Decimal numbers\<close>

fun digits :: "nat \<Rightarrow> bytes" where
  "digits n = (if n < 10 then [48 + of_nat n] else digits (n div 10) @ [48 + of_nat (n mod 10)])"

declare digits.simps [simp del]

text \<open>\<^verbatim>\<open>std::to_string\<close>, and the conversion \<^verbatim>\<open>%06llu\<close>.\<close>

definition to_string :: "nat \<Rightarrow> bytes" where
  "to_string n = digits n"

definition fmt06 :: "u64 \<Rightarrow> bytes" where
  "fmt06 n = replicate (6 - length (digits (unat n))) 48 @ digits (unat n)"

definition VLog_FileName :: "u64 \<Rightarrow> bytes" where
  "VLog_FileName number = fmt06 number @ str ''.vlog''"

definition SstFileName :: "u64 \<Rightarrow> bytes" where
  "SstFileName number = fmt06 number @ str ''.sst''"

definition LogFileName :: "u64 \<Rightarrow> bytes" where
  "LogFileName number = fmt06 number @ str ''.log''"

definition VlogFileName :: "u64 \<Rightarrow> bytes" where
  "VlogFileName number = VLog_FileName number"

subsection \<open>ParseNumberedFile\<close>

definition kMaxU64 :: u64 where "kMaxU64 = 0xffffffffffffffff"

fun number_loop :: "bytes \<Rightarrow> u64 \<Rightarrow> u64 option" where
  "number_loop [] n = Some n"
| "number_loop (c # cs) n =
     (if c < 48 \<or> 57 < c then None
      else let d = ucast (c - 48) :: u64
           in if n > (kMaxU64 - d) div 10 then None
              else number_loop cs (n * 10 + d))"

definition ParseNumberedFile :: "bytes \<Rightarrow> bytes \<Rightarrow> u64 option" where
  "ParseNumberedFile name suffix =
     (if length name \<le> length suffix \<or> drop (length name - length suffix) name \<noteq> suffix then None
      else number_loop (take (length name - length suffix) name) 0)"

subsection \<open>Every name parses back\<close>

lemma digits_nonempty [simp]: "digits n \<noteq> []"
  by (subst digits.simps) simp

lemma digit_range:
  assumes "n < 10"
  shows "48 \<le> (48 + of_nat n :: u8) \<and> (48 + of_nat n :: u8) \<le> 57 \<and> ucast (of_nat n :: u8) = (of_nat n :: u64)"
proof -
  have "n = 0 \<or> n = 1 \<or> n = 2 \<or> n = 3 \<or> n = 4 \<or> n = 5 \<or> n = 6 \<or> n = 7 \<or> n = 8 \<or> n = 9" using assms by arith
  then show ?thesis by (elim disjE) simp_all
qed

lemma number_loop_append: "number_loop (xs @ ys) n = Option.bind (number_loop xs n) (number_loop ys)"
  by (induction xs arbitrary: n) (simp_all add: Let_def)

lemma number_loop_zeros: "number_loop (replicate k 48 @ xs) 0 = number_loop xs 0"
  by (induction k) (simp_all add: Let_def)

lemma number_step:
  assumes "m < 2 ^ 64"
  shows "\<not> of_nat (m div 10) > (kMaxU64 - of_nat (m mod 10) :: u64) div 10
    \<and> (of_nat (m div 10) * 10 + of_nat (m mod 10) :: u64) = of_nat m"
proof
  have mx: "unat (kMaxU64 - of_nat (m mod 10) :: u64) = 2 ^ 64 - 1 - m mod 10"
    by (subst unat_sub) (simp_all add: word_le_nat_alt unat_of_nat_u64 kMaxU64_def)
  have "m div 10 * 10 + m mod 10 = m" by simp
  then have "m div 10 * 10 \<le> 2 ^ 64 - 1 - m mod 10" using assms by linarith
  then have "m div 10 \<le> (2 ^ 64 - 1 - m mod 10) div 10" by (simp add: less_eq_div_iff_mult_less_eq)
  then show "\<not> of_nat (m div 10) > (kMaxU64 - of_nat (m mod 10) :: u64) div 10"
    using assms by (simp add: word_less_nat_alt unat_div mx unat_of_nat_u64)
  show "(of_nat (m div 10) * 10 + of_nat (m mod 10) :: u64) = of_nat m"
    by (metis add.commute mult.commute mod_div_mult_eq of_nat_add of_nat_mult of_nat_numeral)
qed

lemma number_loop_digits: "m < 2 ^ 64 \<Longrightarrow> number_loop (digits m) 0 = Some (of_nat m)"
proof (induction m rule: digits.induct)
  case (1 m)
  show ?case
  proof (cases "m < 10")
    case True
    then show ?thesis using digit_range [OF True] by (simp add: digits.simps [of m] Let_def not_less)
  next
    case False
    have "number_loop (digits (m div 10)) 0 = Some (of_nat (m div 10))" using 1 False by simp
    then show ?thesis
      using False digit_range [of "m mod 10"] number_step [OF 1(2)]
      by (simp add: digits.simps [of m] number_loop_append Let_def not_less)
  qed
qed

lemma fmt06_parses: "ParseNumberedFile (fmt06 n @ suffix) suffix = Some n"
  using number_loop_digits [of "unat n"] number_loop_zeros by (simp add: ParseNumberedFile_def fmt06_def)

lemma fmt06_inj: "fmt06 m = fmt06 n \<Longrightarrow> m = n"
  using fmt06_parses [of m "[]"] fmt06_parses [of n "[]"] by simp

lemma ParseNumberedFile_suffix: "ParseNumberedFile name suffix = Some n \<Longrightarrow> \<exists>xs. name = xs @ suffix"
  by (metis ParseNumberedFile_def append_take_drop_id option.distinct(1))

lemma ParseNumberedFile_other: "rev name \<noteq> rev suffix @ rev (take (length name - length suffix) name) \<Longrightarrow> ParseNumberedFile name suffix = None"
  using ParseNumberedFile_suffix [of name suffix] by (cases "ParseNumberedFile name suffix") auto

text \<open>
  C30: the three kinds of file names a database uses are recognised with exactly their
  number, whatever 64-bit number it is, and no name of one kind is taken for another kind.
\<close>

theorem file_names_roundtrip:
  "ParseNumberedFile (SstFileName n) (str ''.sst'') = Some n \<and>
   ParseNumberedFile (LogFileName n) (str ''.log'') = Some n \<and>
   ParseNumberedFile (VlogFileName n) (str ''.vlog'') = Some n \<and>
   ParseNumberedFile (SstFileName n) (str ''.log'') = None \<and> ParseNumberedFile (SstFileName n) (str ''.vlog'') = None \<and>
   ParseNumberedFile (LogFileName n) (str ''.sst'') = None \<and> ParseNumberedFile (LogFileName n) (str ''.vlog'') = None \<and>
   ParseNumberedFile (VlogFileName n) (str ''.sst'') = None \<and> ParseNumberedFile (VlogFileName n) (str ''.log'') = None"
  by (simp add: SstFileName_def LogFileName_def VlogFileName_def VLog_FileName_def fmt06_parses del: str_Cons)
     (simp add: ParseNumberedFile_other)

end
