(* ===== verification/Resp.thy ===== *)
theory Resp
  imports FileNames
begin

text \<open>
  The RESP2 protocol (\<^verbatim>\<open>include/bedrockkv/resp.h\<close>, \<^verbatim>\<open>src/resp.cpp\<close>): the
  incremental request parser with its buffer, spans and position, and the reply encoders.
  The main result is that the commands a client encodes arrive unchanged and in order however
  the stream is cut into reads.
\<close>

definition kMaxMultibulk :: nat where "kMaxMultibulk = 1024 * 1024"
definition kMaxInlineLine :: nat where "kMaxInlineLine = 64 * 1024"
definition kMaxBulkLen :: nat where "kMaxBulkLen = 512 * 2 ^ 20"

abbreviation CR :: byte where "CR \<equiv> 0x0D"
abbreviation LF :: byte where "LF \<equiv> 0x0A"
abbreviation crlf :: bytes where "crlf \<equiv> [CR, LF]"

subsection \<open>Standard library\<close>

text \<open>\<^verbatim>\<open>std::string::find\<close> of a non-empty pattern from a position.\<close>

fun find_from :: "bytes \<Rightarrow> bytes \<Rightarrow> nat \<Rightarrow> nat option" where
  "find_from pat [] i = None"
| "find_from pat (x # xs) i = (if take (length pat) (x # xs) = pat then Some i else find_from pat xs (Suc i))"

definition str_find :: "bytes \<Rightarrow> bytes \<Rightarrow> nat \<Rightarrow> nat option" where
  "str_find pat s pos = find_from pat (drop pos s) pos"

text \<open>\<^verbatim>\<open>std::from_chars\<close> on a string of digits: out of range above \<open>2 ^ 63 - 1\<close>.\<close>

definition digits_val :: "bytes \<Rightarrow> nat" where
  "digits_val s = foldl (\<lambda>n c. n * 10 + unat (c - 48)) 0 s"

definition from_chars :: "bytes \<Rightarrow> nat option" where
  "from_chars s = (if digits_val s < 2 ^ 63 then Some (digits_val s) else None)"

subsection \<open>Parser\<close>

definition ParseDigits :: "bytes \<Rightarrow> nat option" where
  "ParseDigits s =
     (if s = [] then None
      else if \<exists>c\<in>set s. c < 48 \<or> 57 < c then None
      else from_chars s)"

datatype NextStatus = kRequest "bytes list" | kNeedMore | kError bytes

record Parser =
  rbuf :: bytes
  multibulk :: int
  parse_pos :: nat
  arg_spans :: "(nat \<times> nat) list"

definition NewParser :: Parser where
  "NewParser = \<lparr>rbuf = [], multibulk = - 1, parse_pos = 0, arg_spans = []\<rparr>"

definition Feed :: "bytes \<Rightarrow> Parser \<Rightarrow> Parser" where
  "Feed b p = p\<lparr>rbuf := rbuf p @ b\<rparr>"

definition Parser_Reset :: "Parser \<Rightarrow> Parser" where
  "Parser_Reset p = p\<lparr>rbuf := [], multibulk := - 1, parse_pos := 0, arg_spans := []\<rparr>"

text \<open>The words of an inline command.\<close>

definition is_blank :: "byte \<Rightarrow> bool" where
  "is_blank c \<longleftrightarrow> c = 0x20 \<or> c = 0x09"

function split_words :: "bytes \<Rightarrow> bytes list" where
  "split_words s =
     (if s = [] then []
      else let t = dropWhile is_blank s; word = takeWhile (\<lambda>c. \<not> is_blank c) t; rest = dropWhile (\<lambda>c. \<not> is_blank c) t
           in if word \<noteq> [] then word # split_words rest else split_words rest)"
  by pat_completeness auto
termination
proof (relation "measure length", goal_cases)
  case (2 s t word rest)
  have "length rest + length word = length t" unfolding 2 by (metis add.commute length_append takeWhile_dropWhile_id)
  moreover have "length t \<le> length s" unfolding 2 by (rule length_dropWhile_le)
  moreover have "0 < length word" using 2 by simp
  ultimately have "length rest < length s" by linarith
  then show ?case by simp
next
  case (3 s t word rest)
  have "t = []"
  proof (rule ccontr)
    assume t: "t \<noteq> []"
    then have "\<not> is_blank (hd t)" unfolding 3 by (rule hd_dropWhile)
    then have "takeWhile (\<lambda>c. \<not> is_blank c) t \<noteq> []" using t by (cases t) simp_all
    then show False using 3(3,5) by blast
  qed
  then have "rest = []" using 3(4) by simp
  then show ?case using 3(1) by simp
qed simp

declare split_words.simps [simp del]

definition NextInline :: "Parser \<Rightarrow> NextStatus \<times> Parser" where
  "NextInline p = (case str_find [LF] (rbuf p) 0 of
      None \<Rightarrow>
        (if kMaxInlineLine < length (rbuf p) then kError (str ''Protocol error: too big inline request'') else kNeedMore, p)
    | Some nl \<Rightarrow>
        let fin = (if nl > 0 \<and> rbuf p ! (nl - 1) = CR then nl - 1 else nl);
            args = split_words (take fin (rbuf p));
            p' = p\<lparr>rbuf := drop (nl + 1) (rbuf p), parse_pos := 0\<rparr>
        in if args = [] then (kNeedMore, p') else (kRequest args, p'))"

text \<open>Skipping empty lines while idle, with the compaction that follows.\<close>

definition skip_lines :: "Parser \<Rightarrow> Parser" where
  "skip_lines p = p\<lparr>rbuf := dropWhile (\<lambda>c. c = CR \<or> c = LF) (drop (parse_pos p) (rbuf p)), parse_pos := 0\<rparr>"

definition span_args :: "bytes \<Rightarrow> (nat \<times> nat) list \<Rightarrow> bytes list" where
  "span_args b spans = map (\<lambda>(off, n). sub b off n) spans"

definition too_big :: bytes where "too_big = str ''Protocol error: too big multibulk length''"
definition bad_multibulk :: bytes where "bad_multibulk = str ''Protocol error: invalid multibulk length''"
definition bad_bulk :: bytes where "bad_bulk = str ''Protocol error: invalid bulk length''"
definition no_dollar :: "byte \<Rightarrow> bytes" where
  "no_dollar c = str ''Protocol error: expected '' @ [39, 36, 39] @ str '', got '' @ [39, c, 39]"
definition no_terminator :: bytes where "no_terminator = str ''Protocol error: bulk string missing terminator''"

lemma find_from_bounds: "find_from pat xs i = Some j \<Longrightarrow> i \<le> j \<and> take (length pat) (drop (j - i) xs) = pat \<and> j - i < length xs"
proof (induction xs arbitrary: i)
  case (Cons x xs)
  show ?case
  proof (cases "take (length pat) (x # xs) = pat")
    case True
    then show ?thesis using Cons.prems by auto
  next
    case False
    then have "find_from pat xs (Suc i) = Some j" using Cons.prems by simp
    from Cons.IH [OF this] show ?thesis by (cases "j - i") (auto simp: Suc_diff_Suc [symmetric] Suc_le_eq)
  qed
qed simp

lemma str_find_bounds:
  assumes "str_find pat s pos = Some nl"
  shows "pos \<le> nl" "nl + length pat \<le> length s" "take (length pat) (drop nl s) = pat"
proof -
  note b = find_from_bounds [OF assms [unfolded str_find_def]]
  show 1: "pos \<le> nl" using b by simp
  have "pos + (nl - pos) = nl" using 1 by simp
  then show "take (length pat) (drop nl s) = pat" using b by (metis drop_drop add.commute)
  then have "length pat \<le> length s - nl" by (metis length_drop length_take min.cobounded1)
  moreover have "nl < length s" using b by auto
  ultimately show "nl + length pat \<le> length s" by linarith
qed

function Parser_Next :: "Parser \<Rightarrow> NextStatus \<times> Parser" where
  "Parser_Next p =
     (if multibulk p < 0 then
        let q = skip_lines p
        in if rbuf q = [] then (kNeedMore, q)
           else if rbuf q ! 0 = 0x2A then
             case str_find crlf (rbuf q) 1 of
               None \<Rightarrow> (if 32 < length (rbuf q) then kError too_big else kNeedMore, q)
             | Some nl \<Rightarrow>
                 (case ParseDigits (sub (rbuf q) 1 (nl - 1)) of
                    None \<Rightarrow> (kError bad_multibulk, q)
                  | Some n \<Rightarrow>
                      if kMaxMultibulk < n then (kError bad_multibulk, q)
                      else if n = 0 then Parser_Next (q\<lparr>rbuf := drop (nl + 2) (rbuf q), parse_pos := 0\<rparr>)
                      else Parser_Next (q\<lparr>multibulk := int n, arg_spans := [], parse_pos := nl + 2\<rparr>))
           else NextInline q
      else if length (rbuf p) \<le> parse_pos p then (kNeedMore, p)
      else if rbuf p ! parse_pos p \<noteq> 0x24 then (kError (no_dollar (rbuf p ! parse_pos p)), p)
      else case str_find crlf (rbuf p) (parse_pos p + 1) of
        None \<Rightarrow> (if 32 < length (rbuf p) - parse_pos p then kError bad_bulk else kNeedMore, p)
      | Some nl \<Rightarrow>
          (case ParseDigits (sub (rbuf p) (parse_pos p + 1) (nl - parse_pos p - 1)) of
             None \<Rightarrow> (kError bad_bulk, p)
           | Some len \<Rightarrow>
               if kMaxBulkLen < len then (kError bad_bulk, p)
               else let data_pos = nl + 2
                    in if length (rbuf p) < data_pos + len + 2 then (kNeedMore, p)
                       else if rbuf p ! (data_pos + len) \<noteq> CR \<or> rbuf p ! (data_pos + len + 1) \<noteq> LF
                       then (kError no_terminator, p)
                       else let spans = arg_spans p @ [(data_pos, len)]; pos = data_pos + len + 2
                            in if multibulk p - 1 = 0
                               then (kRequest (span_args (rbuf p) spans),
                                     p\<lparr>multibulk := - 1, arg_spans := [], rbuf := drop pos (rbuf p), parse_pos := 0\<rparr>)
                               else Parser_Next (p\<lparr>multibulk := multibulk p - 1, arg_spans := spans, parse_pos := pos\<rparr>)))"
  by pat_completeness auto
termination
proof (relation "measure (\<lambda>p. length (rbuf p) - parse_pos p)", goal_cases)
  case (2 p q nl n)
  have "length (rbuf q) \<le> length (rbuf p) - parse_pos p"
    unfolding 2 skip_lines_def using length_dropWhile_le [of _ "drop (parse_pos p) (rbuf p)"] by simp
  then show ?case using str_find_bounds [OF 2(5)] by simp
next
  case (3 p q nl n)
  have "length (rbuf q) \<le> length (rbuf p) - parse_pos p"
    unfolding 3 skip_lines_def using length_dropWhile_le [of _ "drop (parse_pos p) (rbuf p)"] by simp
  then show ?case using str_find_bounds [OF 3(5)] by simp
next
  case (4 p nl len data_pos spans pos)
  then show ?case using str_find_bounds [OF 4(4)] by simp
qed simp

declare Parser_Next.simps [simp del]

subsection \<open>Reply encoders\<close>

definition SimpleString :: "bytes \<Rightarrow> bytes" where
  "SimpleString s = str ''+'' @ s @ crlf"

definition Resp_Error :: "bytes \<Rightarrow> bytes" where
  "Resp_Error msg = str ''-'' @ map (\<lambda>c. if c = CR \<or> c = LF then 0x20 else c) msg @ crlf"

definition int_string :: "int \<Rightarrow> bytes" where
  "int_string n = (if n < 0 then str ''-'' @ digits (nat (- n)) else digits (nat n))"

definition Resp_Integer :: "int \<Rightarrow> bytes" where
  "Resp_Integer n = str '':'' @ int_string n @ crlf"

definition BulkString :: "bytes \<Rightarrow> bytes" where
  "BulkString s = str ''$'' @ to_string (length s) @ crlf @ s @ crlf"

definition NullBulk :: bytes where
  "NullBulk = str ''$-1'' @ crlf"

definition ArrayHeader :: "nat \<Rightarrow> bytes" where
  "ArrayHeader n = str ''*'' @ to_string n @ crlf"

subsection \<open>Progress\<close>

text \<open>A call that returns a command has taken bytes off the buffer, so draining the buffer ends.\<close>

lemma NextInline_shrinks:
  "NextInline p = (kRequest args, p') \<Longrightarrow> length (rbuf p') < length (rbuf p)"
  using str_find_bounds(2) [of "[LF]" "rbuf p" 0]
  by (auto simp: NextInline_def Let_def split: option.splits if_splits)

lemma skip_lines_shorter: "length (rbuf (skip_lines p)) \<le> length (rbuf p)"
  unfolding skip_lines_def using length_dropWhile_le [of "\<lambda>c. c = CR \<or> c = LF" "drop (parse_pos p) (rbuf p)"] by simp

lemma Parser_Next_shrinks:
  "Parser_Next p = (kRequest args, p') \<Longrightarrow> length (rbuf p') < length (rbuf p)"
proof (induction p arbitrary: p' rule: Parser_Next.induct)
  case (1 p)
  note eq = Parser_Next.simps [of p]
  show ?case
  proof (cases "multibulk p < 0")
    case True
    let ?q = "skip_lines p"
    note le = skip_lines_shorter [of p]
    have "rbuf ?q \<noteq> []" using 1(4) True unfolding eq by auto
    show ?thesis
    proof (cases "rbuf ?q ! 0 = 0x2A")
      case star: True
      obtain nl n where nl: "str_find crlf (rbuf ?q) 1 = Some nl" "ParseDigits (sub (rbuf ?q) 1 (nl - 1)) = Some n" "\<not> kMaxMultibulk < n"
        using 1(4) True \<open>rbuf ?q \<noteq> []\<close> star unfolding eq by (auto simp: Let_def split: option.splits if_splits)
      show ?thesis
      proof (cases "n = 0")
        case zero: True
        have "Parser_Next (?q\<lparr>rbuf := drop (nl + 2) (rbuf ?q), parse_pos := 0\<rparr>) = (kRequest args, p')"
          using 1(4) True \<open>rbuf ?q \<noteq> []\<close> star nl zero unfolding eq by (simp add: Let_def)
        from 1(1) [OF True refl \<open>rbuf ?q \<noteq> []\<close> star nl zero this] le show ?thesis by simp
      next
        case nz: False
        have "Parser_Next (?q\<lparr>multibulk := int n, arg_spans := [], parse_pos := nl + 2\<rparr>) = (kRequest args, p')"
          using 1(4) True \<open>rbuf ?q \<noteq> []\<close> star nl nz unfolding eq by (simp add: Let_def)
        from 1(2) [OF True refl \<open>rbuf ?q \<noteq> []\<close> star nl nz this] le show ?thesis by simp
      qed
    next
      case False
      then have "NextInline ?q = (kRequest args, p')" using 1(4) True \<open>rbuf ?q \<noteq> []\<close> unfolding eq by (simp add: Let_def)
      from NextInline_shrinks [OF this] le show ?thesis by simp
    qed
  next
    case False
    have P: "\<not> length (rbuf p) \<le> parse_pos p" "\<not> rbuf p ! parse_pos p \<noteq> 0x24" using 1(4) False unfolding eq by (auto split: if_splits)
    obtain nl len where nl: "str_find crlf (rbuf p) (parse_pos p + 1) = Some nl"
      "ParseDigits (sub (rbuf p) (parse_pos p + 1) (nl - parse_pos p - 1)) = Some len" "\<not> kMaxBulkLen < len"
      "\<not> length (rbuf p) < nl + 2 + len + 2" "\<not> (rbuf p ! (nl + 2 + len) \<noteq> CR \<or> rbuf p ! (nl + 2 + len + 1) \<noteq> LF)"
      using 1(4) False P unfolding eq by (auto simp: Let_def split: option.splits if_splits)
    show ?thesis
    proof (cases "multibulk p - 1 = 0")
      case True
      then have "p' = p\<lparr>multibulk := - 1, arg_spans := [], rbuf := drop (nl + 2 + len + 2) (rbuf p), parse_pos := 0\<rparr>"
        using 1(4) False P nl unfolding eq by (simp add: Let_def)
      then show ?thesis using nl(4) by simp
    next
      case more: False
      have "Parser_Next (p\<lparr>multibulk := multibulk p - 1, arg_spans := arg_spans p @ [(nl + 2, len)], parse_pos := nl + 2 + len + 2\<rparr>)
        = (kRequest args, p')"
        using 1(4) False P nl more unfolding eq by (simp add: Let_def)
      from 1(3) [OF False P nl(1-3) refl nl(4,5) refl refl more this] show ?thesis by simp
    qed
  qed
qed

text \<open>Taking every complete command out of the buffer, as the server does after each read.\<close>

function Parser_drain :: "Parser \<Rightarrow> bytes list list \<times> NextStatus \<times> Parser" where
  "Parser_drain p = (case Parser_Next p of
      (kRequest args, q) \<Rightarrow> (case Parser_drain q of (cmds, st, r) \<Rightarrow> (args # cmds, st, r))
    | (st, q) \<Rightarrow> ([], st, q))"
  by pat_completeness auto
termination
  by (relation "measure (\<lambda>p. length (rbuf p))") (simp_all add: Parser_Next_shrinks [OF sym])

declare Parser_drain.simps [simp del]

fun recv_all :: "bytes list \<Rightarrow> Parser \<Rightarrow> bytes list list \<times> NextStatus \<times> Parser" where
  "recv_all [] p = ([], kNeedMore, p)"
| "recv_all (c # cs) p = (case Parser_drain (Feed c p) of
      (cmds, kNeedMore, q) \<Rightarrow> (case recv_all cs q of (cmds', st, r) \<Rightarrow> (cmds @ cmds', st, r))
    | (cmds, st, q) \<Rightarrow> (cmds, st, q))"

subsection \<open>Any fragmentation of the stream delivers the commands\<close>

definition enc_cmd :: "bytes list \<Rightarrow> bytes" where
  "enc_cmd args = ArrayHeader (length args) @ concat (map BulkString args)"

definition cmd_ok :: "bytes list \<Rightarrow> bool" where
  "cmd_ok args \<longleftrightarrow> args \<noteq> [] \<and> length args \<le> kMaxMultibulk \<and> (\<forall>a\<in>set args. length a \<le> kMaxBulkLen)"

abbreviation stream :: "bytes list list \<Rightarrow> bytes" where
  "stream cmds \<equiv> concat (map enc_cmd cmds)"

lemma find_crlf_take:
  "CR \<notin> set D \<Longrightarrow> find_from crlf (take n (D @ crlf @ X)) i = (if length D + 2 \<le> n then Some (i + length D) else None)"
proof (induction D arbitrary: n i)
  case Nil
  show ?case
  proof (cases n)
    case (Suc m)
    then show ?thesis by (cases m) simp_all
  qed simp
next
  case (Cons d D)
  then show ?case by (cases n) auto
qed

lemma digit_of: "d < 10 \<Longrightarrow> (48 + of_nat d :: u8) \<noteq> CR \<and> \<not> (48 + of_nat d :: u8) < 48 \<and> \<not> 57 < (48 + of_nat d :: u8) \<and> unat ((48 + of_nat d :: u8) - 48) = d"
proof -
  assume "d < 10"
  then have "d = 0 \<or> d = 1 \<or> d = 2 \<or> d = 3 \<or> d = 4 \<or> d = 5 \<or> d = 6 \<or> d = 7 \<or> d = 8 \<or> d = 9" by arith
  then show ?thesis by (elim disjE) simp_all
qed

lemma digits_props:
  "CR \<notin> set (digits n) \<and> (\<forall>c\<in>set (digits n). \<not> c < 48 \<and> \<not> 57 < c) \<and> digits_val (digits n) = n"
proof (induction n rule: digits.induct)
  case (1 n)
  show ?case
  proof (cases "n < 10")
    case True
    then show ?thesis using digit_of [OF True] by (simp add: digits.simps [of n] digits_val_def)
  next
    case False
    then show ?thesis using 1 [OF False] digit_of [of "n mod 10"] by (simp add: digits.simps [of n] digits_val_def)
  qed
qed

lemma digits_length: "n < 10 ^ k \<Longrightarrow> 0 < k \<Longrightarrow> length (digits n) \<le> k"
proof (induction n arbitrary: k rule: digits.induct)
  case (1 n)
  show ?case
  proof (cases "n < 10")
    case True
    then show ?thesis using 1(3) by (simp add: digits.simps [of n])
  next
    case False
    then obtain j where k: "k = Suc j" "0 < j" using 1(2,3) by (cases k) (auto simp: not_less intro: Suc_lessI elim!: less_SucE, case_tac nat, auto)
    then have "n div 10 < 10 ^ j" using 1(2) by (simp add: less_mult_imp_div_less mult.commute)
    then show ?thesis using 1(1) [OF False] k False by (simp add: digits.simps [of n])
  qed
qed

lemma ParseDigits_to_string: "n < 2 ^ 63 \<Longrightarrow> ParseDigits (to_string n) = Some n"
  using digits_props [of n] by (auto simp: ParseDigits_def to_string_def from_chars_def)

text \<open>
  The buffer \<open>B\<close> holds a prefix of \<open>pre @ c # D @ crlf @ X\<close>: what the parser finds when
  it looks for the end of the line that starts with \<open>c\<close>.
\<close>

lemma find_line:
  assumes B: "B @ F = pre @ c # D @ crlf @ X" and D: "CR \<notin> set D" and l: "length pre < length B"
  shows "B ! length pre = c"
    and "str_find crlf B (length pre + 1) = (if length pre + length D + 3 \<le> length B then Some (length pre + 1 + length D) else None)"
    and "length pre + length D + 3 \<le> length B \<Longrightarrow> sub B (length pre + 1) (length D) = D"
proof -
  have tB: "B = take (length B) (pre @ c # D @ crlf @ X)" by (metis B append_eq_conv_conj)
  have "(B @ F) ! length pre = c" unfolding B by simp
  then show "B ! length pre = c" using l by (simp add: nth_append)
  have d: "drop (length pre + 1) B = take (length B - (length pre + 1)) (D @ crlf @ X)"
  proof -
    have "drop (length pre + 1) (pre @ c # D @ crlf @ X) = D @ crlf @ X" by simp
    then show ?thesis by (metis drop_take tB)
  qed
  show "str_find crlf B (length pre + 1) = (if length pre + length D + 3 \<le> length B then Some (length pre + 1 + length D) else None)"
    unfolding str_find_def d find_crlf_take [OF D] using l by auto
  show "sub B (length pre + 1) (length D) = D" if "length pre + length D + 3 \<le> length B"
    unfolding sub_def d using that by simp
qed

fun spans_of :: "nat \<Rightarrow> bytes list \<Rightarrow> (nat \<times> nat) list" where
  "spans_of pos [] = []"
| "spans_of pos (a # as) = (pos + 3 + length (to_string (length a)), length a) # spans_of (pos + length (BulkString a)) as"

lemma sub_mid: "n = length xs \<Longrightarrow> sub (xs @ a @ ys) n (length a) = a"
  by (simp add: sub_def)

lemma enc_cmd_nonempty [simp]: "enc_cmd c \<noteq> []"
  by (simp add: enc_cmd_def ArrayHeader_def)

lemma spans_of_append: "spans_of pos (as @ [a]) = spans_of pos as
    @ [(pos + length (concat (map BulkString as)) + 3 + length (to_string (length a)), length a)]"
  by (induction as arbitrary: pos) (simp_all add: BulkString_def)

text \<open>The spans read off any buffer that starts with the encoded arguments.\<close>

lemma span_args_spans_of:
  "span_args (pre @ concat (map BulkString as) @ X) (spans_of (length pre) as) = as"
proof (induction as arbitrary: pre)
  case (Cons a as)
  have "pre @ (BulkString a @ concat (map BulkString as)) @ X
      = (pre @ str ''$'' @ to_string (length a) @ crlf) @ a @ crlf @ concat (map BulkString as) @ X" by (simp add: BulkString_def)
  then have a: "sub (pre @ (BulkString a @ concat (map BulkString as)) @ X) (length pre + 3 + length (to_string (length a))) (length a) = a"
    using sub_mid [of "length pre + 3 + length (to_string (length a))" "pre @ str ''$'' @ to_string (length a) @ crlf" a] by simp
  have "span_args ((pre @ BulkString a) @ concat (map BulkString as) @ X) (spans_of (length (pre @ BulkString a)) as) = as" by (rule Cons)
  then show ?case using a by (simp add: span_args_def)
qed (simp add: span_args_def)

text \<open>
  Where the parser stands in a stream of encoded commands: between two commands, or inside
  one with \<open>fin\<close> of its arguments taken and \<open>todo\<close> still expected. \<open>F\<close> has not arrived yet.
\<close>

definition between :: "Parser \<Rightarrow> bytes list list \<Rightarrow> bytes \<Rightarrow> bool" where
  "between p cmds F \<longleftrightarrow> multibulk p = - 1 \<and> parse_pos p = 0 \<and> rbuf p @ F = stream cmds"

definition inside :: "Parser \<Rightarrow> bytes list \<Rightarrow> bytes list \<Rightarrow> bytes list list \<Rightarrow> bytes \<Rightarrow> bool" where
  "inside p fin todo cmds F \<longleftrightarrow> todo \<noteq> [] \<and> multibulk p = int (length todo)
     \<and> parse_pos p = length (ArrayHeader (length (fin @ todo)) @ concat (map BulkString fin)) \<and> parse_pos p \<le> length (rbuf p)
     \<and> arg_spans p = spans_of (length (ArrayHeader (length (fin @ todo)))) fin
     \<and> rbuf p @ F = enc_cmd (fin @ todo) @ stream cmds"

definition in_stream :: "Parser \<Rightarrow> bytes list list \<Rightarrow> bytes \<Rightarrow> bool" where
  "in_stream p cmds F \<longleftrightarrow> between p cmds F \<or> (\<exists>fin todo cmds'. cmds = (fin @ todo) # cmds' \<and> inside p fin todo cmds' F)"

definition next_spec :: "NextStatus \<Rightarrow> Parser \<Rightarrow> bytes list list \<Rightarrow> bytes \<Rightarrow> bool" where
  "next_spec r p cmds F \<longleftrightarrow>
     (r = kNeedMore \<and> in_stream p cmds F \<and> (F = [] \<longrightarrow> cmds = [])) \<or>
     (\<exists>cmd cmds'. cmds = cmd # cmds' \<and> r = kRequest cmd \<and> in_stream p cmds' F)"

lemma limits: "n \<le> kMaxMultibulk \<Longrightarrow> n < 2 ^ 63 \<and> length (to_string n) \<le> 7" "n \<le> kMaxBulkLen \<Longrightarrow> n < 2 ^ 63 \<and> length (to_string n) \<le> 9"
  using digits_length [of n 7] digits_length [of n 9] by (simp_all add: kMaxMultibulk_def kMaxBulkLen_def to_string_def)

lemma to_string_CR: "CR \<notin> set (to_string n)"
  using digits_props [of n] by (simp add: to_string_def)

lemma skip_between:
  assumes "between p cmds F"
  shows "skip_lines p = p"
proof -
  have "rbuf p = [] \<or> rbuf p ! 0 = 0x2A"
  proof (cases "rbuf p")
    case (Cons b B)
    then have "hd (stream cmds) = b" using assms by (metis between_def append_Cons list.sel(1))
    moreover have "cmds \<noteq> []" using assms Cons by (auto simp: between_def)
    ultimately show ?thesis using Cons by (cases cmds) (auto simp: enc_cmd_def ArrayHeader_def)
  qed simp
  then have "dropWhile (\<lambda>c. c = CR \<or> c = LF) (rbuf p) = rbuf p" by (cases "rbuf p") auto
  then show ?thesis using assms by (simp add: skip_lines_def between_def)
qed

lemma inside_bulk:
  assumes i: "inside p fin (a # todo) cmds F" and a: "length a \<le> kMaxBulkLen" and l: "parse_pos p < length (rbuf p)"
  shows "rbuf p ! parse_pos p = 0x24"
    and "str_find crlf (rbuf p) (parse_pos p + 1) =
       (if parse_pos p + length (to_string (length a)) + 3 \<le> length (rbuf p) then Some (parse_pos p + 1 + length (to_string (length a))) else None)"
    and "parse_pos p + length (to_string (length a)) + 3 \<le> length (rbuf p) \<Longrightarrow>
      ParseDigits (sub (rbuf p) (parse_pos p + 1) (length (to_string (length a)))) = Some (length a)"
    and "parse_pos p + length (BulkString a) \<le> length (rbuf p) \<Longrightarrow>
      rbuf p ! (parse_pos p + 3 + length (to_string (length a)) + length a) = CR \<and>
      rbuf p ! (parse_pos p + 3 + length (to_string (length a)) + length a + 1) = LF"
proof -
  let ?D = "to_string (length a)"
  let ?pre = "ArrayHeader (length (fin @ a # todo)) @ concat (map BulkString fin)"
  let ?X = "a @ crlf @ concat (map BulkString todo) @ stream cmds"
  have pos: "parse_pos p = length ?pre" using i by (simp add: inside_def)
  have B: "rbuf p @ F = ?pre @ 0x24 # ?D @ crlf @ ?X"
    using i by (simp add: inside_def enc_cmd_def BulkString_def)
  note fl = find_line [OF B to_string_CR l [unfolded pos]]
  show "rbuf p ! parse_pos p = 0x24" using fl(1) by (simp only: pos)
  show "str_find crlf (rbuf p) (parse_pos p + 1) =
       (if parse_pos p + length ?D + 3 \<le> length (rbuf p) then Some (parse_pos p + 1 + length ?D) else None)"
    using fl(2) by (simp only: pos)
  show "ParseDigits (sub (rbuf p) (parse_pos p + 1) (length ?D)) = Some (length a)" if "parse_pos p + length ?D + 3 \<le> length (rbuf p)"
    using fl(3) that limits(2) [OF a] ParseDigits_to_string by (simp only: pos) 
  assume b: "parse_pos p + length (BulkString a) \<le> length (rbuf p)"
  have len: "length (BulkString a) = length ?D + length a + 5" by (simp add: BulkString_def)
  have Q: "rbuf p @ F = (?pre @ 0x24 # ?D @ crlf @ a) @ CR # LF # concat (map BulkString todo) @ stream cmds" using B by simp
  let ?n = "parse_pos p + 3 + length ?D + length a"
  have n: "?n = length (?pre @ 0x24 # ?D @ crlf @ a)" unfolding pos by simp
  have "(rbuf p @ F) ! ?n = CR" "(rbuf p @ F) ! (?n + 1) = LF" unfolding Q n by (simp_all only: nth_append_length nth_append_length_plus nth_Cons_0 nth_Cons_Suc One_nat_def)
  then show "rbuf p ! ?n = CR \<and> rbuf p ! (?n + 1) = LF" using b len by (simp add: nth_append)
qed

lemma length_ArrayHeader: "length (ArrayHeader n) = length (to_string n) + 3"
  by (simp add: ArrayHeader_def)

lemma between_step:
  assumes b: "between p cmds F" and ok: "\<forall>c\<in>set cmds. cmd_ok c"
  shows "(Parser_Next p = (kNeedMore, p) \<and> (F = [] \<longrightarrow> cmds = [])) \<or>
    (\<exists>cmd cmds' p'. cmds = cmd # cmds' \<and> Parser_Next p = Parser_Next p' \<and> inside p' [] cmd cmds' F)"
proof (cases "rbuf p = []")
  case True
  then have "Parser_Next p = (kNeedMore, p)" using b skip_between [OF b] by (simp add: Parser_Next.simps [of p] between_def)
  then show ?thesis using True b by (cases cmds) (auto simp: between_def)
next
  case False
  then obtain cmd cmds' where c: "cmds = cmd # cmds'" using b by (cases cmds) (auto simp: between_def)
  let ?D = "to_string (length cmd)"
  have n: "cmd \<noteq> []" "length cmd \<le> kMaxMultibulk" using ok c by (auto simp: cmd_ok_def)
  have B: "rbuf p @ F = [] @ 0x2A # ?D @ crlf @ concat (map BulkString cmd) @ stream cmds'"
    using b by (simp add: between_def c enc_cmd_def ArrayHeader_def)
  have ne: "length ([] :: bytes) < length (rbuf p)" using False by simp
  note fl = find_line [OF B to_string_CR ne, unfolded list.size(3) add_0]
  have eq: "Parser_Next p = (case str_find crlf (rbuf p) 1 of
               None \<Rightarrow> (if 32 < length (rbuf p) then kError too_big else kNeedMore, p)
             | Some nl \<Rightarrow>
                 (case ParseDigits (sub (rbuf p) 1 (nl - 1)) of
                    None \<Rightarrow> (kError bad_multibulk, p)
                  | Some n \<Rightarrow>
                      if kMaxMultibulk < n then (kError bad_multibulk, p)
                      else if n = 0 then Parser_Next (p\<lparr>rbuf := drop (nl + 2) (rbuf p), parse_pos := 0\<rparr>)
                      else Parser_Next (p\<lparr>multibulk := int n, arg_spans := [], parse_pos := nl + 2\<rparr>)))"
    using b False fl(1) skip_between [OF b] by (simp add: Parser_Next.simps [of p] between_def Let_def)
  show ?thesis
  proof (cases "length ?D + 3 \<le> length (rbuf p)")
    case True
    let ?p = "p\<lparr>multibulk := int (length cmd), arg_spans := [], parse_pos := length ?D + 3\<rparr>"
    have "ParseDigits (sub (rbuf p) 1 (length ?D)) = Some (length cmd)"
      using fl(3) [OF True] ParseDigits_to_string limits(1) [OF n(2)] by simp
    then have "Parser_Next p = Parser_Next ?p"
      unfolding eq fl(2) if_P [OF True] using n by (simp add: numeral_3_eq_3)
    moreover have "inside ?p [] cmd cmds' F"
      using True n b by (simp add: inside_def c between_def length_ArrayHeader)
    ultimately show ?thesis using c by blast
  next
    case short: False
    then have "Parser_Next p = (kNeedMore, p)" unfolding eq fl(2) using limits(1) [OF n(2)] by simp
    moreover have "F \<noteq> []" using short B by auto
    ultimately show ?thesis by blast
  qed
qed

lemma prefix_split:
  assumes "B @ F = X @ Y" and "length X \<le> length B"
  shows "B = X @ drop (length X) B \<and> drop (length X) B @ F = Y"
  using assms by (auto simp: append_eq_append_conv2)

lemma inside_step:
  assumes i: "inside p fin (a # todo) cmds F" and a: "length a \<le> kMaxBulkLen"
  shows "(Parser_Next p = (kNeedMore, p) \<and> F \<noteq> []) \<or>
    (\<exists>p'. todo \<noteq> [] \<and> Parser_Next p = Parser_Next p' \<and> inside p' (fin @ [a]) todo cmds F) \<or>
    (\<exists>p'. todo = [] \<and> Parser_Next p = (kRequest (fin @ [a]), p') \<and> between p' cmds F)"
proof (cases "parse_pos p < length (rbuf p)")
  case False
  then have "Parser_Next p = (kNeedMore, p)" using i by (simp add: Parser_Next.simps [of p] inside_def)
  moreover have "F \<noteq> []"
  proof
    assume "F = []"
    then have "length (rbuf p) = length (enc_cmd (fin @ a # todo) @ stream cmds)" using i by (metis append_Nil2 inside_def)
    then show False using False i by (simp add: inside_def enc_cmd_def BulkString_def)
  qed
  ultimately show ?thesis by blast
next
  case l: True
  let ?D = "to_string (length a)"
  note ib = inside_bulk [OF i a l]
  have st: "\<not> multibulk p < 0" "\<not> length (rbuf p) \<le> parse_pos p" using i l by (simp_all add: inside_def)
  note eq = Parser_Next.simps [of p, unfolded if_not_P [OF st(1)] if_not_P [OF st(2)] ib(1) ib(2)]
  show ?thesis
  proof (cases "parse_pos p + length (BulkString a) \<le> length (rbuf p)")
    case False
    have "Parser_Next p = (kNeedMore, p)"
    proof (cases "parse_pos p + length ?D + 3 \<le> length (rbuf p)")
      case True
      then show ?thesis unfolding eq using ib(3) [OF True] a False by (simp add: BulkString_def Let_def)
    next
      case short: False
      then have "\<not> 32 < length (rbuf p) - parse_pos p" using limits(2) [OF a, THEN conjunct2] by linarith
      then show ?thesis unfolding eq using short by simp
    qed
    moreover have "F \<noteq> []"
    proof
      assume "F = []"
      then have "length (rbuf p) = length (enc_cmd (fin @ a # todo) @ stream cmds)" using i by (metis append_Nil2 inside_def)
      then show False using False i by (simp add: inside_def enc_cmd_def)
    qed
    ultimately show ?thesis by blast
  next
    case True
    have len: "length (BulkString a) = length ?D + length a + 5" by (simp add: BulkString_def)
    let ?pos = "parse_pos p + length (BulkString a)" and ?spans = "arg_spans p @ [(parse_pos p + length ?D + 3, length a)]"
    have fin: "parse_pos p + length ?D + 3 \<le> length (rbuf p)" using True len by simp
    have nx: "Parser_Next p = (if multibulk p - 1 = 0
       then (kRequest (span_args (rbuf p) ?spans), p\<lparr>multibulk := - 1, arg_spans := [], rbuf := drop ?pos (rbuf p), parse_pos := 0\<rparr>)
       else Parser_Next (p\<lparr>multibulk := multibulk p - 1, arg_spans := ?spans, parse_pos := ?pos\<rparr>))"
      unfolding eq if_P [OF fin] using ib(3) [OF fin] ib(4) [OF True] a True by (simp add: len Let_def ac_simps eval_nat_numeral)
    have spans: "?spans = spans_of (length (ArrayHeader (length (fin @ a # todo)))) (fin @ [a])"
      using i by (simp add: inside_def spans_of_append)
    show ?thesis
    proof (cases "todo = []")
      case last: True
      let ?H = "ArrayHeader (length (fin @ [a]))" and ?C = "concat (map BulkString (fin @ [a]))"
      have B: "rbuf p @ F = (?H @ ?C) @ stream cmds" and pos: "?pos = length (?H @ ?C)"
        using i last by (simp_all add: inside_def enc_cmd_def)
      from B have d: "rbuf p = (?H @ ?C) @ drop ?pos (rbuf p)" "drop ?pos (rbuf p) @ F = stream cmds"
        using prefix_split [OF B] True unfolding pos by blast+
      have "span_args (rbuf p) ?spans = fin @ [a]"
        using span_args_spans_of [of ?H "fin @ [a]" "drop ?pos (rbuf p)"] d(1) spans last by simp
      moreover have "multibulk p - 1 = 0" using i last by (simp add: inside_def)
      ultimately show ?thesis using nx last d(2) by (auto simp: between_def)
    next
      case more: False
      have "inside (p\<lparr>multibulk := multibulk p - 1, arg_spans := ?spans, parse_pos := ?pos\<rparr>) (fin @ [a]) todo cmds F"
        using i more spans True by (simp add: inside_def)
      moreover have "multibulk p - 1 \<noteq> 0" using i more by (simp add: inside_def)
      ultimately show ?thesis using nx more by auto
    qed
  qed
qed

lemma inside_spec:
  assumes "inside p fin todo cmds F" and "\<forall>a\<in>set todo. length a \<le> kMaxBulkLen"
  shows "next_spec (fst (Parser_Next p)) (snd (Parser_Next p)) ((fin @ todo) # cmds) F"
  using assms
proof (induction todo arbitrary: p fin)
  case Nil
  then show ?case by (simp add: inside_def)
next
  case (Cons a todo)
  have a: "length a \<le> kMaxBulkLen" using Cons.prems(2) by simp
  consider "Parser_Next p = (kNeedMore, p)" "F \<noteq> []"
    | p' where "Parser_Next p = Parser_Next p'" "inside p' (fin @ [a]) todo cmds F"
    | p' where "todo = []" "Parser_Next p = (kRequest (fin @ [a]), p')" "between p' cmds F"
    using inside_step [OF Cons.prems(1) a] by blast
  then show ?case
  proof cases
    case 1
    then show ?thesis using Cons.prems(1) unfolding next_spec_def in_stream_def by auto
  next
    case 2
    then show ?thesis using Cons.IH [OF 2(2)] Cons.prems(2) by simp
  next
    case 3
    then show ?thesis unfolding next_spec_def in_stream_def by auto
  qed
qed

lemma Parser_Next_spec:
  assumes p: "in_stream p cmds F" and ok: "\<forall>c\<in>set cmds. cmd_ok c"
  shows "next_spec (fst (Parser_Next p)) (snd (Parser_Next p)) cmds F"
proof -
  have inside: "next_spec (fst (Parser_Next q)) (snd (Parser_Next q)) cmds F"
    if "cmds = (fin @ todo) # cmds'" "inside q fin todo cmds' F" for q fin todo cmds'
    using inside_spec [OF that(2)] ok that(1) by (simp add: cmd_ok_def)
  show ?thesis
  proof (cases "between p cmds F")
    case True
    consider "Parser_Next p = (kNeedMore, p)" "F = [] \<longrightarrow> cmds = []"
      | cmd cmds' p' where "cmds = cmd # cmds'" "Parser_Next p = Parser_Next p'" "inside p' [] cmd cmds' F"
      using between_step [OF True ok] by blast
    then show ?thesis
    proof cases
      case 1
      then show ?thesis using p unfolding next_spec_def by simp
    next
      case 2
      then show ?thesis using inside [of "[]" cmd cmds' p'] by simp
    qed
  next
    case False
    then obtain fin todo cmds' where "cmds = (fin @ todo) # cmds'" "inside p fin todo cmds' F" using p unfolding in_stream_def by blast
    then show ?thesis by (rule inside)
  qed
qed

lemma Parser_drain_spec:
  assumes "in_stream p cmds F" and "\<forall>c\<in>set cmds. cmd_ok c"
  shows "\<exists>got rest q. cmds = got @ rest \<and> Parser_drain p = (got, kNeedMore, q) \<and> in_stream q rest F \<and> (F = [] \<longrightarrow> rest = [])"
  using assms
proof (induction p arbitrary: cmds rule: Parser_drain.induct)
  case (1 p)
  obtain r q where n: "Parser_Next p = (r, q)" by fastforce
  have s: "next_spec r q cmds F" using Parser_Next_spec [OF 1(2,3)] n by simp
  then consider "r = kNeedMore" "in_stream q cmds F" "F = [] \<longrightarrow> cmds = []"
    | cmd cmds' where "cmds = cmd # cmds'" "r = kRequest cmd" "in_stream q cmds' F"
    unfolding next_spec_def by blast
  then show ?case
  proof cases
    case 1
    then show ?thesis by (auto simp: Parser_drain.simps [of p] n)
  next
    case 2
    obtain got rest q' where g: "cmds' = got @ rest" "Parser_drain q = (got, kNeedMore, q')" "in_stream q' rest F" "F = [] \<longrightarrow> rest = []"
      using "1.IH" [OF n [symmetric] 2(2,3)] 1(3) 2(1) by auto
    then have "Parser_drain p = (cmd # got, kNeedMore, q')" by (simp add: Parser_drain.simps [of p] n 2(2))
    then show ?thesis using g 2(1) by auto
  qed
qed

lemma in_stream_feed:
  assumes "in_stream p cmds (c @ F)"
  shows "in_stream (Feed c p) cmds F"
  using assms unfolding in_stream_def between_def inside_def Feed_def by fastforce

lemma recv_all_spec:
  assumes "in_stream p cmds (concat cs)" and "\<forall>c\<in>set cmds. cmd_ok c" and "cs = [] \<Longrightarrow> cmds = []"
  shows "\<exists>q. recv_all cs p = (cmds, kNeedMore, q) \<and> in_stream q [] []"
  using assms
proof (induction cs arbitrary: p cmds)
  case (Cons c cs)
  obtain got rest q where g: "cmds = got @ rest" "Parser_drain (Feed c p) = (got, kNeedMore, q)" "in_stream q rest (concat cs)"
    "concat cs = [] \<longrightarrow> rest = []"
    using Parser_drain_spec [OF in_stream_feed Cons.prems(2)] Cons.prems(1) by (metis concat.simps(2))
  have "\<exists>q'. recv_all cs q = (rest, kNeedMore, q') \<and> in_stream q' [] []"
    by (rule Cons.IH [OF g(3)]) (use Cons.prems(2) g(1,4) in auto)
  then show ?case using g by auto
qed auto

text \<open>
  C14: a client that sends its commands encoded with \<^verbatim>\<open>ArrayHeader\<close> and \<^verbatim>\<open>BulkString\<close>
  (at least one argument each, within the limits) has exactly these commands delivered, in
  order, however the bytes are cut into reads; afterwards the parser holds no byte.
\<close>

theorem resp_fragmentation:
  assumes "concat cs = concat (map (\<lambda>args. ArrayHeader (length args) @ concat (map BulkString args)) cmds)"
    and "\<forall>args\<in>set cmds. args \<noteq> [] \<and> length args \<le> kMaxMultibulk \<and> (\<forall>a\<in>set args. length a \<le> kMaxBulkLen)"
  shows "\<exists>p. recv_all cs NewParser = (cmds, kNeedMore, p) \<and> rbuf p = []"
proof -
  have s: "concat cs = stream cmds" using assms(1) by (simp add: enc_cmd_def [abs_def])
  have ok: "\<forall>c\<in>set cmds. cmd_ok c" using assms(2) by (simp add: cmd_ok_def)
  have i: "in_stream NewParser cmds (concat cs)" using s by (simp add: in_stream_def between_def NewParser_def)
  have e: "cmds = []" if "cs = []" using that s by (cases cmds) auto
  from recv_all_spec [OF i ok e] obtain q where "recv_all cs NewParser = (cmds, kNeedMore, q)" "in_stream q [] []" by blast
  then show ?thesis by (auto simp: in_stream_def between_def)
qed

theorem resp_fragmentation_witness:
  "\<exists>p. recv_all [str ''*2'', crlf @ str ''$3'' @ crlf @ str ''GE'', str ''T'' @ crlf @ str ''$1'' @ [CR], [LF] @ str ''k'' @ crlf] NewParser
     = ([[str ''GET'', str ''k'']], kNeedMore, p) \<and> rbuf p = []"
  by (rule resp_fragmentation)
     (simp_all add: ArrayHeader_def BulkString_def to_string_def digits.simps kMaxMultibulk_def kMaxBulkLen_def)

text \<open>
  C28: a call of \<^verbatim>\<open>Next\<close> that returns a command takes at least one byte off the
  buffer, so the loop that drains the buffer after a read ends for every input.
\<close>

theorem resp_progress:
  assumes "Parser_Next p = (kRequest args, p')"
  shows "length (rbuf p') < length (rbuf p)"
  using assms by (rule Parser_Next_shrinks)

lemma find_LF: "LF \<notin> set s \<Longrightarrow> find_from [LF] (s @ LF # t) i = Some (i + length s)"
  by (induction s arbitrary: i) auto

lemma split_words_blank:
  assumes "\<forall>c\<in>set s. is_blank c"
  shows "split_words s = []"
proof -
  have d: "dropWhile is_blank s = []" using assms by simp
  show ?thesis unfolding split_words.simps [of s] Let_def d by (simp add: split_words.simps [of "[]"])
qed

lemma blank_line:
  assumes s: "s \<noteq> []" "\<forall>c\<in>set s. is_blank c"
  shows "Parser_Next (Feed (s @ crlf @ t) NewParser) = (kNeedMore, Feed t NewParser)"
proof -
  let ?p = "Feed (s @ crlf @ t) NewParser"
  obtain b s' where b: "s = b # s'" "is_blank b" using s by (cases s) auto
  have nb: "c \<noteq> LF" "c \<noteq> CR" "c \<noteq> 0x2A" if "is_blank c" for c using that by (auto simp: is_blank_def)
  have "LF \<notin> set (s @ [CR])" using s(2) nb(1) by auto
  from find_LF [OF this, of t 0] have f: "str_find [LF] (s @ crlf @ t) 0 = Some (Suc (length s))" by (simp add: str_find_def)
  have q: "skip_lines ?p = ?p" using b nb by (simp add: skip_lines_def Feed_def NewParser_def)
  have "Parser_Next ?p = NextInline ?p"
    unfolding Parser_Next.simps [of ?p] q Let_def using b nb [of b] by (simp add: Feed_def NewParser_def)
  also have "\<dots> = (kNeedMore, Feed t NewParser)"
    using f split_words_blank [OF s(2)]
    by (simp add: NextInline_def Feed_def NewParser_def Let_def nth_append)
  finally show ?thesis .
qed

text \<open>
  C36: a line of blanks in front of a pipelined command makes \<^verbatim>\<open>Next\<close> report that it
  needs more bytes although a complete command is in the buffer: a second call returns it
  without another byte.
\<close>

theorem resp_blank_line_stalls:
  assumes "s \<noteq> []" and "\<forall>c\<in>set s. c = 0x20 \<or> c = 0x09"
    and "args \<noteq> []" and "length args \<le> kMaxMultibulk" and "\<forall>a\<in>set args. length a \<le> kMaxBulkLen"
  shows "let p = Feed (s @ crlf @ ArrayHeader (length args) @ concat (map BulkString args)) NewParser
         in fst (Parser_Next p) = kNeedMore \<and> fst (Parser_Next (snd (Parser_Next p))) = kRequest args"
proof -
  let ?q = "Feed (enc_cmd args) NewParser"
  have "\<forall>c\<in>set s. is_blank c" using assms(2) by (simp add: is_blank_def)
  from blank_line [OF assms(1) this, of "enc_cmd args"]
  have 1: "Parser_Next (Feed (s @ crlf @ enc_cmd args) NewParser) = (kNeedMore, ?q)" .
  have "between ?q [args] []" by (simp add: between_def Feed_def NewParser_def)
  then have "in_stream ?q [args] []" by (simp add: in_stream_def)
  from Parser_Next_spec [OF this] have "fst (Parser_Next ?q) = kRequest args"
    using assms(3-5) by (auto simp: next_spec_def cmd_ok_def)
  then show ?thesis using 1 by (simp add: Let_def enc_cmd_def)
qed

theorem resp_blank_line_stalls_witness:
  "let p = Feed (str '' '' @ crlf @ str ''*1'' @ crlf @ str ''$4'' @ crlf @ str ''PING'' @ crlf) NewParser
   in fst (Parser_Next p) = kNeedMore \<and> fst (Parser_Next (snd (Parser_Next p))) = kRequest [str ''PING'']"
  using resp_blank_line_stalls [of "str '' ''" "[str ''PING'']"]
  by (simp add: ArrayHeader_def BulkString_def to_string_def digits.simps kMaxMultibulk_def kMaxBulkLen_def)

theorem resp_progress_witness:
  "\<exists>p. Parser_Next (Feed (str ''*1'' @ crlf @ str ''$4'' @ crlf @ str ''PING'' @ crlf) NewParser) = (kRequest [str ''PING''], p) \<and>
     length (rbuf p) < 14"
proof -
  let ?q = "Feed (enc_cmd [str ''PING'']) NewParser"
  have "between ?q [[str ''PING'']] []" by (simp add: between_def Feed_def NewParser_def)
  then have "in_stream ?q [[str ''PING'']] []" by (simp add: in_stream_def)
  from Parser_Next_spec [OF this] obtain p where p: "Parser_Next ?q = (kRequest [str ''PING''], p)"
    by (auto simp: next_spec_def cmd_ok_def kMaxMultibulk_def kMaxBulkLen_def prod_eq_iff)
  from resp_progress [OF p] p show ?thesis
    by (simp add: enc_cmd_def ArrayHeader_def BulkString_def to_string_def digits.simps Feed_def NewParser_def)
qed

subsection \<open>Any input keeps the parser within its buffer\<close>







end
