(* ===== verification/Server.thy ===== *)
theory Server
  imports Resp
begin

text \<open>
  The TCP server (\<^verbatim>\<open>include/bedrockkv/server.h\<close>, \<^verbatim>\<open>src/server.cpp\<close>): the
  command layer \<^verbatim>\<open>Execute\<close> over the operations of a database, one connection's
  buffers, and the event loop. What the kernel answers to the socket calls made while one
  event is handled is an argument of the handlers; a call with no answer left would block.
\<close>

subsection \<open>Commands\<close>

text \<open>The methods of \<^verbatim>\<open>DB\<close> the server calls.\<close>

record 'db DbOps =
  db_put :: "bytes \<Rightarrow> bytes \<Rightarrow> 'db \<Rightarrow> Status \<times> 'db"
  db_get :: "bytes \<Rightarrow> 'db \<Rightarrow> Status \<times> bytes \<times> 'db"
  db_del :: "bytes \<Rightarrow> 'db \<Rightarrow> Status \<times> 'db"

definition Lower :: "bytes \<Rightarrow> bytes" where
  "Lower s = map (\<lambda>c. if 0x41 \<le> c \<and> c \<le> 0x5A then c + (0x61 - 0x41) else c) s"

definition wrong_args :: "string \<Rightarrow> bytes" where
  "wrong_args c = Resp_Error (str ''ERR wrong number of arguments for '' @ [39] @ str c @ [39] @ str '' command'')"

fun del_loop :: "'db DbOps \<Rightarrow> bytes list \<Rightarrow> int \<Rightarrow> 'db \<Rightarrow> int \<times> 'db" where
  "del_loop ops [] removed db = (removed, db)"
| "del_loop ops (k # ks) removed db =
     (case db_get ops k db of (s, sink, db1) \<Rightarrow>
        if ok s
        then (case db_del ops k db1 of (s2, db2) \<Rightarrow> del_loop ops ks (if ok s2 then removed + 1 else removed) db2)
        else del_loop ops ks removed db1)"

fun exists_loop :: "'db DbOps \<Rightarrow> bytes list \<Rightarrow> int \<Rightarrow> 'db \<Rightarrow> int \<times> 'db" where
  "exists_loop ops [] found db = (found, db)"
| "exists_loop ops (k # ks) found db =
     (case db_get ops k db of (s, sink, db1) \<Rightarrow> exists_loop ops ks (if ok s then found + 1 else found) db1)"

definition Execute :: "'db DbOps \<Rightarrow> bytes list \<Rightarrow> 'db \<Rightarrow> bytes \<times> 'db" where
  "Execute ops args db =
     (if args = [] then (Resp_Error (str ''ERR empty command''), db)
      else let cmd = Lower (args ! 0); argc = length args
      in if cmd = str ''ping'' then (if argc = 1 then SimpleString (str ''PONG'') else BulkString (args ! 1), db)
      else if cmd = str ''echo'' then (if argc \<noteq> 2 then wrong_args ''echo'' else BulkString (args ! 1), db)
      else if cmd = str ''set'' then
        (if argc \<noteq> 3 then (wrong_args ''set'', db)
         else case db_put ops (args ! 1) (args ! 2) db of (s, db') \<Rightarrow>
           (if ok s then SimpleString (str ''OK'') else Resp_Error (str ''ERR '' @ message s), db'))
      else if cmd = str ''get'' then
        (if argc \<noteq> 2 then (wrong_args ''get'', db)
         else case db_get ops (args ! 1) db of (s, value, db') \<Rightarrow>
           (if ok s then BulkString value
            else if code s = kNotFound then NullBulk
            else Resp_Error (str ''ERR '' @ message s), db'))
      else if cmd = str ''del'' then
        (if argc < 2 then (wrong_args ''del'', db)
         else case del_loop ops (drop 1 args) 0 db of (n, db') \<Rightarrow> (Resp_Integer n, db'))
      else if cmd = str ''exists'' then
        (if argc < 2 then (wrong_args ''exists'', db)
         else case exists_loop ops (drop 1 args) 0 db of (n, db') \<Rightarrow> (Resp_Integer n, db'))
      else (Resp_Error (str ''ERR unknown command '' @ [39] @ cmd @ [39]), db))"

subsection \<open>One connection\<close>

definition kMaxOutBytes :: nat where "kMaxOutBytes = 64 * 2 ^ 20"
definition kMaxInBytes :: nat where "kMaxInBytes = 64 * 2 ^ 20"
definition kMaxConns :: nat where "kMaxConns = 4096"

record Conn =
  parser :: Parser
  out :: bytes
  out_off :: nat
  closing :: bool

definition NewConn :: Conn where
  "NewConn = \<lparr>parser = NewParser, out = [], out_off = 0, closing = False\<rparr>"

text \<open>Answers to \<^verbatim>\<open>::read\<close> and \<^verbatim>\<open>::write\<close> on a non-blocking socket.\<close>

datatype rsock = Recv bytes | RecvEof | RecvEintr | RecvEagain | RecvErr
datatype wsock = Sent nat | SentEintr | SentEagain | SentErr

text \<open>The inner loop of \<^verbatim>\<open>HandleReadable\<close>: every complete request of the buffer.\<close>

function request_loop :: "'db DbOps \<Rightarrow> Conn \<Rightarrow> 'db \<Rightarrow> Conn \<times> 'db" where
  "request_loop ops c db = (case Parser_Next (parser c) of
      (kNeedMore, p) \<Rightarrow> (c\<lparr>parser := p\<rparr>, db)
    | (kError e, p) \<Rightarrow> (c\<lparr>parser := p, out := out c @ Resp_Error (str ''ERR '' @ e), closing := True\<rparr>, db)
    | (kRequest args, p) \<Rightarrow>
        (case Execute ops args db of (r, db') \<Rightarrow>
           let c' = c\<lparr>parser := p, out := out c @ r\<rparr>
           in if length (out c') - out_off c' > kMaxOutBytes then (c'\<lparr>closing := True\<rparr>, db')
              else request_loop ops c' db'))"
  by pat_completeness auto
termination
  by (relation "measure (\<lambda>(ops, c, db). length (rbuf (parser c)))") (auto dest!: Parser_Next_shrinks [OF sym])

declare request_loop.simps [simp del]

text \<open>The outer loop: \<open>None\<close> when the handler returns false, with the answers left over.\<close>

fun read_conn_loop :: "'db DbOps \<Rightarrow> rsock list \<Rightarrow> Conn \<Rightarrow> 'db \<Rightarrow> Conn option \<times> 'db" where
  "read_conn_loop ops [] c db = (Some c, db)"
| "read_conn_loop ops (RecvEintr # as) c db = read_conn_loop ops as c db"
| "read_conn_loop ops (RecvEagain # as) c db = (Some c, db)"
| "read_conn_loop ops (RecvErr # as) c db = (None, db)"
| "read_conn_loop ops (RecvEof # as) c db = (None, db)"
| "read_conn_loop ops (Recv b # as) c db =
     (let c1 = c\<lparr>parser := Feed b (parser c)\<rparr>
      in if length (rbuf (parser c1)) > kMaxInBytes then (Some (c1\<lparr>closing := True\<rparr>), db)
         else case request_loop ops c1 db of (c2, db2) \<Rightarrow>
           if closing c2 then (Some c2, db2)
           else if length (out c2) - out_off c2 > kMaxOutBytes div 2 then (Some c2, db2)
           else read_conn_loop ops as c2 db2)"

text \<open>
  \<^verbatim>\<open>FlushOut\<close>: whether the connection lives, whether \<^verbatim>\<open>EPOLLOUT\<close> is armed, the bytes
  the socket took, and the connection. \<open>ctl\<close> is the success of \<^verbatim>\<open>epoll_ctl\<close>.
\<close>

fun flush_loop :: "wsock list \<Rightarrow> Conn \<Rightarrow> wsock \<times> bytes \<times> Conn" where
  "flush_loop as c =
     (if out_off c < length (out c)
      then case as of
        [] \<Rightarrow> (SentEagain, [], c)
      | Sent n # as' \<Rightarrow>
          (let data = take n (drop (out_off c) (out c))
           in case flush_loop as' (c\<lparr>out_off := out_off c + length data\<rparr>) of (r, sent, c') \<Rightarrow> (r, data @ sent, c'))
      | SentEintr # as' \<Rightarrow> flush_loop as' c
      | a # as' \<Rightarrow> (a, [], c)
      else (Sent 0, [], c))"

declare flush_loop.simps [simp del]

record Flushed =
  alive :: bool
  pollout :: bool
  sent :: bytes

definition FlushOut :: "bool \<Rightarrow> wsock list \<Rightarrow> Conn \<Rightarrow> Flushed \<times> Conn" where
  "FlushOut ctl as c = (case flush_loop as c of
      (SentEagain, d, c') \<Rightarrow> (\<lparr>alive = ctl, pollout = True, sent = d\<rparr>, c')
    | (SentErr, d, c') \<Rightarrow> (\<lparr>alive = False, pollout = False, sent = d\<rparr>, c')
    | (_, d, c') \<Rightarrow>
        (let c2 = (if out_off c' > 0 then c'\<lparr>out := drop (out_off c') (out c'), out_off := 0\<rparr> else c')
         in (\<lparr>alive = (\<not> closing c2 \<and> ctl), pollout = False, sent = d\<rparr>, c2)))"

definition HandleReadable :: "'db DbOps \<Rightarrow> rsock list \<Rightarrow> bool \<Rightarrow> wsock list \<Rightarrow> Conn \<Rightarrow> 'db \<Rightarrow> Flushed \<times> Conn \<times> 'db" where
  "HandleReadable ops rs ctl as c db = (case read_conn_loop ops rs c db of
      (None, db') \<Rightarrow> (\<lparr>alive = False, pollout = False, sent = []\<rparr>, c, db')
    | (Some c', db') \<Rightarrow> (case FlushOut ctl as c' of (r, c2) \<Rightarrow> (r, c2, db')))"

definition HandleWritable :: "bool \<Rightarrow> wsock list \<Rightarrow> Conn \<Rightarrow> Flushed \<times> Conn" where
  "HandleWritable ctl as c = FlushOut ctl as c"

subsection \<open>The event loop\<close>

text \<open>
  The connections by descriptor, with the interest registered with epoll, and everything
  written so far to each descriptor.
\<close>

record Server =
  conns :: "(int \<times> Conn) list"
  out_armed :: "int \<Rightarrow> bool"
  wire :: "int \<Rightarrow> bytes"

datatype accepted = Accepted int bool | AcceptEintr

datatype event =
    WakeEvent
  | ListenEvent "accepted list"
  | ConnEvent (ev_fd: int) (ev_err: bool) (ev_out: bool) (ev_in: bool) (ev_reads: "rsock list")
      (ev_writes1: "wsock list") (ev_writes2: "wsock list") (ev_ctl1: bool) (ev_ctl2: bool)

definition CloseConn :: "int \<Rightarrow> Server \<Rightarrow> Server" where
  "CloseConn fd sv = sv\<lparr>conns := filter (\<lambda>x. fst x \<noteq> fd) (conns sv)\<rparr>"

definition set_conn :: "int \<Rightarrow> Flushed \<Rightarrow> Conn \<Rightarrow> Server \<Rightarrow> Server" where
  "set_conn fd r c sv = sv\<lparr>conns := map (\<lambda>(f, x). (f, if f = fd then c else x)) (conns sv),
     out_armed := (out_armed sv)(fd := pollout r), wire := (wire sv)(fd := wire sv fd @ sent r)\<rparr>"

fun AcceptNewClients :: "accepted list \<Rightarrow> Server \<Rightarrow> Server" where
  "AcceptNewClients [] sv = sv"
| "AcceptNewClients (AcceptEintr # as) sv = AcceptNewClients as sv"
| "AcceptNewClients (Accepted fd ctl # as) sv =
     AcceptNewClients as
       (if length (conns sv) \<ge> kMaxConns \<or> \<not> ctl then sv
        else if fd \<in> fst ` set (conns sv) then sv
        else sv\<lparr>conns := conns sv @ [(fd, NewConn)], out_armed := (out_armed sv)(fd := False), wire := (wire sv)(fd := [])\<rparr>)"

text \<open>One event of a batch; \<open>None\<close> when \<^verbatim>\<open>conns_.at(fd)\<close> throws.\<close>

definition handle_event :: "'db DbOps \<Rightarrow> event \<Rightarrow> Server \<times> 'db \<Rightarrow> (Server \<times> 'db) option" where
  "handle_event ops ev st = (case st of (sv, db) \<Rightarrow> case ev of
      WakeEvent \<Rightarrow> Some (sv, db)
    | ListenEvent as \<Rightarrow> Some (AcceptNewClients as sv, db)
    | ConnEvent fd er eo ei rs ws1 ws2 ctl1 ctl2 \<Rightarrow>
        if er \<and> \<not> ei then Some (CloseConn fd sv, db)
        else
          let after_out = (if eo
                then (case map_of (conns sv) fd of
                        None \<Rightarrow> None
                      | Some c \<Rightarrow> (case HandleWritable ctl1 ws1 c of (r, c') \<Rightarrow>
                          Some (alive r, if alive r then set_conn fd r c' sv else CloseConn fd (set_conn fd r c' sv))))
                else Some (True, sv))
          in case after_out of
               None \<Rightarrow> None
             | Some (False, sv1) \<Rightarrow> Some (sv1, db)
             | Some (True, sv1) \<Rightarrow>
                 if ei
                 then (case map_of (conns sv1) fd of
                         None \<Rightarrow> None
                       | Some c \<Rightarrow> (case HandleReadable ops rs ctl2 ws2 c db of (r, c', db') \<Rightarrow>
                           Some (if alive r then set_conn fd r c' sv1 else CloseConn fd (set_conn fd r c' sv1), db')))
                 else Some (sv1, db))"

fun batch_loop :: "'db DbOps \<Rightarrow> event list \<Rightarrow> Server \<times> 'db \<Rightarrow> (Server \<times> 'db) option" where
  "batch_loop ops [] st = Some st"
| "batch_loop ops (e # es) st = (case handle_event ops e st of None \<Rightarrow> None | Some st' \<Rightarrow> batch_loop ops es st')"

datatype waited = Events "event list" | WaitEintr | WaitErr

text \<open>The answers of \<^verbatim>\<open>epoll_wait\<close>, each with the value of \<^verbatim>\<open>stop_\<close> tested before it.\<close>

fun Server_Loop :: "'db DbOps \<Rightarrow> (bool \<times> waited) list \<Rightarrow> Server \<times> 'db \<Rightarrow> (Server \<times> 'db) option" where
  "Server_Loop ops [] st = Some st"
| "Server_Loop ops ((stop, w) # ws) st =
     (if stop then Some st
      else case w of
        WaitErr \<Rightarrow> Some st
      | WaitEintr \<Rightarrow> Server_Loop ops ws st
      | Events es \<Rightarrow> (case batch_loop ops es st of None \<Rightarrow> None | Some st' \<Rightarrow> Server_Loop ops ws st'))"

definition NewServer :: Server where
  "NewServer = \<lparr>conns = [], out_armed = (\<lambda>_. False), wire = (\<lambda>_. [])\<rparr>"

subsection \<open>Replies of a pipeline\<close>

fun exec_all :: "'db DbOps \<Rightarrow> bytes list list \<Rightarrow> 'db \<Rightarrow> bytes \<times> 'db" where
  "exec_all ops [] db = ([], db)"
| "exec_all ops (args # cmds) db =
     (let (r, db1) = Execute ops args db; (rs, db2) = exec_all ops cmds db1 in (r @ rs, db2))"

lemma exec_all_append:
  "exec_all ops (xs @ ys) db =
     (let (r, db1) = exec_all ops xs db; (rs, db2) = exec_all ops ys db1 in (r @ rs, db2))"
  by (induction xs arbitrary: db) (simp_all add: Let_def split_beta)

lemma request_loop_spec:
  assumes "in_stream (parser c) cmds F" and "\<forall>a\<in>set cmds. cmd_ok a"
    and "length (out c) - out_off c + length (fst (exec_all ops cmds db)) \<le> kMaxOutBytes" and "out_off c \<le> length (out c)"
  shows "\<exists>got rest q. cmds = got @ rest \<and> in_stream q rest F \<and> (F = [] \<longrightarrow> rest = []) \<and>
    request_loop ops c db = (c\<lparr>parser := q, out := out c @ fst (exec_all ops got db)\<rparr>, snd (exec_all ops got db))"
  using assms
proof (induction ops c db arbitrary: cmds rule: request_loop.induct)
  case (1 ops c db)
  obtain r q where n: "Parser_Next (parser c) = (r, q)" by fastforce
  have "next_spec r q cmds F" using Parser_Next_spec [OF 1(2,3)] n by simp
  then consider "r = kNeedMore" "in_stream q cmds F" "F = [] \<longrightarrow> cmds = []"
    | cmd cmds' where "cmds = cmd # cmds'" "r = kRequest cmd" "in_stream q cmds' F"
    unfolding next_spec_def by blast
  then show ?case
  proof cases
    case 1
    have "request_loop ops c db = (c\<lparr>parser := q\<rparr>, db)" by (simp add: request_loop.simps [of ops c db] n 1(1))
    then show ?thesis using 1(2,3) by (intro exI [of _ "[]"] exI [of _ cmds] exI [of _ q]) simp
  next
    case 2
    obtain rp db1 where e: "Execute ops cmd db = (rp, db1)" by fastforce
    let ?c = "c\<lparr>parser := q, out := out c @ rp\<rparr>"
    have big: "\<not> length (out ?c) - out_off ?c > kMaxOutBytes"
      using 1(4,5) by (simp add: 2(1) e Let_def split_beta)
    have room: "length (out ?c) - out_off ?c + length (fst (exec_all ops cmds' db1)) \<le> kMaxOutBytes" "out_off ?c \<le> length (out ?c)"
      using 1(4,5) by (simp_all add: 2(1) e Let_def split_beta)
    obtain got rest q' where g: "cmds' = got @ rest" "in_stream q' rest F" "F = [] \<longrightarrow> rest = []"
      "request_loop ops ?c db1 = (?c\<lparr>parser := q', out := out ?c @ fst (exec_all ops got db1)\<rparr>, snd (exec_all ops got db1))"
      using "1.IH" [OF n [symmetric] 2(2) e [symmetric] refl big _ _ room] 2(1,3) 1(3) by auto
    have "request_loop ops c db = request_loop ops ?c db1"
      using big by (simp add: request_loop.simps [of ops c db] n 2(2) e Let_def)
    then show ?thesis using g 2(1) by (intro exI [of _ "cmd # got"] exI [of _ rest] exI [of _ q']) (simp add: e Let_def split_beta)
  qed
qed

fun recv_data :: "rsock list \<Rightarrow> bytes" where
  "recv_data [] = []"
| "recv_data (Recv b # as) = b @ recv_data as"
| "recv_data (_ # as) = recv_data as"

definition only_data :: "rsock list \<Rightarrow> bool" where
  "only_data as \<longleftrightarrow> list_all (\<lambda>a. case a of Recv b \<Rightarrow> True | RecvEintr \<Rightarrow> True | _ \<Rightarrow> False) as"

text \<open>
  A connection that has not failed and still owes \<open>cmds\<close>; \<open>F\<close> has not arrived yet, and
  the replies to the executed commands are \<open>n\<close> bytes, sent or buffered.
\<close>

definition conn_ok :: "Conn \<Rightarrow> bytes list list \<Rightarrow> bytes \<Rightarrow> bool" where
  "conn_ok c cmds F \<longleftrightarrow> in_stream (parser c) cmds F \<and> \<not> closing c \<and> out_off c \<le> length (out c)"

lemma in_stream_length: "in_stream p cmds F \<Longrightarrow> length (rbuf p) + length F \<le> length (stream cmds)"
  unfolding in_stream_def between_def inside_def
  by (metis (no_types, lifting) append.assoc concat.simps(2) length_append list.simps(9) order_refl)

lemma read_conn_spec:
  assumes "conn_ok c cmds (recv_data rs @ F)" and "\<forall>a\<in>set cmds. cmd_ok a" and "only_data rs" and "recv_data rs @ F = [] \<longrightarrow> cmds = []"
    and "length (stream cmds) \<le> kMaxInBytes" and "length (out c) - out_off c + length (fst (exec_all ops cmds db)) \<le> kMaxOutBytes div 2"
  shows "\<exists>got rest q. cmds = got @ rest \<and> in_stream q rest F \<and> (F = [] \<longrightarrow> rest = []) \<and>
    read_conn_loop ops rs c db = (Some (c\<lparr>parser := q, out := out c @ fst (exec_all ops got db)\<rparr>), snd (exec_all ops got db))"
  using assms
proof (induction rs arbitrary: c cmds db)
  case Nil
  then show ?case by (intro exI [of _ "[]"] exI [of _ cmds] exI [of _ "parser c"]) (simp add: conn_ok_def)
next
  case (Cons a rs)
  show ?case
  proof (cases a)
    case (Recv b)
    let ?c1 = "c\<lparr>parser := Feed b (parser c)\<rparr>"
    have i: "in_stream (parser ?c1) cmds (recv_data rs @ F)"
      using Cons.prems(1) Recv in_stream_feed [of "parser c" cmds b "recv_data rs @ F"] by (simp add: conn_ok_def)
    have small: "\<not> length (rbuf (parser ?c1)) > kMaxInBytes" using in_stream_length [OF i] Cons.prems(5) by simp
    have room: "length (out ?c1) - out_off ?c1 + length (fst (exec_all ops cmds db)) \<le> kMaxOutBytes" "out_off ?c1 \<le> length (out ?c1)"
      using Cons.prems(1,6) by (simp_all add: conn_ok_def)
    obtain got rest q where g: "cmds = got @ rest" "in_stream q rest (recv_data rs @ F)" "recv_data rs @ F = [] \<longrightarrow> rest = []"
      "request_loop ops ?c1 db = (?c1\<lparr>parser := q, out := out ?c1 @ fst (exec_all ops got db)\<rparr>, snd (exec_all ops got db))"
      using request_loop_spec [OF i Cons.prems(2) room] by blast
    let ?c2 = "c\<lparr>parser := q, out := out c @ fst (exec_all ops got db)\<rparr>" and ?db2 = "snd (exec_all ops got db)"
    have sum: "length (fst (exec_all ops cmds db)) = length (fst (exec_all ops got db)) + length (fst (exec_all ops rest ?db2))"
      by (simp add: g(1) exec_all_append Let_def split_beta)
    have half: "\<not> length (out ?c2) - out_off ?c2 > kMaxOutBytes div 2" using Cons.prems(1,6) sum by (simp add: conn_ok_def)
    have eq: "read_conn_loop ops (a # rs) c db = read_conn_loop ops rs ?c2 ?db2"
      using small g(4) half Cons.prems(1) by (simp add: Recv Let_def conn_ok_def)
    have h: "conn_ok ?c2 rest (recv_data rs @ F)" "\<forall>a\<in>set rest. cmd_ok a" "only_data rs" "recv_data rs @ F = [] \<longrightarrow> rest = []"
      "length (stream rest) \<le> kMaxInBytes" "length (out ?c2) - out_off ?c2 + length (fst (exec_all ops rest ?db2)) \<le> kMaxOutBytes div 2"
      using Cons.prems g(1-3) sum by (auto simp: conn_ok_def only_data_def)
    from Cons.IH [OF h] obtain got' rest' q' where "rest = got' @ rest'" "in_stream q' rest' F" "F = [] \<longrightarrow> rest' = []"
      "read_conn_loop ops rs ?c2 ?db2 = (Some (?c2\<lparr>parser := q', out := out ?c2 @ fst (exec_all ops got' ?db2)\<rparr>), snd (exec_all ops got' ?db2))"
      by blast
    then show ?thesis unfolding eq g(1)
      by (intro exI [of _ "got @ got'"] exI [of _ rest'] exI [of _ q']) (simp add: exec_all_append Let_def split_beta)
  next
    case RecvEintr
    then show ?thesis using Cons.IH [of c cmds db] Cons.prems by (simp add: only_data_def)
  qed (use Cons.prems(3) in \<open>simp_all add: only_data_def\<close>)
qed

lemma take_drop_length: "take n (drop m xs) @ drop (m + length (take n (drop m xs))) xs = drop m xs"
proof -
  have "drop (length (take n ys)) ys = drop n ys" for ys :: "'a list" by (cases "n \<le> length ys") simp_all
  from this [of "drop m xs"] show ?thesis by (metis add.commute append_take_drop_id drop_drop)
qed

lemma flush_loop_spec:
  assumes "flush_loop as c = (r, d, c')" and "out_off c \<le> length (out c)"
  shows "\<exists>n. c' = c\<lparr>out_off := n\<rparr> \<and> n \<le> length (out c) \<and> d @ drop n (out c) = drop (out_off c) (out c)
    \<and> (SentErr \<notin> set as \<longrightarrow> r = SentEagain \<or> (\<exists>m. r = Sent m \<and> n = length (out c)))"
  using assms
proof (induction as c arbitrary: d c' rule: flush_loop.induct)
  case (1 as c)
  note eq = flush_loop.simps [of as c]
  show ?case
  proof (cases "out_off c < length (out c)")
    case True
    show ?thesis
    proof (cases as)
      case Nil
      then show ?thesis using 1(3,4) True unfolding eq by (intro exI [of _ "out_off c"]) auto
    next
      case (Cons a as')
      show ?thesis
      proof (cases a)
        case (Sent n)
        let ?data = "take n (drop (out_off c) (out c))"
        obtain d2 where f: "flush_loop as' (c\<lparr>out_off := out_off c + length ?data\<rparr>) = (r, d2, c')" "d = ?data @ d2"
          using 1(3) True Cons Sent unfolding eq by (auto simp: Let_def split: prod.splits)
        have "out_off (c\<lparr>out_off := out_off c + length ?data\<rparr>) \<le> length (out (c\<lparr>out_off := out_off c + length ?data\<rparr>))" using True by simp
        from "1.IH"(1) [OF True Cons Sent refl f(1) this] obtain k where k: "c' = c\<lparr>out_off := k\<rparr>" "k \<le> length (out c)"
          "d2 @ drop k (out c) = drop (out_off c + length ?data) (out c)" "SentErr \<notin> set as' \<longrightarrow> r = SentEagain \<or> (\<exists>m. r = Sent m \<and> k = length (out c))"
          by auto
        have "?data @ drop (out_off c + length ?data) (out c) = drop (out_off c) (out c)" by (rule take_drop_length)
        then show ?thesis using k f(2) Cons by (intro exI [of _ k]) auto
      next
        case SentEintr
        then have "flush_loop as' c = (r, d, c')" using 1(3) True Cons unfolding eq by simp
        from "1.IH"(2) [OF True Cons SentEintr this 1(4)] show ?thesis using Cons SentEintr by auto
      next
        case SentEagain
        then show ?thesis using 1(3,4) True Cons unfolding eq by (intro exI [of _ "out_off c"]) auto
      next
        case SentErr
        then show ?thesis using 1(3,4) True Cons unfolding eq by (intro exI [of _ "out_off c"]) auto
      qed
    qed
  next
    case False
    then show ?thesis using 1(3,4) unfolding eq by (intro exI [of _ "out_off c"]) auto
  qed
qed

lemma FlushOut_spec:
  assumes "FlushOut True as c = (r, c')" and "out_off c \<le> length (out c)" and "SentErr \<notin> set as" and "\<not> closing c"
  shows "alive r \<and> parser c' = parser c \<and> \<not> closing c' \<and> out_off c' \<le> length (out c')
    \<and> sent r @ drop (out_off c') (out c') = drop (out_off c) (out c)"
proof -
  obtain x d c1 where f: "flush_loop as c = (x, d, c1)" by (metis prod_cases3)
  from flush_loop_spec [OF f assms(2)] assms(3) obtain n where n: "c1 = c\<lparr>out_off := n\<rparr>" "n \<le> length (out c)"
    "d @ drop n (out c) = drop (out_off c) (out c)" "x = SentEagain \<or> (\<exists>m. x = Sent m \<and> n = length (out c))" by blast
  from n(4) show ?thesis
  proof
    assume "x = SentEagain"
    then show ?thesis using assms(1,4) n f by (auto simp: FlushOut_def)
  next
    assume "\<exists>m. x = Sent m \<and> n = length (out c)"
    then show ?thesis using assms(1,4) n f by (auto simp: FlushOut_def Let_def split: if_splits)
  qed
qed

subsection \<open>Replies on the wire\<close>

abbreviation pending :: "Conn \<Rightarrow> bytes" where "pending c \<equiv> drop (out_off c) (out c)"

text \<open>How many bytes the socket accepts before it would block.\<close>

fun accepts :: "wsock list \<Rightarrow> nat" where
  "accepts [] = 0"
| "accepts (Sent n # as) = n + accepts as"
| "accepts (SentEintr # as) = accepts as"
| "accepts (_ # as) = 0"

lemma flush_loop_accepts:
  assumes "flush_loop as c = (r, d, c')" and "out_off c \<le> length (out c)" and "SentErr \<notin> set as"
  shows "length d = min (length (pending c)) (accepts as) \<and> (r = SentEagain \<longrightarrow> pending c' \<noteq> [])"
  using assms
proof (induction as c arbitrary: d c' rule: flush_loop.induct)
  case (1 as c)
  note eq = flush_loop.simps [of as c]
  show ?case
  proof (cases "out_off c < length (out c)")
    case True
    show ?thesis
    proof (cases as)
      case Nil
      then show ?thesis using 1(3) True unfolding eq by auto
    next
      case (Cons a as')
      show ?thesis
      proof (cases a)
        case (Sent n)
        let ?data = "take n (pending c)"
        let ?c1 = "c\<lparr>out_off := out_off c + length ?data\<rparr>"
        obtain d2 where f: "flush_loop as' ?c1 = (r, d2, c')" "d = ?data @ d2"
          using 1(3) True Cons Sent unfolding eq by (auto simp: Let_def split: prod.splits)
        have "out_off ?c1 \<le> length (out ?c1)" using True by simp
        from "1.IH"(1) [OF True Cons Sent refl f(1) this] 1(5) Cons f(2) show ?thesis by (auto simp: Sent)
      next
        case SentEintr
        then have "flush_loop as' c = (r, d, c')" using 1(3) True Cons unfolding eq by simp
        from "1.IH"(2) [OF True Cons SentEintr this 1(4)] show ?thesis using Cons SentEintr 1(5) by auto
      next
        case SentEagain
        then show ?thesis using 1(3) True Cons unfolding eq by auto
      next
        case SentErr
        then show ?thesis using 1(5) Cons by simp
      qed
    qed
  next
    case False
    then show ?thesis using 1(3,4) unfolding eq by auto
  qed
qed

text \<open>
  \<^verbatim>\<open>FlushOut\<close> on a healthy connection sends what the socket accepts, and asks for
  \<^verbatim>\<open>EPOLLOUT\<close> exactly while something is left.
\<close>

lemma FlushOut_sends:
  assumes "FlushOut True as c = (r, c')" and "out_off c \<le> length (out c)" and "SentErr \<notin> set as" and "\<not> closing c"
  shows "sent r = take (accepts as) (pending c) \<and> pending c' = drop (accepts as) (pending c) \<and> (pollout r \<longleftrightarrow> pending c' \<noteq> [])"
proof -
  obtain x d c1 where f: "flush_loop as c = (x, d, c1)" by (metis prod_cases3)
  note a = flush_loop_accepts [OF f assms(2,3)]
  from flush_loop_spec [OF f assms(2)] assms(3) obtain n where n: "c1 = c\<lparr>out_off := n\<rparr>" "n \<le> length (out c)"
    "d @ drop n (out c) = pending c" "x = SentEagain \<or> (\<exists>m. x = Sent m \<and> n = length (out c))" by blast
  have s: "sent r = d" "pollout r \<longleftrightarrow> pending c' \<noteq> []" using assms(1,4) n a f by (auto simp: FlushOut_def Let_def split: if_splits)
  have p: "sent r @ pending c' = pending c" using FlushOut_spec [OF assms] by simp
  have "length (sent r) = length (take (accepts as) (pending c))" using a s(1) by simp
  then have "sent r = take (accepts as) (pending c)" "pending c' = drop (accepts as) (pending c)"
    using p append_take_drop_id [of "accepts as" "pending c"] by (metis append_eq_append_conv)+
  then show ?thesis using s(2) by blast
qed

text \<open>
  Events of one client whose sockets do not fail: what arrives with one, and an event that
  only reports that the socket is writable again.
\<close>

fun calm :: "int \<Rightarrow> event \<Rightarrow> bool" where
  "calm fd (ConnEvent f er eo ei rs ws1 ws2 ctl1 ctl2) \<longleftrightarrow>
     f = fd \<and> \<not> er \<and> only_data rs \<and> SentErr \<notin> set ws1 \<and> SentErr \<notin> set ws2 \<and> ctl1 \<and> ctl2"
| "calm fd _ \<longleftrightarrow> False"

fun arrives :: "event \<Rightarrow> bytes" where
  "arrives (ConnEvent f er eo ei rs ws1 ws2 ctl1 ctl2) = (if ei then recv_data rs else [])"
| "arrives _ = []"

definition writable :: "int \<Rightarrow> wsock list \<Rightarrow> event" where
  "writable fd ws = ConnEvent fd False True False [] ws [] True True"

definition one_by_one :: "event list \<Rightarrow> (bool \<times> waited) list" where
  "one_by_one es = map (\<lambda>e. (False, Events [e])) es"

lemma Server_Loop_one_by_one: "Server_Loop ops (one_by_one es) st = batch_loop ops es st"
  by (induction es arbitrary: st) (simp_all add: one_by_one_def split: option.splits)

lemma set_conn_lookup: "map_of (conns sv) fd = Some c0 \<Longrightarrow> map_of (conns (set_conn fd r c sv)) fd = Some c"
proof -
  have "map_of xs fd = Some c0 \<Longrightarrow> map_of (map (\<lambda>(f, x). (f, if f = fd then c else x)) xs) fd = Some c" for xs
    by (induction xs) auto
  then show "map_of (conns sv) fd = Some c0 \<Longrightarrow> ?thesis" by (simp add: set_conn_def)
qed

text \<open>The connection \<open>c\<close> of a descriptor, with the replies on the wire and in the buffer.\<close>

definition serving :: "int \<Rightarrow> Conn \<Rightarrow> bytes \<Rightarrow> Server \<Rightarrow> bool" where
  "serving fd c R sv \<longleftrightarrow> map_of (conns sv) fd = Some c \<and> wire sv fd @ pending c = R \<and> (out_armed sv fd \<longleftrightarrow> pending c \<noteq> [])"

lemma serving_flush:
  assumes "map_of (conns sv) fd = Some c0" and "wire sv fd @ pending c = R" and "FlushOut True ws c = (r, c')"
    and "out_off c \<le> length (out c)" "SentErr \<notin> set ws" "\<not> closing c"
  shows "serving fd c' R (set_conn fd r c' sv) \<and> alive r \<and> parser c' = parser c \<and> \<not> closing c' \<and> out_off c' \<le> length (out c')
    \<and> pending c' = drop (accepts ws) (pending c)"
  using FlushOut_spec [OF assms(3-6)] FlushOut_sends [OF assms(3-6)] set_conn_lookup [OF assms(1), of r c'] assms(2)
  by (auto simp: serving_def set_conn_def)

lemma write_part:
  assumes "serving fd c R sv" and "conn_ok c cmds F" and "SentErr \<notin> set ws"
  shows "\<exists>c1 sv1. (if eo
      then (case map_of (conns sv) fd of
              None \<Rightarrow> None
            | Some c \<Rightarrow> (case HandleWritable True ws c of (r, c') \<Rightarrow>
                Some (alive r, if alive r then set_conn fd r c' sv else CloseConn fd (set_conn fd r c' sv))))
      else Some (True, sv)) = Some (True, sv1) \<and> serving fd c1 R sv1 \<and> conn_ok c1 cmds F
      \<and> pending c1 = (if eo then drop (accepts ws) (pending c) else pending c)"
proof (cases eo)
  case True
  have m: "map_of (conns sv) fd = Some c" "wire sv fd @ pending c = R" using assms(1) by (simp_all add: serving_def)
  have c: "out_off c \<le> length (out c)" "\<not> closing c" using assms(2) by (simp_all add: conn_ok_def)
  obtain r c' where f: "FlushOut True ws c = (r, c')" by fastforce
  note fl = serving_flush [OF m f c(1) assms(3) c(2)]
  have "conn_ok c' cmds F" using fl assms(2) by (simp add: conn_ok_def)
  then show ?thesis using fl True m f by (auto simp: HandleWritable_def)
qed (use assms in auto)

lemma read_part:
  assumes s: "serving fd c R sv" and k: "conn_ok c cmds (recv_data rs @ F)" "\<forall>a\<in>set cmds. cmd_ok a" "only_data rs" "recv_data rs @ F = [] \<longrightarrow> cmds = []"
    and lim: "length (stream cmds) \<le> kMaxInBytes" "length (pending c) + length (fst (exec_all ops cmds db)) \<le> kMaxOutBytes div 2"
    and ws: "SentErr \<notin> set ws"
  shows "\<exists>got rest r c'. cmds = got @ rest \<and> (F = [] \<longrightarrow> rest = []) \<and> conn_ok c' rest F
    \<and> HandleReadable ops rs True ws c db = (r, c', snd (exec_all ops got db)) \<and> alive r
    \<and> serving fd c' (R @ fst (exec_all ops got db)) (set_conn fd r c' sv)
    \<and> length (pending c') \<le> length (pending c) + length (fst (exec_all ops got db))"
proof -
  have off: "out_off c \<le> length (out c)" "\<not> closing c" using k(1) by (simp_all add: conn_ok_def)
  have lim2: "length (out c) - out_off c + length (fst (exec_all ops cmds db)) \<le> kMaxOutBytes div 2" using lim(2) by simp
  obtain got rest q where g: "cmds = got @ rest" "in_stream q rest F" "F = [] \<longrightarrow> rest = []"
    "read_conn_loop ops rs c db = (Some (c\<lparr>parser := q, out := out c @ fst (exec_all ops got db)\<rparr>), snd (exec_all ops got db))"
    using read_conn_spec [OF k lim(1) lim2] by blast
  let ?c1 = "c\<lparr>parser := q, out := out c @ fst (exec_all ops got db)\<rparr>"
  obtain r c' where f: "FlushOut True ws ?c1 = (r, c')" by fastforce
  have c1: "out_off ?c1 \<le> length (out ?c1)" "\<not> closing ?c1" "pending ?c1 = pending c @ fst (exec_all ops got db)" using off by simp_all
  have m: "map_of (conns sv) fd = Some c" "wire sv fd @ pending ?c1 = R @ fst (exec_all ops got db)"
    using s c1(3) by (auto simp: serving_def)
  note fl = serving_flush [OF m f c1(1) ws c1(2)]
  have "HandleReadable ops rs True ws c db = (r, c', snd (exec_all ops got db))" by (simp add: HandleReadable_def g(4) f)
  moreover have "conn_ok c' rest F" using fl g(2) by (simp add: conn_ok_def)
  moreover have "length (pending c') \<le> length (pending c) + length (fst (exec_all ops got db))"
    using fl c1(3) off(1) by simp
  ultimately show ?thesis using g(1,3) fl by blast
qed

lemma calm_event:
  assumes s: "serving fd c R sv" and k: "conn_ok c cmds (arrives e @ F)" "\<forall>a\<in>set cmds. cmd_ok a" "arrives e @ F = [] \<longrightarrow> cmds = []"
    and calm: "calm fd e"
    and lim: "length (stream cmds) \<le> kMaxInBytes" "length (pending c) + length (fst (exec_all ops cmds db)) \<le> kMaxOutBytes div 2"
  shows "\<exists>got rest c' sv'. cmds = got @ rest \<and> (F = [] \<longrightarrow> rest = []) \<and> conn_ok c' rest F
    \<and> handle_event ops e (sv, db) = Some (sv', snd (exec_all ops got db)) \<and> serving fd c' (R @ fst (exec_all ops got db)) sv'
    \<and> length (pending c') \<le> length (pending c) + length (fst (exec_all ops got db))"
proof -
  obtain eo ei rs ws1 ws2 where e: "e = ConnEvent fd False eo ei rs ws1 ws2 True True" and q: "only_data rs" "SentErr \<notin> set ws1" "SentErr \<notin> set ws2"
    using calm by (cases e) auto
  obtain c1 sv1 where w: "(if eo
      then (case map_of (conns sv) fd of
              None \<Rightarrow> None
            | Some c \<Rightarrow> (case HandleWritable True ws1 c of (r, c') \<Rightarrow>
                Some (alive r, if alive r then set_conn fd r c' sv else CloseConn fd (set_conn fd r c' sv))))
      else Some (True, sv)) = Some (True, sv1)" "serving fd c1 R sv1" "conn_ok c1 cmds (arrives e @ F)"
      "pending c1 = (if eo then drop (accepts ws1) (pending c) else pending c)"
    using write_part [OF s k(1) q(2), of eo] by (elim exE conjE) (rule that)
  have le: "length (pending c1) \<le> length (pending c)" using w(4) by (cases eo) simp_all
  have h: "handle_event ops e (sv, db) = (if ei
      then (case map_of (conns sv1) fd of
              None \<Rightarrow> None
            | Some c \<Rightarrow> (case HandleReadable ops rs True ws2 c db of (r, c', db') \<Rightarrow>
                Some (if alive r then set_conn fd r c' sv1 else CloseConn fd (set_conn fd r c' sv1), db')))
      else Some (sv1, db))"
    unfolding e handle_event_def prod.case event.case Let_def w(1) by simp
  show ?thesis
  proof (cases ei)
    case True
    then have a: "arrives e = recv_data rs" by (simp add: e)
    have l2: "length (pending c1) + length (fst (exec_all ops cmds db)) \<le> kMaxOutBytes div 2" using lim(2) le by linarith
    from read_part [OF w(2) w(3) [unfolded a] k(2) q(1) k(3) [unfolded a] lim(1) l2 q(3)] obtain got rest r c' where
      g: "cmds = got @ rest" "F = [] \<longrightarrow> rest = []" "conn_ok c' rest F" "HandleReadable ops rs True ws2 c1 db = (r, c', snd (exec_all ops got db))" "alive r"
        "serving fd c' (R @ fst (exec_all ops got db)) (set_conn fd r c' sv1)" "length (pending c') \<le> length (pending c1) + length (fst (exec_all ops got db))"
      by (elim exE conjE) (rule that)
    have "map_of (conns sv1) fd = Some c1" using w(2) by (simp add: serving_def)
    then have "handle_event ops e (sv, db) = Some (set_conn fd r c' sv1, snd (exec_all ops got db))" using True g(4,5) h by simp
    moreover have "length (pending c') \<le> length (pending c) + length (fst (exec_all ops got db))" using g(7) le by linarith
    ultimately show ?thesis using g(1-3,6) by blast
  next
    case False
    then have a: "arrives e = []" by (simp add: e)
    have "handle_event ops e (sv, db) = Some (sv1, snd (exec_all ops [] db))" using False h by simp
    then show ?thesis using w(2,3) k(3) le a by (intro exI [of _ "[]"] exI [of _ cmds] exI [of _ c1] exI [of _ sv1]) simp
  qed
qed

lemma calm_events:
  assumes "serving fd c R sv" and "conn_ok c cmds (concat (map arrives es))" and "\<forall>a\<in>set cmds. cmd_ok a" and "concat (map arrives es) = [] \<longrightarrow> cmds = []"
    and "\<forall>e\<in>set es. calm fd e"
    and "length (stream cmds) \<le> kMaxInBytes" and "length (pending c) + length (fst (exec_all ops cmds db)) \<le> kMaxOutBytes div 2"
  shows "\<exists>c' sv'. batch_loop ops es (sv, db) = Some (sv', snd (exec_all ops cmds db)) \<and> serving fd c' (R @ fst (exec_all ops cmds db)) sv' \<and> conn_ok c' [] []"
  using assms
proof (induction es arbitrary: c R sv cmds db)
  case Nil
  then show ?case by auto
next
  case (Cons e es)
  let ?F = "concat (map arrives es)"
  have p: "conn_ok c cmds (arrives e @ ?F)" "arrives e @ ?F = [] \<longrightarrow> cmds = []" "calm fd e" using Cons.prems by auto
  from calm_event [OF Cons.prems(1) p(1) Cons.prems(3) p(2,3) Cons.prems(6,7)] obtain got rest c1 sv1 where
    g: "cmds = got @ rest" "?F = [] \<longrightarrow> rest = []" "conn_ok c1 rest ?F" "handle_event ops e (sv, db) = Some (sv1, snd (exec_all ops got db))"
      "serving fd c1 (R @ fst (exec_all ops got db)) sv1" "length (pending c1) \<le> length (pending c) + length (fst (exec_all ops got db))"
    by (elim exE conjE) (rule that)
  let ?db1 = "snd (exec_all ops got db)"
  have sum: "fst (exec_all ops cmds db) = fst (exec_all ops got db) @ fst (exec_all ops rest ?db1)" "snd (exec_all ops cmds db) = snd (exec_all ops rest ?db1)"
    by (simp_all add: g(1) exec_all_append Let_def split_beta)
  have r: "\<forall>a\<in>set rest. cmd_ok a" "\<forall>e\<in>set es. calm fd e" "length (stream rest) \<le> kMaxInBytes"
    "length (pending c1) + length (fst (exec_all ops rest ?db1)) \<le> kMaxOutBytes div 2"
    using Cons.prems(3,5-7) g(1,6) sum(1) by auto
  from Cons.IH [OF g(5,3) r(1) g(2) r(2-4)] obtain c' sv' where "batch_loop ops es (sv1, ?db1) = Some (sv', snd (exec_all ops rest ?db1))"
      "serving fd c' ((R @ fst (exec_all ops got db)) @ fst (exec_all ops rest ?db1)) sv'" "conn_ok c' [] []" by (elim exE conjE) (rule that)
  then show ?case using g(4) sum by auto
qed

lemma drain_events:
  assumes "serving fd c R sv" and "conn_ok c [] []" and "\<forall>ws\<in>set wss. SentErr \<notin> set ws"
  shows "\<exists>c' sv'. batch_loop ops (map (writable fd) wss) (sv, db) = Some (sv', db) \<and> serving fd c' R sv'
    \<and> pending c' = drop (sum_list (map accepts wss)) (pending c)"
  using assms
proof (induction wss arbitrary: c sv)
  case Nil
  then show ?case by auto
next
  case (Cons ws wss)
  have q: "SentErr \<notin> set ws" using Cons.prems(3) by simp
  from write_part [OF Cons.prems(1,2) q, of True] obtain c1 sv1 where
    w: "(case map_of (conns sv) fd of
              None \<Rightarrow> None
            | Some c \<Rightarrow> (case HandleWritable True ws c of (r, c') \<Rightarrow>
                Some (alive r, if alive r then set_conn fd r c' sv else CloseConn fd (set_conn fd r c' sv)))) = Some (True, sv1)"
      "serving fd c1 R sv1" "conn_ok c1 [] []" "pending c1 = drop (accepts ws) (pending c)"
    unfolding if_True by (elim exE conjE) (rule that)
  have h: "handle_event ops (writable fd ws) (sv, db) = Some (sv1, db)"
    unfolding writable_def handle_event_def prod.case event.case Let_def if_True w(1) by simp
  from Cons.IH [OF w(2,3)] Cons.prems(3) obtain c' sv' where "batch_loop ops (map (writable fd) wss) (sv1, db) = Some (sv', db)" "serving fd c' R sv'"
      "pending c' = drop (sum_list (map accepts wss)) (pending c1)" by auto
  then show ?case using h w(4) by (auto simp: ac_simps)
qed

text \<open>
  C15: the replies of a pipeline reach the client. The events are those of one new
  connection, in any mix of readable and writable ones, with the commands cut into reads in
  any way and writes of any size. No socket call and no \<^verbatim>\<open>epoll_ctl\<close> fails, the commands of
  the connection are at most the 64 MiB of the input cap and their replies at most half the
  reply cap. Then the loop executes the commands in order, each once; what is on the wire is
  a prefix of the concatenated replies and the rest is buffered; \<^verbatim>\<open>EPOLLOUT\<close> is armed exactly
  while something is buffered; and once writable events have offered room for the rest, the
  wire holds exactly the replies and \<^verbatim>\<open>EPOLLOUT\<close> is disarmed.
\<close>

theorem server_pipeline:
  assumes "map_of (conns sv) fd = Some NewConn" and "wire sv fd = []" and "\<not> out_armed sv fd" and "\<forall>e\<in>set es. calm fd e"
    and "concat (map arrives es) = concat (map (\<lambda>args. ArrayHeader (length args) @ concat (map BulkString args)) cmds)"
    and "\<forall>args\<in>set cmds. args \<noteq> [] \<and> length args \<le> kMaxMultibulk \<and> (\<forall>a\<in>set args. length a \<le> kMaxBulkLen)"
    and "length (concat (map arrives es)) \<le> kMaxInBytes" and "exec_all ops cmds db = (replies, db')" and "length replies \<le> kMaxOutBytes div 2"
  shows "\<exists>sv' c. Server_Loop ops (one_by_one es) (sv, db) = Some (sv', db') \<and> map_of (conns sv') fd = Some c
    \<and> wire sv' fd @ drop (out_off c) (out c) = replies \<and> (out_armed sv' fd \<longleftrightarrow> drop (out_off c) (out c) \<noteq> [])
    \<and> (\<forall>wss. (\<forall>ws\<in>set wss. SentErr \<notin> set ws) \<and> length (drop (out_off c) (out c)) \<le> sum_list (map accepts wss) \<longrightarrow>
         (\<exists>sv''. Server_Loop ops (one_by_one (map (writable fd) wss)) (sv', db') = Some (sv'', db') \<and> wire sv'' fd = replies \<and> \<not> out_armed sv'' fd))"
proof -
  have s: "concat (map arrives es) = stream cmds" using assms(5) by (simp add: enc_cmd_def [abs_def])
  have k: "\<forall>c\<in>set cmds. cmd_ok c" using assms(6) by (simp add: cmd_ok_def)
  have c: "conn_ok NewConn cmds (concat (map arrives es))" using s by (simp add: conn_ok_def in_stream_def between_def NewParser_def NewConn_def)
  have e: "concat (map arrives es) = [] \<longrightarrow> cmds = []" using s by (cases cmds) auto
  have sv: "serving fd NewConn [] sv" using assms(1-3) by (simp add: serving_def NewConn_def)
  have l: "length (stream cmds) \<le> kMaxInBytes" "length (pending NewConn) + length (fst (exec_all ops cmds db)) \<le> kMaxOutBytes div 2"
    using s assms(7-9) by (simp_all add: NewConn_def)
  from calm_events [OF sv c k e assms(4) l] obtain c' sv' where b: "batch_loop ops es (sv, db) = Some (sv', db')" "serving fd c' replies sv'" "conn_ok c' [] []"
    unfolding assms(8) fst_conv snd_conv append_Nil by (elim exE conjE) (rule that)
  have "\<exists>sv''. batch_loop ops (map (writable fd) wss) (sv', db') = Some (sv'', db') \<and> wire sv'' fd = replies \<and> \<not> out_armed sv'' fd"
    if "\<forall>ws\<in>set wss. SentErr \<notin> set ws" "length (pending c') \<le> sum_list (map accepts wss)" for wss
    using drain_events [OF b(2,3) that(1), of ops db'] that(2) by (auto simp: serving_def)
  then show ?thesis unfolding Server_Loop_one_by_one using b(1,2)
    by (intro exI [of _ sv'] exI [of _ c'] conjI) (simp_all add: serving_def)
qed

definition map_ops :: "(bytes \<Rightarrow> bytes option) DbOps" where
  "map_ops = \<lparr>db_put = (\<lambda>k v m. (Ok, m(k \<mapsto> v))),
     db_get = (\<lambda>k m. case m k of None \<Rightarrow> (NotFound [], [], m) | Some v \<Rightarrow> (Ok, v, m)),
     db_del = (\<lambda>k m. (Ok, m(k := None)))\<rparr>"

text \<open>Two commands cut in the middle, a socket that takes two bytes, then the rest.\<close>

theorem server_pipeline_witness:
  "\<exists>sv' c sv''. Server_Loop map_ops (one_by_one
       [ConnEvent 7 False False True [Recv (str ''*3'' @ crlf @ str ''$3'' @ crlf @ str ''SET''), RecvEintr] [] [] True True,
        ConnEvent 7 False False True [Recv (crlf @ str ''$1'' @ crlf @ str ''k'' @ crlf @ str ''$1'' @ crlf @ str ''v'' @ crlf @ str ''*2'' @ crlf @ str ''$3'' @ crlf @ str ''get'' @ crlf @
            str ''$1'' @ crlf), Recv (str ''k'' @ crlf)] [] [Sent 2, SentEagain] True True]) (\<lparr>conns = [(7, NewConn)], out_armed = (\<lambda>_. False), wire = (\<lambda>_. [])\<rparr>, \<lambda>_. None)
     = Some (sv', (\<lambda>_. None)(str ''k'' \<mapsto> str ''v'')) \<and>
     map_of (conns sv') 7 = Some c \<and> wire sv' 7 @ drop (out_off c) (out c) = str ''+OK'' @ crlf @ str ''$1'' @ crlf @ str ''v'' @ crlf \<and>
     Server_Loop map_ops (one_by_one [writable 7 [Sent 100]]) (sv', (\<lambda>_. None)(str ''k'' \<mapsto> str ''v'')) = Some (sv'', (\<lambda>_. None)(str ''k'' \<mapsto> str ''v'')) \<and>
     wire sv'' 7 = str ''+OK'' @ crlf @ str ''$1'' @ crlf @ str ''v'' @ crlf"
proof -
  let ?es = "[ConnEvent 7 False False True [Recv (str ''*3'' @ crlf @ str ''$3'' @ crlf @ str ''SET''), RecvEintr] [] [] True True,
        ConnEvent 7 False False True [Recv (crlf @ str ''$1'' @ crlf @ str ''k'' @ crlf @ str ''$1'' @ crlf @ str ''v'' @ crlf @ str ''*2'' @ crlf @ str ''$3'' @ crlf @ str ''get'' @ crlf @
            str ''$1'' @ crlf), Recv (str ''k'' @ crlf)] [] [Sent 2, SentEagain] True True]"
  let ?cmds = "[[str ''SET'', str ''k'', str ''v''], [str ''get'', str ''k'']]" and ?sv = "\<lparr>conns = [(7, NewConn)], out_armed = (\<lambda>_. False), wire = (\<lambda>_. [])\<rparr>"
  let ?r = "str ''+OK'' @ crlf @ str ''$1'' @ crlf @ str ''v'' @ crlf"
  have x: "exec_all map_ops ?cmds (\<lambda>_. None) = (?r, (\<lambda>_. None)(str ''k'' \<mapsto> str ''v''))"
    by (simp add: Execute_def Lower_def map_ops_def SimpleString_def BulkString_def to_string_def digits.simps Let_def)
  have h: "map_of (conns ?sv) 7 = Some NewConn" "wire ?sv 7 = []" "\<not> out_armed ?sv 7" "\<forall>e\<in>set ?es. calm 7 e"
    "concat (map arrives ?es) = concat (map (\<lambda>args. ArrayHeader (length args) @ concat (map BulkString args)) ?cmds)"
    "\<forall>args\<in>set ?cmds. args \<noteq> [] \<and> length args \<le> kMaxMultibulk \<and> (\<forall>a\<in>set args. length a \<le> kMaxBulkLen)"
    "length (concat (map arrives ?es)) \<le> kMaxInBytes" "length ?r \<le> kMaxOutBytes div 2"
    by (simp_all add: ArrayHeader_def BulkString_def to_string_def digits.simps kMaxMultibulk_def kMaxBulkLen_def only_data_def
      kMaxInBytes_def kMaxOutBytes_def)
  from server_pipeline [OF h(1-7) x h(8)] obtain sv' c where p: "Server_Loop map_ops (one_by_one ?es) (?sv, \<lambda>_. None) = Some (sv', (\<lambda>_. None)(str ''k'' \<mapsto> str ''v''))"
      "map_of (conns sv') 7 = Some c" "wire sv' 7 @ drop (out_off c) (out c) = ?r"
      "\<forall>wss. (\<forall>ws\<in>set wss. SentErr \<notin> set ws) \<and> length (drop (out_off c) (out c)) \<le> sum_list (map accepts wss) \<longrightarrow>
         (\<exists>sv''. Server_Loop map_ops (one_by_one (map (writable 7) wss)) (sv', (\<lambda>_. None)(str ''k'' \<mapsto> str ''v'')) = Some (sv'', (\<lambda>_. None)(str ''k'' \<mapsto> str ''v'')) \<and> wire sv'' 7 = ?r \<and> \<not> out_armed sv'' 7)"
    by (elim exE conjE) (rule that, assumption+)
  have "length (drop (out_off c) (out c)) \<le> length ?r" unfolding p(3) [symmetric] by simp
  then have "length (drop (out_off c) (out c)) \<le> sum_list (map accepts [[Sent 100]])" by simp
  then obtain sv'' where "Server_Loop map_ops (one_by_one (map (writable 7) [[Sent 100]])) (sv', (\<lambda>_. None)(str ''k'' \<mapsto> str ''v'')) = Some (sv'', (\<lambda>_. None)(str ''k'' \<mapsto> str ''v''))" "wire sv'' 7 = ?r"
    using p(4) [rule_format, of "[[Sent 100]]"] by auto
  then show ?thesis using p(1-3) unfolding list.map by (intro exI conjI)
qed

subsection \<open>A client that never reads\<close>

text \<open>The readable events of one connection: what was sent, the connection, the database; \<open>None\<close> when it was closed.\<close>

fun serve :: "'db DbOps \<Rightarrow> (rsock list \<times> wsock list) list \<Rightarrow> Conn \<Rightarrow> 'db \<Rightarrow> (bytes \<times> Conn \<times> 'db) option" where
  "serve ops [] c db = Some ([], c, db)"
| "serve ops ((rs, ws) # evs) c db =
     (case HandleReadable ops rs True ws c db of (r, c', db') \<Rightarrow>
        if alive r then map_option (\<lambda>(d, c2, db2). (sent r @ d, c2, db2)) (serve ops evs c' db') else None)"

abbreviation ping :: "bytes list" where "ping \<equiv> [str ''PING'']"
abbreviation pong :: bytes where "pong \<equiv> SimpleString (str ''PONG'')"

lemma Execute_ping: "Execute ops ping db = (pong, db)"
  by (simp add: Execute_def Lower_def Let_def)

lemma pong_length: "length pong = 7"
  by (simp add: SimpleString_def)

lemma ping_request:
  assumes "between (parser c) [ping] []"
  shows "\<exists>c'. request_loop ops c db = (c', db) \<and> between (parser c') [] [] \<and> out c' = out c @ pong \<and> out_off c' = out_off c"
proof -
  have i: "in_stream (parser c) [ping] []" using assms by (simp add: in_stream_def)
  have ok: "\<forall>a\<in>set [ping]. cmd_ok a" by (simp add: cmd_ok_def kMaxMultibulk_def kMaxBulkLen_def)
  obtain r q where n: "Parser_Next (parser c) = (r, q)" by fastforce
  have r: "r = kRequest ping" "in_stream q [] []" using Parser_Next_spec [OF i ok] by (auto simp: n next_spec_def)
  then have q: "between q [] []" by (simp add: in_stream_def)
  let ?c = "c\<lparr>parser := q, out := out c @ pong\<rparr>"
  have eq: "request_loop ops c db =
      (if length (out ?c) - out_off ?c > kMaxOutBytes then (?c\<lparr>closing := True\<rparr>, db) else request_loop ops ?c db)"
    unfolding request_loop.simps [of ops c db] n r(1) prod.case NextStatus.case Execute_ping Let_def ..
  have nq: "Parser_Next q = (kNeedMore, q)" using between_step [OF q] by simp
  have "request_loop ops ?c db = (?c, db)" unfolding request_loop.simps [of ops ?c db] by (simp add: nq)
  then show ?thesis unfolding eq using q by auto
qed

lemma ping_event:
  assumes p: "between (parser c) [] []" and off: "out_off c \<le> length (out c)"
  shows "\<exists>c'. HandleReadable ops [Recv (enc_cmd ping)] True [SentEagain] c db = (\<lparr>alive = True, pollout = True, sent = []\<rparr>, c', db)
    \<and> between (parser c') [] [] \<and> out c' = out c @ pong \<and> out_off c' = out_off c"
proof -
  let ?c = "c\<lparr>parser := Feed (enc_cmd ping) (parser c)\<rparr>"
  have b: "between (parser ?c) [ping] []" using p by (simp add: between_def Feed_def)
  have e: "length (enc_cmd ping) = 14" by (simp add: enc_cmd_def ArrayHeader_def BulkString_def to_string_def digits.simps)
  have small: "\<not> length (rbuf (parser ?c)) > kMaxInBytes" using p e by (simp add: Feed_def between_def kMaxInBytes_def)
  obtain c2 where c2: "request_loop ops ?c db = (c2, db)" "between (parser c2) [] []" "out c2 = out c @ pong" "out_off c2 = out_off c"
    using ping_request [OF b, of ops db] by auto
  have r: "read_conn_loop ops [Recv (enc_cmd ping)] c db = (Some c2, db)" using small c2(1) by (simp add: Let_def)
  have f: "FlushOut True [SentEagain] c2 = (\<lparr>alive = True, pollout = True, sent = []\<rparr>, c2)"
    using c2(3,4) off pong_length by (simp add: FlushOut_def flush_loop.simps [of "[SentEagain]" c2])
  show ?thesis unfolding HandleReadable_def r option.case prod.case f using c2(2-4) by blast
qed

lemma ping_events:
  assumes "between (parser c) [] []" and "out_off c \<le> length (out c)"
  shows "\<exists>c'. serve ops (replicate n ([Recv (enc_cmd ping)], [SentEagain])) c db = Some ([], c', db)
    \<and> length (out c') = length (out c) + 7 * n"
  using assms
proof (induction n arbitrary: c)
  case (Suc n)
  obtain c1 where c1: "HandleReadable ops [Recv (enc_cmd ping)] True [SentEagain] c db = (\<lparr>alive = True, pollout = True, sent = []\<rparr>, c1, db)"
    "between (parser c1) [] []" "out c1 = out c @ pong" "out_off c1 = out_off c" using ping_event [OF Suc.prems, of ops db] by (elim exE conjE) (rule that)
  have "out_off c1 \<le> length (out c1)" using c1(3,4) Suc.prems(2) by simp
  from Suc.IH [OF c1(2) this] obtain c' where "serve ops (replicate n ([Recv (enc_cmd ping)], [SentEagain])) c1 db = Some ([], c', db)"
    "length (out c') = length (out c1) + 7 * n" by blast
  then show ?case using c1(1,3) pong_length by (simp del: str_Cons)
qed simp

text \<open>
  C32: the cap on unread replies does not close the connection of a client that
  keeps sending and never reads. For every size there is a number of \<^verbatim>\<open>PING\<close> commands
  after which the connection is still open with more than that many bytes buffered, while
  the socket has taken none.
\<close>

theorem server_backlog_unbounded:
  "\<exists>n c. serve ops (replicate n ([Recv (ArrayHeader 1 @ BulkString (str ''PING''))], [SentEagain])) NewConn db = Some ([], c, db) \<and>
     N < length (out c)"
proof -
  have e: "enc_cmd ping = ArrayHeader 1 @ BulkString (str ''PING'')" by (simp add: enc_cmd_def)
  have "between (parser NewConn) [] []" "out_off NewConn \<le> length (out NewConn)"
    by (simp_all add: between_def NewConn_def NewParser_def)
  from ping_events [OF this, of ops "Suc N" db, unfolded e] obtain c where
    c: "serve ops (replicate (Suc N) ([Recv (ArrayHeader 1 @ BulkString (str ''PING''))], [SentEagain])) NewConn db = Some ([], c, db)"
      "length (out c) = length (out NewConn) + 7 * Suc N" by blast
  then have "N < length (out c)" by simp
  with c(1) show ?thesis by blast
qed

subsection \<open>The connection table\<close>

definition server_ok :: "Server \<Rightarrow> bool" where
  "server_ok sv \<longleftrightarrow> length (conns sv) \<le> kMaxConns \<and> distinct (map fst (conns sv))"

lemma CloseConn_ok: "server_ok sv \<Longrightarrow> server_ok (CloseConn fd sv)"
  unfolding server_ok_def CloseConn_def by (auto simp: distinct_map inj_on_def intro: order_trans [OF length_filter_le])

lemma set_conn_fds: "map fst (conns (set_conn fd r c sv)) = map fst (conns sv)"
  by (induction "conns sv") (auto simp: set_conn_def comp_def split_beta)

lemma set_conn_ok: "server_ok sv \<Longrightarrow> server_ok (set_conn fd r c sv)"
  unfolding server_ok_def set_conn_fds by (simp add: set_conn_def)

lemma AcceptNewClients_ok: "server_ok sv \<Longrightarrow> server_ok (AcceptNewClients as sv)"
  by (induction as sv rule: AcceptNewClients.induct) (auto simp: server_ok_def)

lemma AcceptNewClients_keeps: "fst ` set (conns sv) \<subseteq> fst ` set (conns (AcceptNewClients as sv))"
  by (induction as sv rule: AcceptNewClients.induct) (auto split: if_splits)

fun event_fds :: "event \<Rightarrow> int list" where
  "event_fds (ConnEvent fd er eo ei rs ws1 ws2 ctl1 ctl2) = [fd]"
| "event_fds _ = []"

text \<open>One event on an open descriptor: it is handled, and no other descriptor is closed.\<close>

lemma handle_event_ok:
  assumes "server_ok sv" and "set (event_fds ev) \<subseteq> fst ` set (conns sv)"
  shows "\<exists>sv' db'. handle_event ops ev (sv, db) = Some (sv', db') \<and> server_ok sv' \<and>
    fst ` set (conns sv) - set (event_fds ev) \<subseteq> fst ` set (conns sv')"
proof (cases ev)
  case (ConnEvent fd er eo ei rs ws1 ws2 ctl1 ctl2)
  have fd: "\<exists>c. map_of (conns sv') fd = Some c" if "map fst (conns sv') = map fst (conns sv)" for sv'
    using assms(2) ConnEvent that by (metis domIff dom_map_of_conv_image_fst event_fds.simps(1) insert_subset list.set(1,2) list.set_map not_None_eq)
  have close: "fst ` set (conns sv) - {fd} \<subseteq> fst ` set (conns (CloseConn fd sv'))" if m: "map fst (conns sv') = map fst (conns sv)" for sv' :: Server
  proof -
    have "fst ` set (conns sv') = fst ` set (conns sv)" using m by (metis list.set_map)
    then show ?thesis by (force simp: CloseConn_def)
  qed
  have keep: "fst ` set (conns sv) - {fd} \<subseteq> fst ` set (conns sv')" if m: "map fst (conns sv') = map fst (conns sv)" for sv' :: Server
    using m by (metis Diff_subset list.set_map)
  have reading: "\<exists>sv2 db'. (if ei
                 then (case map_of (conns sv1) fd of
                         None \<Rightarrow> None
                       | Some c \<Rightarrow> (case HandleReadable ops rs ctl2 ws2 c db of (r, c', db') \<Rightarrow>
                           Some (if alive r then set_conn fd r c' sv1 else CloseConn fd (set_conn fd r c' sv1), db')))
                 else Some (sv1, db)) = Some (sv2, db') \<and> server_ok sv2 \<and> fst ` set (conns sv) - {fd} \<subseteq> fst ` set (conns sv2)"
    if m: "map fst (conns sv1) = map fst (conns sv)" and k: "server_ok sv1" for sv1 :: Server
  proof (cases ei)
    case True
    obtain c where c: "map_of (conns sv1) fd = Some c" using fd [OF m] by blast
    obtain r c' db' where h: "HandleReadable ops rs ctl2 ws2 c db = (r, c', db')" by (metis prod_cases3)
    have m2: "map fst (conns (set_conn fd r c' sv1)) = map fst (conns sv)" using m by (simp add: set_conn_fds)
    show ?thesis using True c h close [OF m2] keep [OF m2] set_conn_ok [OF k] CloseConn_ok by (cases "alive r") auto
  qed (use keep [OF m] k in auto)
  show ?thesis
  proof (cases "er \<and> \<not> ei")
    case True
    then show ?thesis using ConnEvent close [OF refl] CloseConn_ok [OF assms(1)] by (auto simp: handle_event_def)
  next
    case live: False
    show ?thesis
    proof (cases eo)
      case True
      obtain c where c: "map_of (conns sv) fd = Some c" using fd [OF refl] by blast
      obtain r c' where h: "HandleWritable ctl1 ws1 c = (r, c')" by fastforce
      have m2: "map fst (conns (set_conn fd r c' sv)) = map fst (conns sv)" by (simp add: set_conn_fds)
      show ?thesis
      proof (cases "alive r")
        case False
        then show ?thesis using ConnEvent live True c h close [OF m2] set_conn_ok [OF assms(1)] CloseConn_ok
          by (auto simp: handle_event_def)
      next
        case r: True
        then show ?thesis using reading [OF m2 set_conn_ok [OF assms(1)]]
          unfolding ConnEvent handle_event_def prod.case event.case if_not_P [OF live] Let_def by (simp add: True c h)
      qed
    next
      case False
      then show ?thesis using reading [OF refl assms(1)]
        unfolding ConnEvent handle_event_def prod.case event.case if_not_P [OF live] Let_def by simp
    qed
  qed
qed (use assms AcceptNewClients_ok AcceptNewClients_keeps in \<open>auto simp: handle_event_def\<close>)

lemma batch_loop_ok:
  assumes "server_ok sv" and "distinct (concat (map event_fds es))" and "set (concat (map event_fds es)) \<subseteq> fst ` set (conns sv)"
  shows "\<exists>sv' db'. batch_loop ops es (sv, db) = Some (sv', db') \<and> server_ok sv'"
  using assms
proof (induction es arbitrary: sv db)
  case (Cons e es)
  have sub: "set (event_fds e) \<subseteq> fst ` set (conns sv)" using Cons.prems(3) by simp
  from handle_event_ok [OF Cons.prems(1) sub, of ops db] obtain sv1 db1 where e: "handle_event ops e (sv, db) = Some (sv1, db1)" "server_ok sv1"
    "fst ` set (conns sv) - set (event_fds e) \<subseteq> fst ` set (conns sv1)" by (elim exE conjE) (rule that)
  have "set (concat (map event_fds es)) \<subseteq> fst ` set (conns sv) - set (event_fds e)" using Cons.prems(2,3) by (auto simp: subset_iff)
  then have "set (concat (map event_fds es)) \<subseteq> fst ` set (conns sv1)" using e(3) by (rule subset_trans)
  from Cons.IH [OF e(2) _ this, of db1] Cons.prems(2) e(1) show ?case by simp
qed simp

text \<open>
  C34: a batch of events that names each open connection at most once, and no closed
  one, is handled to its end without an exception from \<^verbatim>\<open>conns_.at\<close>, whatever the sockets
  answer; the table of connections keeps distinct descriptors and at most \<^verbatim>\<open>kMaxConns\<close> of
  them.
\<close>

theorem server_batch_safe:
  assumes "length (conns sv) \<le> kMaxConns" and "distinct (map fst (conns sv))"
    and "distinct (concat (map event_fds es))" and "set (concat (map event_fds es)) \<subseteq> fst ` set (conns sv)"
  shows "\<exists>sv' db'. Server_Loop ops [(False, Events es)] (sv, db) = Some (sv', db') \<and>
    length (conns sv') \<le> kMaxConns \<and> distinct (map fst (conns sv'))"
proof -
  have "server_ok sv" using assms(1,2) by (simp add: server_ok_def)
  from batch_loop_ok [OF this assms(3,4), of ops db] obtain sv' db' where b: "batch_loop ops es (sv, db) = Some (sv', db')" "server_ok sv'" by (elim exE conjE) (rule that)
  then show ?thesis by (simp add: server_ok_def)
qed

theorem server_batch_safe_witness:
  "\<exists>sv' db'. Server_Loop map_ops [(False, Events [ListenEvent [Accepted 8 True], ConnEvent 7 True False False [] [] [] True True])]
       (\<lparr>conns = [(7, NewConn)], out_armed = (\<lambda>_. False), wire = (\<lambda>_. [])\<rparr>, \<lambda>_. None) = Some (sv', db') \<and>
     length (conns sv') \<le> kMaxConns \<and> distinct (map fst (conns sv'))"
  by (rule server_batch_safe) (simp_all add: kMaxConns_def)

end
