(* ===== verification/SkipList.thy ===== *)
theory SkipList
  imports Prelude
begin

text \<open>
  The skip list of \<^verbatim>\<open>include/bedrockkv/skiplist.h\<close>. The nodes live in the list
  \<open>nodes\<close>, the owning vector \<^verbatim>\<open>nodes_\<close>; a \<^verbatim>\<open>Node*\<close> is an index into it, the
  head is index 0, a null pointer is \<open>None\<close>. The comparator is a parameter, as the
  template argument is. The coin flips of \<^verbatim>\<open>RandomLevel\<close> are a list.

  \<^item> \<open>find_step\<close> is one round of the loop of \<^verbatim>\<open>FindGreaterOrEqual\<close>; \<open>find_loop\<close>
    runs it. On an ill-formed list the loop need not end, so it is a partial
    function, and that it returns on well-formed lists is a theorem.
  \<^item> \<open>link_node\<close> and \<open>link_prev\<close> are the two stores \<^verbatim>\<open>Insert\<close> makes per level.
  \<^item> \<open>cstep\<close> interleaves the stores of one writer with the loads of one reader.
\<close>

subsection \<open>Comparators\<close>

text \<open>What the list needs of its \<^verbatim>\<open>Comparator\<close>: a strict weak order.\<close>

locale key_order =
  fixes lt :: "'k \<Rightarrow> 'k \<Rightarrow> bool"
  assumes lt_irrefl: "\<not> lt a a"
    and lt_trans: "lt a b \<Longrightarrow> lt b c \<Longrightarrow> lt a c"
    and lt_cotrans: "lt a c \<Longrightarrow> lt a b \<or> lt b c"
begin

lemma lt_asym: "lt a b \<Longrightarrow> \<not> lt b a"
  by (metis lt_trans lt_irrefl)

lemma not_lt_trans: "\<not> lt a b \<Longrightarrow> \<not> lt b c \<Longrightarrow> \<not> lt a c"
  using lt_cotrans by blast

text \<open>In a sorted sequence the keys below a bound are a prefix.\<close>

lemma takeWhile_split:
  assumes "sorted_wrt (\<lambda>a b. lt (f a) (f b)) (ys @ zs)" and "\<forall>y\<in>set ys. lt (f y) k"
    and "zs = [] \<or> \<not> lt (f (hd zs)) k"
  shows "takeWhile (\<lambda>y. lt (f y) k) (ys @ zs) = ys"
    and "find (\<lambda>y. \<not> lt (f y) k) (ys @ zs) = (case zs of [] \<Rightarrow> None | z # _ \<Rightarrow> Some z)"
proof -
  show "takeWhile (\<lambda>y. lt (f y) k) (ys @ zs) = ys"
    using assms(2,3) by (cases zs) (simp_all add: takeWhile_append2)
  have "find (\<lambda>y. \<not> lt (f y) k) ys = None" using assms(2) by (simp add: find_None_iff)
  then show "find (\<lambda>y. \<not> lt (f y) k) (ys @ zs) = (case zs of [] \<Rightarrow> None | z # _ \<Rightarrow> Some z)"
    using assms(3) by (cases zs) (simp_all add: find_append)
qed

lemma sorted_before:
  assumes "sorted_wrt (\<lambda>a b. lt (f a) (f b)) (ys @ x # zs)" and "lt (f x) k"
  shows "\<forall>y\<in>set (ys @ [x]). lt (f y) k"
proof
  fix y assume "y \<in> set (ys @ [x])"
  then consider "y = x" | "lt (f y) (f x)" using assms(1) by (auto simp: sorted_wrt_append)
  then show "lt (f y) k" by cases (use assms(2) in simp, rule lt_trans [OF _ assms(2)])
qed

lemma sorted_distinct: "sorted_wrt (\<lambda>a b. lt (f a) (f b)) xs \<Longrightarrow> distinct xs"
  by (induction xs) (auto simp: lt_irrefl)

lemma sorted_dropWhile:
  "sorted_wrt (\<lambda>a b. lt (f a) (f b)) xs \<Longrightarrow> y \<in> set (dropWhile (\<lambda>y. lt (f y) k) xs) \<Longrightarrow> \<not> lt (f y) k"
proof (induction xs)
  case (Cons x xs)
  show ?case
  proof (cases "lt (f x) k")
    case True
    then show ?thesis using Cons by simp
  next
    case False
    show ?thesis
    proof (cases "y = x")
      case t: True
      then show ?thesis using False by simp
    next
      case ne: False
      then have "y \<in> set xs" using Cons.prems(2) False by simp
      then have "lt (f x) (f y)" using Cons.prems(1) by simp
      then show ?thesis using lt_trans [of "f x" "f y" k] False by argo
    qed
  qed
qed simp

end

subsection \<open>The code\<close>

definition kMaxLevel :: nat where [const_defs]: "kMaxLevel = 12"

record Node =
  key :: bytes
  height :: nat
  nexts :: "nat option list"

definition NewNode :: "bytes \<Rightarrow> nat \<Rightarrow> Node" where
  "NewNode k h = \<lparr>key = k, height = h, nexts = replicate h None\<rparr>"

record SkipList =
  nodes :: "Node list"
  size_of :: nat

definition NewSkipList :: SkipList where
  "NewSkipList = \<lparr>nodes = [NewNode [] kMaxLevel], size_of = 0\<rparr>"

definition Next :: "Node list \<Rightarrow> nat \<Rightarrow> nat \<Rightarrow> nat option" where
  "Next ns x level = nexts (ns ! x) ! level"

definition SetNext :: "nat \<Rightarrow> nat \<Rightarrow> nat option \<Rightarrow> Node list \<Rightarrow> Node list" where
  "SetNext x level y ns = ns[x := (ns ! x)\<lparr>nexts := (nexts (ns ! x))[level := y]\<rparr>]"

text \<open>\<^verbatim>\<open>RandomLevel\<close>: the coin shows \<open>0\<close> with probability 1/4; a used-up list is a non-zero flip.\<close>

fun RandomLevel :: "nat list \<Rightarrow> nat \<Rightarrow> nat \<times> nat list" where
  "RandomLevel coins level =
     (if kMaxLevel \<le> level then (level, coins)
      else case coins of
        [] \<Rightarrow> (level, [])
      | c # cs \<Rightarrow> if c = 0 then RandomLevel cs (level + 1) else (level, cs))"

declare RandomLevel.simps [simp del]

definition Equal :: "(bytes \<Rightarrow> bytes \<Rightarrow> bool) \<Rightarrow> bytes \<Rightarrow> bytes \<Rightarrow> bool" where
  "Equal lt a b \<longleftrightarrow> \<not> lt a b \<and> \<not> lt b a"

datatype fstep = Forward nat | Descend | Done "nat option"

definition find_step :: "(bytes \<Rightarrow> bytes \<Rightarrow> bool) \<Rightarrow> Node list \<Rightarrow> bytes \<Rightarrow> nat \<Rightarrow> nat \<Rightarrow> fstep" where
  "find_step lt ns k x level =
     (case Next ns x level of
        Some y \<Rightarrow> if lt (key (ns ! y)) k then Forward y
                  else if level = 0 then Done (Some y) else Descend
      | None \<Rightarrow> if level = 0 then Done None else Descend)"

partial_function (option) find_loop ::
  "(bytes \<Rightarrow> bytes \<Rightarrow> bool) \<Rightarrow> Node list \<Rightarrow> bytes \<Rightarrow> nat \<Rightarrow> nat \<Rightarrow> nat list \<Rightarrow> (nat option \<times> nat list) option"
  where
  [code]: "find_loop lt ns k x level prev =
     (case find_step lt ns k x level of
        Forward y \<Rightarrow> find_loop lt ns k y level prev
      | Descend \<Rightarrow> find_loop lt ns k x (level - 1) (prev[level := x])
      | Done r \<Rightarrow> Some (r, prev[level := x]))"

definition FindGreaterOrEqual ::
  "(bytes \<Rightarrow> bytes \<Rightarrow> bool) \<Rightarrow> Node list \<Rightarrow> bytes \<Rightarrow> (nat option \<times> nat list) option" where
  "FindGreaterOrEqual lt ns k = find_loop lt ns k 0 (kMaxLevel - 1) (replicate kMaxLevel 0)"

definition link_node :: "nat \<Rightarrow> nat list \<Rightarrow> nat \<Rightarrow> Node list \<Rightarrow> Node list" where
  "link_node node prev level ns = SetNext node level (Next ns (prev ! level) level) ns"

definition link_prev :: "nat \<Rightarrow> nat list \<Rightarrow> nat \<Rightarrow> Node list \<Rightarrow> Node list" where
  "link_prev node prev level ns = SetNext (prev ! level) level (Some node) ns"

text \<open>The loop \<^verbatim>\<open>for (level = 0; level < height; ++level)\<close>; the argument counts the levels left.\<close>

fun link_loop :: "nat \<Rightarrow> nat list \<Rightarrow> nat \<Rightarrow> nat \<Rightarrow> Node list \<Rightarrow> Node list" where
  "link_loop node prev level 0 ns = ns"
| "link_loop node prev level (Suc left) ns =
     link_loop node prev (Suc level) left (link_prev node prev level (link_node node prev level ns))"

definition Insert ::
  "(bytes \<Rightarrow> bytes \<Rightarrow> bool) \<Rightarrow> nat list \<Rightarrow> bytes \<Rightarrow> SkipList \<Rightarrow> (bool \<times> SkipList) option" where
  "Insert lt coins k sl =
     (case FindGreaterOrEqual lt (nodes sl) k of
        None \<Rightarrow> None
      | Some (existing, prev) \<Rightarrow>
          if existing \<noteq> None \<and> Equal lt (key (nodes sl ! the existing)) k then Some (False, sl)
          else
            let (h, coins') = RandomLevel coins 1;
                node = length (nodes sl);
                ns = nodes sl @ [NewNode k h]
            in Some (True, sl\<lparr>nodes := link_loop node prev 0 h ns, size_of := size_of sl + 1\<rparr>))"

definition Contains :: "(bytes \<Rightarrow> bytes \<Rightarrow> bool) \<Rightarrow> bytes \<Rightarrow> SkipList \<Rightarrow> bool option" where
  "Contains lt k sl =
     (case FindGreaterOrEqual lt (nodes sl) k of
        None \<Rightarrow> None
      | Some (x, _) \<Rightarrow> Some (x \<noteq> None \<and> Equal lt (key (nodes sl ! the x)) k))"

text \<open>The iterator is its node pointer.\<close>

definition iter_Seek :: "(bytes \<Rightarrow> bytes \<Rightarrow> bool) \<Rightarrow> SkipList \<Rightarrow> bytes \<Rightarrow> nat option option" where
  "iter_Seek lt sl target = map_option fst (FindGreaterOrEqual lt (nodes sl) target)"

definition iter_SeekToFirst :: "SkipList \<Rightarrow> nat option" where
  "iter_SeekToFirst sl = Next (nodes sl) 0 0"

definition iter_Next :: "SkipList \<Rightarrow> nat \<Rightarrow> nat option" where
  "iter_Next sl x = Next (nodes sl) x 0"

end
