(* ===== verification/SkipListCorrect.thy ===== *)
theory SkipListCorrect
  imports SkipList
begin

text \<open>
  Correctness of the skip list: the tower invariant, that every search returns on a
  list that has it and what it returns, that \<^verbatim>\<open>Insert\<close> keeps it and adds the key at
  its place, and that a reader that runs while \<^verbatim>\<open>Insert\<close> links its node sees the
  list either without or with the new key.
\<close>

subsection \<open>Paths\<close>

text \<open>The nodes met by following \<^verbatim>\<open>Next(level)\<close> from \<open>x\<close> to the null pointer.\<close>

fun chain :: "Node list \<Rightarrow> nat \<Rightarrow> nat \<Rightarrow> nat list \<Rightarrow> bool" where
  "chain ns l x [] \<longleftrightarrow> Next ns x l = None"
| "chain ns l x (y # ys) \<longleftrightarrow> Next ns x l = Some y \<and> chain ns l y ys"

lemma chain_append: "chain ns l x (ys @ zs) \<Longrightarrow> chain ns l (last (x # ys)) zs"
  by (induction ys arbitrary: x) auto

lemma chain_unique: "chain ns l x ys \<Longrightarrow> chain ns l x zs \<Longrightarrow> ys = zs"
proof (induction ys arbitrary: x zs)
  case Nil
  then show ?case by (cases zs) auto
next
  case (Cons y ys)
  then show ?case by (cases zs) auto
qed

lemma Next_SetNext:
  "x < length ns \<Longrightarrow> l < length (nexts (ns ! x)) \<Longrightarrow>
     Next (SetNext x l v ns) y m = (if y = x \<and> m = l then v else Next ns y m)"
  by (auto simp: Next_def SetNext_def nth_list_update)

lemma SetNext_nth:
  "SetNext x l v ns ! y =
     (if y = x \<and> x < length ns then (ns ! x)\<lparr>nexts := (nexts (ns ! x))[l := v]\<rparr> else ns ! y)"
  by (cases "y = x") (auto simp: SetNext_def not_less list_update_beyond)

lemma SetNext_keeps [simp]:
  "length (SetNext x l v ns) = length ns"
  "key (SetNext x l v ns ! y) = key (ns ! y)"
  "length (nexts (SetNext x l v ns ! y)) = length (nexts (ns ! y))"
  by (simp_all add: SetNext_nth) (simp add: SetNext_def)

lemma SetNext_Nil [simp]: "SetNext x l v ns = [] \<longleftrightarrow> ns = []"
  by (simp add: SetNext_def)

lemma chain_cong: "(\<And>z. z \<in> set (x # ys) \<Longrightarrow> Next ns z l = Next ns' z l) \<Longrightarrow> chain ns l x ys = chain ns' l x ys"
  by (induction ys arbitrary: x) auto

text \<open>Storing a new node behind the end of a prefix of a path.\<close>

lemma chain_insert:
  assumes "chain ns l x (ys @ zs)" and "node \<notin> set (x # ys @ zs)" and "distinct (x # ys @ zs)"
    and "Next ns' (last (x # ys)) l = Some node" and "Next ns' node l = Next ns (last (x # ys)) l"
    and "\<And>z. z \<noteq> last (x # ys) \<Longrightarrow> z \<noteq> node \<Longrightarrow> Next ns' z l = Next ns z l"
  shows "chain ns' l x (ys @ node # zs)"
  using assms
proof (induction ys arbitrary: x)
  case Nil
  have "chain ns' l node zs"
  proof (cases zs)
    case (Cons a list)
    have "chain ns' l a list = chain ns l a list"
    proof (rule chain_cong)
      fix z assume "z \<in> set (a # list)"
      then have "z \<noteq> last [x]" "z \<noteq> node" using Nil.prems(2,3) Cons by auto
      then show "Next ns' z l = Next ns z l" by (rule Nil.prems(6))
    qed
    with Nil.prems Cons show ?thesis by simp
  qed (use Nil.prems in simp)
  with Nil.prems show ?case by simp
next
  case (Cons y ys)
  have "chain ns' l y (ys @ node # zs)" by (rule Cons.IH) (use Cons.prems in auto)
  moreover have "Next ns' x l = Next ns x l" by (rule Cons.prems(6)) (use Cons.prems in auto)
  ultimately show ?case using Cons.prems(1) by simp
qed

subsection \<open>The tower invariant\<close>

text \<open>
  \<open>P l\<close> is the path of level \<open>l\<close>: it is sorted, its nodes are tall enough, and every
  path is part of the one below. The heights need not be used up: the invariant
  also holds between two stores of \<^verbatim>\<open>Insert\<close>.
\<close>

definition tower :: "(bytes \<Rightarrow> bytes \<Rightarrow> bool) \<Rightarrow> Node list \<Rightarrow> (nat \<Rightarrow> nat list) \<Rightarrow> bool" where
  "tower lt ns P \<longleftrightarrow>
     ns \<noteq> [] \<and> length (nexts (ns ! 0)) = kMaxLevel \<and>
     (\<forall>l<kMaxLevel. chain ns l 0 (P l) \<and>
        (\<forall>y\<in>set (P l). 0 < y \<and> y < length ns \<and> l < length (nexts (ns ! y))) \<and>
        sorted_wrt (\<lambda>a b. lt (key (ns ! a)) (key (ns ! b))) (P l)) \<and>
     (\<forall>l. Suc l < kMaxLevel \<longrightarrow> set (P (Suc l)) \<subseteq> set (P l))"

lemma tower_NewSkipList: "tower lt (nodes NewSkipList) (\<lambda>_. [])"
  by (simp add: tower_def NewSkipList_def NewNode_def Next_def)

lemma tower_levels:
  assumes "tower lt ns P" and "l < kMaxLevel"
  shows "chain ns l 0 (P l)" "sorted_wrt (\<lambda>a b. lt (key (ns ! a)) (key (ns ! b))) (P l)"
    and "y \<in> set (P l) \<Longrightarrow> 0 < y \<and> y < length ns \<and> l < length (nexts (ns ! y))"
  using assms unfolding tower_def by auto

lemma tower_down:
  assumes "tower lt ns P" and "Suc l < kMaxLevel" and "y \<in> set (P (Suc l))"
  shows "y \<in> set (P l)"
  using assms unfolding tower_def by blast

text \<open>The predecessor of a key on a path, and the first node not below it.\<close>

definition pred_on :: "(bytes \<Rightarrow> bytes \<Rightarrow> bool) \<Rightarrow> Node list \<Rightarrow> bytes \<Rightarrow> nat list \<Rightarrow> nat" where
  "pred_on lt ns k ys = last (0 # takeWhile (\<lambda>y. lt (key (ns ! y)) k) ys)"

definition first_ge :: "(bytes \<Rightarrow> bytes \<Rightarrow> bool) \<Rightarrow> Node list \<Rightarrow> bytes \<Rightarrow> nat list \<Rightarrow> nat option" where
  "first_ge lt ns k ys = find (\<lambda>y. \<not> lt (key (ns ! y)) k) ys"

text \<open>A search stands at node \<open>x\<close> of level \<open>l\<close>: at the head or at a node below the key.\<close>

definition standing :: "(bytes \<Rightarrow> bytes \<Rightarrow> bool) \<Rightarrow> Node list \<Rightarrow> (nat \<Rightarrow> nat list) \<Rightarrow> bytes \<Rightarrow> nat \<Rightarrow> nat \<Rightarrow> bool" where
  "standing lt ns P k x l \<longleftrightarrow> l < kMaxLevel \<and> (x = 0 \<or> x \<in> set (P l) \<and> lt (key (ns ! x)) k)"

text \<open>The forward moves of one level end at the predecessor.\<close>

lemma find_forward:
  "chain ns l x zs \<Longrightarrow>
     find_loop lt ns k x l prev = find_loop lt ns k (last (x # takeWhile (\<lambda>y. lt (key (ns ! y)) k) zs)) l prev"
proof (induction zs arbitrary: x)
  case (Cons z zs)
  show ?case
  proof (cases "lt (key (ns ! z)) k")
    case True
    with Cons.prems have "find_step lt ns k x l = Forward z" by (simp add: find_step_def)
    then have "find_loop lt ns k x l prev = find_loop lt ns k z l prev"
      by (subst find_loop.simps) simp
    with Cons True show ?thesis by simp
  qed simp
qed simp

lemma find_at_pred:
  assumes "chain ns l 0 ys"
  shows "find_step lt ns k (pred_on lt ns k ys) l = (if l = 0 then Done (first_ge lt ns k ys) else Descend)"
proof -
  let ?p = "\<lambda>y. lt (key (ns ! y)) k"
  have "chain ns l (pred_on lt ns k ys) (dropWhile ?p ys)"
    using chain_append [of ns l 0 "takeWhile ?p ys" "dropWhile ?p ys"] assms by (simp add: pred_on_def)
  moreover have "first_ge lt ns k ys = (case dropWhile ?p ys of [] \<Rightarrow> None | y # _ \<Rightarrow> Some y)"
    by (simp add: first_ge_def find_hd_dropWhile)
  moreover have "dropWhile ?p ys = z # zs \<Longrightarrow> \<not> ?p z" for z zs
    by (metis hd_dropWhile list.discI list.sel(1))
  ultimately show ?thesis by (cases "dropWhile ?p ys") (simp_all add: find_step_def)
qed

locale byte_order = key_order lt for lt :: "8 word list \<Rightarrow> 8 word list \<Rightarrow> bool"
begin

lemma standing_split:
  assumes t: "tower lt ns P" and st: "standing lt ns P k x l"
  obtains ys zs where "P l = ys @ zs" "last (0 # ys) = x" "\<forall>y\<in>set ys. lt (key (ns ! y)) k"
proof (cases "x = 0")
  case True
  then show ?thesis by (intro that [of "[]" "P l"]) auto
next
  case False
  with st have x: "x \<in> set (P l)" "lt (key (ns ! x)) k" "l < kMaxLevel" by (auto simp: standing_def)
  then obtain ys zs where s: "P l = ys @ x # zs" by (meson split_list)
  have "\<forall>y\<in>set (ys @ [x]). lt (key (ns ! y)) k"
    using tower_levels(2) [OF t x(3)] x(2) unfolding s by (rule sorted_before)
  with s show ?thesis by (intro that [of "ys @ [x]" zs]) auto
qed

text \<open>One round of the loop.\<close>

lemma find_step_standing:
  assumes t: "tower lt ns P" and st: "standing lt ns P k x l"
  shows "case find_step lt ns k x l of
       Forward y \<Rightarrow> standing lt ns P k y l
     | Descend \<Rightarrow> 0 < l \<and> standing lt ns P k x (l - 1) \<and> x = pred_on lt ns k (P l)
     | Done r \<Rightarrow> l = 0 \<and> r = first_ge lt ns k (P 0) \<and> x = pred_on lt ns k (P l)"
proof -
  obtain ys zs where s: "P l = ys @ zs" "last (0 # ys) = x" "\<forall>y\<in>set ys. lt (key (ns ! y)) k"
    by (rule standing_split [OF t st])
  have l: "l < kMaxLevel" using st by (simp add: standing_def)
  have ch: "chain ns l x zs"
    using chain_append [of ns l 0 ys zs] tower_levels(1) [OF t l] s by simp
  note sorted = tower_levels(2) [OF t l, unfolded s(1)]
  show ?thesis
  proof (cases "zs \<noteq> [] \<and> lt (key (ns ! hd zs)) k")
    case True
    then obtain z zs' where z: "zs = z # zs'" "lt (key (ns ! z)) k" by (cases zs) auto
    with ch have "find_step lt ns k x l = Forward z" by (simp add: find_step_def)
    with z s l show ?thesis by (simp add: standing_def)
  next
    case False
    then have stop: "zs = [] \<or> \<not> lt (key (ns ! hd zs)) k" by blast
    note ends = takeWhile_split [OF sorted s(3) stop]
    have p: "x = pred_on lt ns k (P l)" using s ends(1) by (simp add: pred_on_def)
    have f: "first_ge lt ns k (P l) = (case zs of [] \<Rightarrow> None | z # _ \<Rightarrow> Some z)"
      using ends(2) s(1) by (simp add: first_ge_def)
    have fs: "find_step lt ns k x l = (if l = 0 then Done (case zs of [] \<Rightarrow> None | z # _ \<Rightarrow> Some z) else Descend)"
      using ch stop by (cases zs) (simp_all add: find_step_def)
    have "standing lt ns P k x (l - 1)" if "0 < l"
    proof -
      from that l have "Suc (l - 1) < kMaxLevel" "Suc (l - 1) = l" by simp_all
      with st tower_down [OF t, of "l - 1" x] show ?thesis by (simp add: standing_def) blast
    qed
    with fs p f show ?thesis by (cases "l = 0") simp_all
  qed
qed

lemma find_to_pred:
  assumes t: "tower lt ns P" and st: "standing lt ns P k x l"
  shows "find_loop lt ns k x l prev = find_loop lt ns k (pred_on lt ns k (P l)) l prev"
proof -
  obtain ys zs where s: "P l = ys @ zs" "last (0 # ys) = x" "\<forall>y\<in>set ys. lt (key (ns ! y)) k"
    by (rule standing_split [OF t st])
  have l: "l < kMaxLevel" using st by (simp add: standing_def)
  have "chain ns l x zs" using chain_append [of ns l 0 ys zs] tower_levels(1) [OF t l] s by simp
  then have fw: "find_loop lt ns k x l prev =
      find_loop lt ns k (last (x # takeWhile (\<lambda>y. lt (key (ns ! y)) k) zs)) l prev"
    by (rule find_forward)
  have tw: "takeWhile (\<lambda>y. lt (key (ns ! y)) k) (P l) = ys @ takeWhile (\<lambda>y. lt (key (ns ! y)) k) zs"
    unfolding s(1) using s(3) by (intro takeWhile_append2) simp
  have "pred_on lt ns k (P l) = last (x # takeWhile (\<lambda>y. lt (key (ns ! y)) k) zs)"
    unfolding pred_on_def tw s(2) [symmetric] by (simp add: last_append)
  with fw show ?thesis by simp
qed

lemma standing_pred: "l < kMaxLevel \<Longrightarrow> standing lt ns P k (pred_on lt ns k (P l)) l"
proof (cases "takeWhile (\<lambda>y. lt (key (ns ! y)) k) (P l) = []")
  case False
  assume l: "l < kMaxLevel"
  from last_in_set [OF False] have "pred_on lt ns k (P l) \<in> set (takeWhile (\<lambda>y. lt (key (ns ! y)) k) (P l))"
    using False by (simp add: pred_on_def)
  with l show ?thesis by (auto simp: standing_def dest: set_takeWhileD)
qed (simp add: standing_def pred_on_def)

lemma find_loop_returns:
  assumes t: "tower lt ns P" and "standing lt ns P k x l" and "length prev = kMaxLevel"
  shows "\<exists>prev'. find_loop lt ns k x l prev = Some (first_ge lt ns k (P 0), prev')
           \<and> length prev' = kMaxLevel \<and> (\<forall>i\<le>l. prev' ! i = pred_on lt ns k (P i))
           \<and> (\<forall>i. l < i \<longrightarrow> prev' ! i = prev ! i)"
  using assms(2,3)
proof (induction l arbitrary: x prev)
  case (0 x prev)
  have x: "find_loop lt ns k x 0 prev = find_loop lt ns k (pred_on lt ns k (P 0)) 0 prev"
    by (rule find_to_pred [OF t "0.prems"(1)])
  have "0 < kMaxLevel" by (simp add: kMaxLevel_def)
  then have "find_step lt ns k (pred_on lt ns k (P 0)) 0 = Done (first_ge lt ns k (P 0))"
    using find_at_pred tower_levels(1) [OF t] by simp
  then have "find_loop lt ns k (pred_on lt ns k (P 0)) 0 prev = Some (first_ge lt ns k (P 0), prev[0 := pred_on lt ns k (P 0)])"
    by (subst find_loop.simps) simp
  with x "0.prems"(2) show ?case by (simp add: kMaxLevel_def)
next
  case (Suc l x prev)
  let ?x = "pred_on lt ns k (P (Suc l))"
  have lev: "Suc l < kMaxLevel" using Suc.prems(1) by (simp add: standing_def)
  have x: "find_loop lt ns k x (Suc l) prev = find_loop lt ns k ?x (Suc l) prev"
    by (rule find_to_pred [OF t Suc.prems(1)])
  have st: "find_step lt ns k ?x (Suc l) = Descend"
    using find_at_pred tower_levels(1) [OF t lev] by simp
  then have d: "find_loop lt ns k ?x (Suc l) prev = find_loop lt ns k ?x l (prev[Suc l := ?x])"
    by (subst find_loop.simps) simp
  have "standing lt ns P k ?x (Suc l)" by (rule standing_pred [OF lev])
  from find_step_standing [OF t this] st have "standing lt ns P k ?x l" by simp
  from Suc.IH [OF this, of "prev[Suc l := ?x]"] Suc.prems(2) obtain prev' where
    p: "find_loop lt ns k ?x l (prev[Suc l := ?x]) = Some (first_ge lt ns k (P 0), prev')"
    "length prev' = kMaxLevel" "\<forall>i\<le>l. prev' ! i = pred_on lt ns k (P i)"
    "\<forall>i. l < i \<longrightarrow> prev' ! i = prev[Suc l := ?x] ! i" by auto
  have "\<forall>i\<le>Suc l. prev' ! i = pred_on lt ns k (P i)"
    using p lev Suc.prems(2) by (auto simp: le_Suc_eq)
  with p x d show ?case by auto
qed

lemma FindGreaterOrEqual_returns:
  assumes "tower lt ns P"
  obtains prev where "FindGreaterOrEqual lt ns k = Some (first_ge lt ns k (P 0), prev)"
    "length prev = kMaxLevel" "\<And>i. i < kMaxLevel \<Longrightarrow> prev ! i = pred_on lt ns k (P i)"
proof -
  have "standing lt ns P k 0 (kMaxLevel - 1)" by (simp add: standing_def kMaxLevel_def)
  from find_loop_returns [OF assms this, of "replicate kMaxLevel 0"] show ?thesis
    by (auto simp: FindGreaterOrEqual_def intro: that)
qed

end

subsection \<open>Linking a node\<close>

text \<open>The path of a level with \<open>node\<close> at its place.\<close>

definition ins_at :: "(bytes \<Rightarrow> bytes \<Rightarrow> bool) \<Rightarrow> Node list \<Rightarrow> bytes \<Rightarrow> nat \<Rightarrow> nat list \<Rightarrow> nat list" where
  "ins_at lt ns k node ys =
     takeWhile (\<lambda>y. lt (key (ns ! y)) k) ys @ node # dropWhile (\<lambda>y. lt (key (ns ! y)) k) ys"

lemma set_ins_at [simp]: "set (ins_at lt ns k node ys) = insert node (set ys)"
proof -
  have "set ys = set (takeWhile (\<lambda>y. lt (key (ns ! y)) k) ys) \<union> set (dropWhile (\<lambda>y. lt (key (ns ! y)) k) ys)"
    by (metis set_append takeWhile_dropWhile_id)
  then show ?thesis by (auto simp: ins_at_def)
qed

text \<open>\<open>node\<close> is linked on the levels below \<open>level\<close> and on no other.\<close>

definition linking ::
  "(bytes \<Rightarrow> bytes \<Rightarrow> bool) \<Rightarrow> Node list \<Rightarrow> (nat \<Rightarrow> nat list) \<Rightarrow> bytes \<Rightarrow> nat \<Rightarrow> nat list \<Rightarrow> nat \<Rightarrow> bool" where
  "linking lt ns P k node prev level \<longleftrightarrow>
     tower lt ns P \<and> 0 < node \<and> node < length ns \<and> key (ns ! node) = k
     \<and> level \<le> length (nexts (ns ! node)) \<and> length (nexts (ns ! node)) \<le> kMaxLevel
     \<and> (\<forall>l<kMaxLevel. (node \<in> set (P l)) = (l < level))
     \<and> (\<forall>l<kMaxLevel. level \<le> l \<longrightarrow> prev ! l = pred_on lt ns k (P l))
     \<and> (\<forall>l<kMaxLevel. \<forall>y\<in>set (P l). y \<noteq> node \<longrightarrow> \<not> Equal lt (key (ns ! y)) k)"

lemma pred_on_bound:
  assumes "tower lt ns P" and "l < kMaxLevel"
  shows "pred_on lt ns k (P l) < length ns" "l < length (nexts (ns ! pred_on lt ns k (P l)))"
    and "pred_on lt ns k (P l) = 0 \<or> pred_on lt ns k (P l) \<in> set (P l)"
proof -
  let ?tw = "takeWhile (\<lambda>y. lt (key (ns ! y)) k) (P l)"
  have "pred_on lt ns k (P l) = 0 \<or> pred_on lt ns k (P l) \<in> set (P l)"
  proof (cases "?tw = []")
    case False
    from last_in_set [OF this] have "last ?tw \<in> set (P l)" by (blast dest: set_takeWhileD)
    with False show ?thesis by (simp add: pred_on_def)
  qed (simp add: pred_on_def)
  then show "pred_on lt ns k (P l) < length ns" "l < length (nexts (ns ! pred_on lt ns k (P l)))"
    "pred_on lt ns k (P l) = 0 \<or> pred_on lt ns k (P l) \<in> set (P l)"
    using assms unfolding tower_def by (auto simp: neq_Nil_conv)
qed

text \<open>A store outside the paths of its level leaves the tower as it is.\<close>

lemma tower_SetNext_off:
  assumes t: "tower lt ns P" and "0 < x" "x < length ns" "l < length (nexts (ns ! x))"
    and off: "l < kMaxLevel \<Longrightarrow> x \<notin> set (P l)"
  shows "tower lt (SetNext x l v ns) P"
proof -
  have "chain (SetNext x l v ns) m 0 (P m) = chain ns m 0 (P m)" if "m < kMaxLevel" for m
    using that assms by (intro chain_cong) (auto simp: Next_SetNext)
  with t assms show ?thesis unfolding tower_def by auto
qed

lemma linking_link_node:
  assumes l: "linking lt ns P k node prev level" and h: "level < length (nexts (ns ! node))"
  shows "linking lt (link_node node prev level ns) P k node prev level"
    and "Next (link_node node prev level ns) node level = Next (link_node node prev level ns) (prev ! level) level"
proof -
  have lev: "level < kMaxLevel" and t: "tower lt ns P" and n: "0 < node" "node < length ns"
    and off: "node \<notin> set (P level)" and prev: "prev ! level = pred_on lt ns k (P level)"
    using l h unfolding linking_def by auto
  have "tower lt (link_node node prev level ns) P"
    unfolding link_node_def using t n h off by (intro tower_SetNext_off) auto
  with l show "linking lt (link_node node prev level ns) P k node prev level"
    unfolding linking_def link_node_def by (simp add: pred_on_def)
  have "prev ! level \<noteq> node" using pred_on_bound(3) [OF t lev, of k] off n prev by auto
  then show "Next (link_node node prev level ns) node level = Next (link_node node prev level ns) (prev ! level) level"
    unfolding link_node_def using n h by (simp add: Next_SetNext)
qed

context byte_order
begin

lemma tower_distinct:
  assumes "tower lt ns P" and "l < kMaxLevel"
  shows "distinct (0 # P l)"
  using sorted_distinct [OF tower_levels(2) [OF assms]] tower_levels(3) [OF assms, of 0] by auto

lemma sorted_ins_at:
  assumes "sorted_wrt (\<lambda>a b. lt (key (ns ! a)) (key (ns ! b))) ys" and "key (ns ! node) = k"
    and "\<forall>y\<in>set ys. \<not> Equal lt (key (ns ! y)) k"
  shows "sorted_wrt (\<lambda>a b. lt (key (ns ! a)) (key (ns ! b))) (ins_at lt ns k node ys)"
proof -
  let ?p = "\<lambda>y. lt (key (ns ! y)) k"
  have s: "sorted_wrt (\<lambda>a b. lt (key (ns ! a)) (key (ns ! b))) (takeWhile ?p ys @ dropWhile ?p ys)"
    using assms(1) by simp
  have up: "lt k (key (ns ! z))" if "z \<in> set (dropWhile ?p ys)" for z
    using sorted_dropWhile [OF assms(1) that] assms(3) set_dropWhileD [OF that] by (auto simp: Equal_def)
  from s have "sorted_wrt (\<lambda>a b. lt (key (ns ! a)) (key (ns ! b))) (takeWhile ?p ys)"
    "sorted_wrt (\<lambda>a b. lt (key (ns ! a)) (key (ns ! b))) (dropWhile ?p ys)"
    "\<forall>x\<in>set (takeWhile ?p ys). \<forall>z\<in>set (dropWhile ?p ys). lt (key (ns ! x)) (key (ns ! z))"
    unfolding sorted_wrt_append by blast+
  with up assms(2) show ?thesis
    unfolding ins_at_def sorted_wrt_mid by (blast dest: set_takeWhileD)
qed

lemma linking_link_prev:
  assumes l: "linking lt ns P k node prev level" and h: "level < length (nexts (ns ! node))"
    and nx: "Next ns node level = Next ns (prev ! level) level"
  shows "linking lt (link_prev node prev level ns) (P(level := ins_at lt ns k node (P level))) k node prev (Suc level)"
proof -
  let ?ns = "link_prev node prev level ns" and ?P = "P(level := ins_at lt ns k node (P level))"
  have lev: "level < kMaxLevel" and t: "tower lt ns P" and n: "0 < node" "node < length ns" "key (ns ! node) = k"
    and inP: "\<And>m. m < kMaxLevel \<Longrightarrow> (node \<in> set (P m)) = (m < level)"
    and prev: "prev ! level = pred_on lt ns k (P level)"
    and neq: "\<And>m y. m < kMaxLevel \<Longrightarrow> y \<in> set (P m) \<Longrightarrow> y \<noteq> node \<Longrightarrow> \<not> Equal lt (key (ns ! y)) k"
    using l h unfolding linking_def by auto
  note pb = pred_on_bound [OF t lev, of k, folded prev]
  have keys: "key (?ns ! y) = key (ns ! y)" "length (nexts (?ns ! y)) = length (nexts (ns ! y))" "length ?ns = length ns" for y
    by (simp_all add: link_prev_def)
  have other: "Next ?ns y m = (if y = prev ! level \<and> m = level then Some node else Next ns y m)" for y m
    unfolding link_prev_def by (rule Next_SetNext [OF pb(1,2)])
  have pn: "prev ! level \<noteq> node" using pb(3) inP [OF lev] n by auto
  have "chain ?ns level 0 (?P level)"
  proof -
    let ?tw = "takeWhile (\<lambda>y. lt (key (ns ! y)) k) (P level)" and ?dw = "dropWhile (\<lambda>y. lt (key (ns ! y)) k) (P level)"
    have "chain ?ns level 0 (?tw @ node # ?dw)"
    proof (rule chain_insert)
      show "chain ns level 0 (?tw @ ?dw)" using tower_levels(1) [OF t lev] by simp
      show "node \<notin> set (0 # ?tw @ ?dw)" "distinct (0 # ?tw @ ?dw)"
        using inP [OF lev] n(1) tower_distinct [OF t lev] by simp_all
    qed (use prev pn nx in \<open>simp_all add: other pred_on_def\<close>)
    then show ?thesis by (simp add: ins_at_def)
  qed
  moreover have "chain ?ns m 0 (P m)" if "m < kMaxLevel" "m \<noteq> level" for m
    using tower_levels(1) [OF t that(1)] that(2) chain_cong [of 0 "P m" ?ns m ns] by (simp add: other)
  ultimately have ch: "chain ?ns m 0 (?P m)" if "m < kMaxLevel" for m using that by auto
  have setP: "set (?P m) = (if m = level then insert node (set (P level)) else set (P m))" for m
    by simp
  have srt: "sorted_wrt (\<lambda>a b. lt (key (ns ! a)) (key (ns ! b))) (?P m)" if m: "m < kMaxLevel" for m
  proof (cases "m = level")
    case True
    have "\<forall>y\<in>set (P level). \<not> Equal lt (key (ns ! y)) k" using neq [OF lev] inP [OF lev] by blast
    with True show ?thesis using sorted_ins_at [OF tower_levels(2) [OF t lev] n(3)] by simp
  qed (use tower_levels(2) [OF t m] in simp)
  have tall: "0 < y \<and> y < length ns \<and> m < length (nexts (ns ! y))" if "m < kMaxLevel" "y \<in> set (?P m)" for m y
    using that tower_levels(3) [OF t that(1), of y] n h by (auto simp: setP split: if_splits)
  have down: "set (?P (Suc m)) \<subseteq> set (?P m)" if "Suc m < kMaxLevel" for m
    using that tower_down [OF t that] inP [of m] unfolding setP by auto
  have t': "tower lt ?ns ?P"
    using t ch srt tall down unfolding tower_def by (simp add: keys link_prev_def)
  have "pred_on lt ?ns k (?P m) = pred_on lt ns k (P m)" if "Suc level \<le> m" for m
    using that by (simp add: pred_on_def keys)
  with l t' lev h inP neq neq [OF lev] show ?thesis
    unfolding linking_def by (auto simp: keys setP less_Suc_eq simp del: fun_upd_apply)
qed

text \<open>The whole loop of \<^verbatim>\<open>Insert\<close>.\<close>

lemma link_loop_linking:
  assumes "linking lt ns P k node prev level" and "level + left = length (nexts (ns ! node))"
  shows "\<exists>P'. linking lt (link_loop node prev level left ns) P' k node prev (level + left)
     \<and> P' 0 = (if level = 0 \<and> 0 < left then ins_at lt ns k node (P 0) else P 0)
     \<and> (\<forall>y. key (link_loop node prev level left ns ! y) = key (ns ! y))"
  using assms
proof (induction left arbitrary: ns P level)
  case (Suc left)
  let ?ns1 = "link_node node prev level ns"
  let ?ns2 = "link_prev node prev level ?ns1"
  have keys: "key (?ns2 ! y) = key (ns ! y)" "length (nexts (?ns2 ! y)) = length (nexts (ns ! y))"
    "key (?ns1 ! y) = key (ns ! y)" "length (nexts (?ns1 ! y)) = length (nexts (ns ! y))" for y
    by (simp_all add: link_node_def link_prev_def)
  have h: "level < length (nexts (ns ! node))" using Suc.prems(2) by simp
  note l1 = linking_link_node [OF Suc.prems(1) h]
  have "linking lt ?ns2 (P(level := ins_at lt ?ns1 k node (P level))) k node prev (Suc level)"
    using l1 h keys by (intro linking_link_prev) simp_all
  from Suc.IH [OF this] Suc.prems(2) keys obtain P' where
    P': "linking lt (link_loop node prev (Suc level) left ?ns2) P' k node prev (Suc level + left)"
    "P' 0 = (P(level := ins_at lt ?ns1 k node (P level))) 0"
    "\<forall>y. key (link_loop node prev (Suc level) left ?ns2 ! y) = key (ns ! y)" by auto
  have "ins_at lt ?ns1 k node (P level) = ins_at lt ns k node (P level)" by (simp add: ins_at_def keys)
  with P' show ?case by (intro exI [of _ P']) auto
qed auto

end

subsection \<open>The list of keys\<close>

text \<open>\<open>sl\<close> holds exactly the keys \<open>ks\<close>, in this order.\<close>

definition holds_keys :: "(bytes \<Rightarrow> bytes \<Rightarrow> bool) \<Rightarrow> SkipList \<Rightarrow> bytes list \<Rightarrow> bool" where
  "holds_keys lt sl ks \<longleftrightarrow>
     (\<exists>P. tower lt (nodes sl) P \<and> map (\<lambda>x. key (nodes sl ! x)) (P 0) = ks) \<and> size_of sl = length ks"

definition insert_key :: "(bytes \<Rightarrow> bytes \<Rightarrow> bool) \<Rightarrow> bytes \<Rightarrow> bytes list \<Rightarrow> bytes list" where
  "insert_key lt k ks = takeWhile (\<lambda>x. lt x k) ks @ k # dropWhile (\<lambda>x. lt x k) ks"

lemma length_insert_key: "length (insert_key lt k ks) = Suc (length ks)"
proof -
  have "length (takeWhile (\<lambda>x. lt x k) ks) + length (dropWhile (\<lambda>x. lt x k) ks) = length ks"
    by (metis length_append takeWhile_dropWhile_id)
  then show ?thesis by (simp add: insert_key_def)
qed

lemma holds_keys_New: "holds_keys lt NewSkipList []"
  unfolding holds_keys_def using tower_NewSkipList [of lt] by (auto simp: NewSkipList_def)

lemma RandomLevel_bounds: "1 \<le> level \<Longrightarrow> level \<le> kMaxLevel \<Longrightarrow> RandomLevel coins level = (h, cs) \<Longrightarrow> 1 \<le> h \<and> h \<le> kMaxLevel"
proof (induction coins arbitrary: level)
  case Nil
  then show ?case by (simp add: RandomLevel.simps split: if_splits)
next
  case (Cons c coins)
  from Cons.IH [of "level + 1"] Cons.prems show ?case
    by (simp add: RandomLevel.simps [of "c # coins"] split: if_splits)
qed

lemma map_ins_at:
  "key (ns ! node) = k \<Longrightarrow>
     map (\<lambda>x. key (ns ! x)) (ins_at lt ns k node ys) = insert_key lt k (map (\<lambda>x. key (ns ! x)) ys)"
  by (simp add: ins_at_def insert_key_def takeWhile_map dropWhile_map comp_def)

lemma find_map_key: "map_option f (find (\<lambda>y. p (f y)) ys) = find p (map f ys)"
  by (induction ys) auto

lemma find_map_Some: "find (\<lambda>y. p (f y)) ys = Some y \<Longrightarrow> y \<in> set ys \<and> p (f y)"
  by (auto simp: find_Some_iff)

text \<open>Appending a node nobody points to.\<close>

lemma tower_append:
  assumes "tower lt ns P"
  shows "tower lt (ns @ [n]) P"
proof -
  have nx: "Next (ns @ [n]) x l = Next ns x l" if "x < length ns" for x l
    using that by (simp add: Next_def nth_append)
  have "chain (ns @ [n]) l 0 (P l) = chain ns l 0 (P l)" if "l < kMaxLevel" for l
    using that assms by (intro chain_cong nx) (auto simp: tower_def)
  moreover have "sorted_wrt (\<lambda>a b. lt (key ((ns @ [n]) ! a)) (key ((ns @ [n]) ! b))) (P l)" if "l < kMaxLevel" for l
    using tower_levels(2,3) [OF assms that] by (auto simp: nth_append elim!: sorted_wrt_mono_rel [rotated])
  moreover have "0 < y \<and> y < length (ns @ [n]) \<and> l < length (nexts ((ns @ [n]) ! y))"
    if "l < kMaxLevel" "y \<in> set (P l)" for l y
    using tower_levels(3) [OF assms that(1), of y] that(2) by (simp add: nth_append)
  moreover have "length (nexts ((ns @ [n]) ! 0)) = kMaxLevel" using assms by (simp add: tower_def nth_append)
  ultimately show ?thesis using assms unfolding tower_def by blast
qed

lemma tower_subset: "tower lt ns P \<Longrightarrow> l < kMaxLevel \<Longrightarrow> set (P l) \<subseteq> set (P 0)"
proof (induction l)
  case (Suc l)
  then show ?case using tower_down [of lt ns P l] by auto
qed simp

lemma linking_start:
  assumes t: "tower lt ns P" and prev: "\<And>i. i < kMaxLevel \<Longrightarrow> prev ! i = pred_on lt ns k (P i)"
    and new: "\<forall>y\<in>set (P 0). \<not> Equal lt (key (ns ! y)) k" and h: "h \<le> kMaxLevel"
  shows "linking lt (ns @ [NewNode k h]) P k (length ns) prev 0"
proof -
  have low: "y < length ns" if "l < kMaxLevel" "y \<in> set (P l)" for l y
    using tower_levels(3) [OF t that(1)] that(2) by blast
  have p: "pred_on lt (ns @ [NewNode k h]) k (P l) = pred_on lt ns k (P l)" if "l < kMaxLevel" for l
    using low [OF that] unfolding pred_on_def by (simp add: nth_append cong: takeWhile_cong)
  have ne: "\<not> Equal lt (key (ns ! y)) k" if "l < kMaxLevel" "y \<in> set (P l)" for l y
    using new tower_subset [OF t that(1)] that(2) by blast
  have "0 < length ns" using t by (simp add: tower_def)
  then show ?thesis
    unfolding linking_def using tower_append [OF t] low p prev ne h
    by (auto simp: NewNode_def nth_append)
qed

context byte_order
begin

lemma equal_first_ge:
  assumes "sorted_wrt lt ks"
  shows "(\<exists>x\<in>set ks. Equal lt x k) \<longleftrightarrow> (case find (\<lambda>y. \<not> lt y k) ks of None \<Rightarrow> False | Some y \<Rightarrow> Equal lt y k)"
  using assms
proof (induction ks)
  case (Cons x ks)
  show ?case
  proof (cases "lt x k")
    case True
    then have "\<not> Equal lt x k" by (simp add: Equal_def)
    with True Cons show ?thesis by simp
  next
    case False
    have "\<not> Equal lt y k" if "y \<in> set ks" "\<not> Equal lt x k" for y
    proof -
      have "lt x y" "lt k x" using that Cons.prems False by (simp_all add: Equal_def)
      then have "lt k y" by (rule lt_trans [rotated])
      then show ?thesis by (simp add: Equal_def)
    qed
    with False show ?thesis by auto
  qed
qed simp

lemma tower_keys_sorted:
  "tower lt ns P \<Longrightarrow> sorted_wrt lt (map (\<lambda>x. key (ns ! x)) (P 0))"
  using tower_levels(2) [of lt ns P 0] by (simp add: sorted_wrt_map kMaxLevel_def)

lemma Insert_keys:
  assumes "holds_keys lt sl ks"
  shows "\<exists>b sl'. Insert lt coins k sl = Some (b, sl')
     \<and> b = (\<not> (\<exists>x\<in>set ks. Equal lt x k))
     \<and> holds_keys lt sl' (if b then insert_key lt k ks else ks)"
proof -
  from assms obtain P where t: "tower lt (nodes sl) P" and ks: "ks = map (\<lambda>x. key (nodes sl ! x)) (P 0)"
    and sz: "size_of sl = length ks" by (auto simp: holds_keys_def)
  let ?ns = "nodes sl"
  obtain prev where fg: "FindGreaterOrEqual lt ?ns k = Some (first_ge lt ?ns k (P 0), prev)"
    and prev: "length prev = kMaxLevel" "\<And>i. i < kMaxLevel \<Longrightarrow> prev ! i = pred_on lt ?ns k (P i)"
    by (rule FindGreaterOrEqual_returns [OF t, of k]) blast
  let ?dup = "first_ge lt ?ns k (P 0) \<noteq> None \<and> Equal lt (key (?ns ! the (first_ge lt ?ns k (P 0)))) k"
  have "map_option (\<lambda>x. key (?ns ! x)) (first_ge lt ?ns k (P 0)) = find (\<lambda>y. \<not> lt y k) ks"
    unfolding ks first_ge_def by (rule find_map_key)
  then have dup: "?dup \<longleftrightarrow> (\<exists>x\<in>set ks. Equal lt x k)"
    unfolding equal_first_ge [OF tower_keys_sorted [OF t], folded ks]
    by (cases "first_ge lt ?ns k (P 0)") (auto split: option.splits)
  show ?thesis
  proof (cases ?dup)
    case True
    with dup fg assms show ?thesis by (auto simp: Insert_def)
  next
    case False
    obtain h cs where h: "RandomLevel coins 1 = (h, cs)" by (metis surj_pair)
    have hb: "1 \<le> h" "h \<le> kMaxLevel" using RandomLevel_bounds [OF _ _ h] by (auto simp: kMaxLevel_def)
    let ?n0 = "?ns @ [NewNode k h]" and ?node = "length ?ns"
    let ?n1 = "link_loop ?node prev 0 h ?n0"
    have "\<forall>y\<in>set (P 0). \<not> Equal lt (key (?ns ! y)) k" using False dup unfolding ks by auto
    then have "linking lt ?n0 P k ?node prev 0" by (intro linking_start t prev hb(2))
    from link_loop_linking [OF this, of h] hb obtain P' where
      P': "linking lt ?n1 P' k ?node prev h" "P' 0 = ins_at lt ?n0 k ?node (P 0)"
      "\<forall>y. key (?n1 ! y) = key (?n0 ! y)"
      by (auto simp: NewNode_def)
    have low: "\<forall>y\<in>set (P 0). y < length ?ns" using tower_levels(3) [OF t, of 0] by (auto simp: kMaxLevel_def)
    have km: "map (\<lambda>x. key (?n0 ! x)) (P 0) = ks" unfolding ks using low by (simp add: nth_append)
    have "map (\<lambda>x. key (?n1 ! x)) (P' 0) = insert_key lt k ks"
      using P'(3) map_ins_at [of ?n0 ?node k lt "P 0"] unfolding P'(2) km by (simp add: NewNode_def)
    moreover have "tower lt ?n1 P'" using P'(1) by (simp add: linking_def)
    moreover have "length (insert_key lt k ks) = Suc (length ks)" by (rule length_insert_key)
    ultimately have "holds_keys lt (sl\<lparr>nodes := ?n1, size_of := size_of sl + 1\<rparr>) (insert_key lt k ks)"
      unfolding holds_keys_def using sz by auto
    with False dup fg h show ?thesis by (auto simp: Insert_def)
  qed
qed

lemma Seek_keys:
  assumes "holds_keys lt sl ks"
  shows "\<exists>r. iter_Seek lt sl k = Some r \<and> map_option (\<lambda>x. key (nodes sl ! x)) r = find (\<lambda>y. \<not> lt y k) ks"
proof -
  from assms obtain P where t: "tower lt (nodes sl) P" and ks: "ks = map (\<lambda>x. key (nodes sl ! x)) (P 0)"
    by (auto simp: holds_keys_def)
  obtain prev where "FindGreaterOrEqual lt (nodes sl) k = Some (first_ge lt (nodes sl) k (P 0), prev)"
    by (rule FindGreaterOrEqual_returns [OF t, of k])
  then show ?thesis unfolding ks iter_Seek_def first_ge_def
    by (simp add: find_map_key [of _ "\<lambda>y. \<not> lt y k"])
qed

lemma Contains_keys:
  assumes "holds_keys lt sl ks"
  shows "Contains lt k sl = Some (\<exists>x\<in>set ks. Equal lt x k)"
proof -
  from assms obtain P where t: "tower lt (nodes sl) P" and ks: "ks = map (\<lambda>x. key (nodes sl ! x)) (P 0)"
    by (auto simp: holds_keys_def)
  obtain prev where fg: "FindGreaterOrEqual lt (nodes sl) k = Some (first_ge lt (nodes sl) k (P 0), prev)"
    by (rule FindGreaterOrEqual_returns [OF t, of k])
  have "map_option (\<lambda>x. key (nodes sl ! x)) (first_ge lt (nodes sl) k (P 0)) = find (\<lambda>y. \<not> lt y k) ks"
    unfolding ks first_ge_def by (rule find_map_key)
  then show ?thesis
    unfolding equal_first_ge [OF tower_keys_sorted [OF t], folded ks] Contains_def fg
    by (cases "first_ge lt (nodes sl) k (P 0)") (auto split: option.splits)
qed

end

subsection \<open>One writer and one reader\<close>

text \<open>
  The writer is inside the loop of \<^verbatim>\<open>Insert\<close>, at \<open>wlevel\<close>, before its first store or
  (\<open>whalf\<close>) between the two; the reader is inside the loop of
  \<^verbatim>\<open>FindGreaterOrEqual\<close>, or has returned. One step is one store of the writer or
  one load of the reader; the stores are releases and the loads acquires, so the
  steps of the two threads are totally ordered on each pointer, and a pointer store
  that the reader sees carries the earlier ones.
\<close>

datatype reader = Reading nat nat | Returned "nat option"

record conf =
  shared_nodes :: "Node list"
  wlevel :: nat
  whalf :: bool
  rdr :: reader

definition reader_step :: "(bytes \<Rightarrow> bytes \<Rightarrow> bool) \<Rightarrow> Node list \<Rightarrow> bytes \<Rightarrow> nat \<Rightarrow> nat \<Rightarrow> reader" where
  "reader_step lt ns q x l =
     (case find_step lt ns q x l of
        Forward y \<Rightarrow> Reading y l
      | Descend \<Rightarrow> Reading x (l - 1)
      | Done r \<Rightarrow> Returned r)"

inductive cstep :: "(bytes \<Rightarrow> bytes \<Rightarrow> bool) \<Rightarrow> nat \<Rightarrow> nat list \<Rightarrow> nat \<Rightarrow> bytes \<Rightarrow> conf \<Rightarrow> conf \<Rightarrow> bool"
  for lt node prev h q where
  store_node: "wlevel c < h \<Longrightarrow> \<not> whalf c \<Longrightarrow>
     cstep lt node prev h q c (c\<lparr>shared_nodes := link_node node prev (wlevel c) (shared_nodes c), whalf := True\<rparr>)"
| store_prev: "wlevel c < h \<Longrightarrow> whalf c \<Longrightarrow>
     cstep lt node prev h q c
       (c\<lparr>shared_nodes := link_prev node prev (wlevel c) (shared_nodes c), whalf := False, wlevel := wlevel c + 1\<rparr>)"
| load: "rdr c = Reading x l \<Longrightarrow>
     cstep lt node prev h q c (c\<lparr>rdr := reader_step lt (shared_nodes c) q x l\<rparr>)"

inductive_cases cstepE: "cstep lt node prev h q c c'"

text \<open>
  The keys \<open>ks\<close> are in the list, \<open>k\<close> is being inserted, a reader looks for \<open>q\<close>.
\<close>

definition cinv :: "(bytes \<Rightarrow> bytes \<Rightarrow> bool) \<Rightarrow> bytes list \<Rightarrow> bytes \<Rightarrow> nat \<Rightarrow> nat list \<Rightarrow> nat \<Rightarrow> bytes \<Rightarrow> conf \<Rightarrow> bool" where
  "cinv lt ks k node prev h q c \<longleftrightarrow>
     (\<exists>P. linking lt (shared_nodes c) P k node prev (wlevel c)
        \<and> length (nexts (shared_nodes c ! node)) = h
        \<and> map (\<lambda>x. key (shared_nodes c ! x)) (P 0) = (if wlevel c = 0 then ks else insert_key lt k ks)
        \<and> (whalf c \<longrightarrow> Next (shared_nodes c) node (wlevel c) = Next (shared_nodes c) (prev ! wlevel c) (wlevel c))
        \<and> (case rdr c of
             Reading x l \<Rightarrow> standing lt (shared_nodes c) P q x l
           | Returned r \<Rightarrow> map_option (\<lambda>x. key (shared_nodes c ! x)) r \<in>
               {find (\<lambda>y. \<not> lt y q) ks, find (\<lambda>y. \<not> lt y q) (insert_key lt k ks)}))"

lemma standing_mono:
  assumes "standing lt ns P q x l" and "\<And>y. key (ns' ! y) = key (ns ! y)" and "\<And>l. set (P l) \<subseteq> set (P' l)"
  shows "standing lt ns' P' q x l"
  using assms unfolding standing_def by auto

context byte_order
begin

lemma cinv_step:
  assumes "cinv lt ks k node prev h q c" and "cstep lt node prev h q c c'"
  shows "cinv lt ks k node prev h q c'"
  using assms(2)
proof (cases rule: cstep.cases)
  case store_node
  from assms(1) obtain P where P: "linking lt (shared_nodes c) P k node prev (wlevel c)"
    "length (nexts (shared_nodes c ! node)) = h"
    "map (\<lambda>x. key (shared_nodes c ! x)) (P 0) = (if wlevel c = 0 then ks else insert_key lt k ks)"
    "case rdr c of Reading x l \<Rightarrow> standing lt (shared_nodes c) P q x l
       | Returned r \<Rightarrow> map_option (\<lambda>x. key (shared_nodes c ! x)) r \<in>
           {find (\<lambda>y. \<not> lt y q) ks, find (\<lambda>y. \<not> lt y q) (insert_key lt k ks)}"
    unfolding cinv_def by blast
  note l = linking_link_node [OF P(1), unfolded P(2), OF store_node(2)]
  have keys: "key (link_node node prev (wlevel c) (shared_nodes c) ! y) = key (shared_nodes c ! y)" for y
    by (simp add: link_node_def)
  have rd: "case rdr c of Reading x m \<Rightarrow> standing lt (link_node node prev (wlevel c) (shared_nodes c)) P q x m
       | Returned r \<Rightarrow> map_option (\<lambda>x. key (shared_nodes c ! x)) r \<in>
           {find (\<lambda>y. \<not> lt y q) ks, find (\<lambda>y. \<not> lt y q) (insert_key lt k ks)}"
    using P(4) keys by (cases "rdr c") (auto intro: standing_mono)
  show ?thesis
    unfolding cinv_def store_node(1) using l P(2,3) rd keys
    by (intro exI [of _ P]) (cases "rdr c"; simp add: link_node_def)
next
  case store_prev
  from assms(1) store_prev obtain P where P: "linking lt (shared_nodes c) P k node prev (wlevel c)"
    "length (nexts (shared_nodes c ! node)) = h"
    "map (\<lambda>x. key (shared_nodes c ! x)) (P 0) = (if wlevel c = 0 then ks else insert_key lt k ks)"
    "Next (shared_nodes c) node (wlevel c) = Next (shared_nodes c) (prev ! wlevel c) (wlevel c)"
    "case rdr c of Reading x l \<Rightarrow> standing lt (shared_nodes c) P q x l
       | Returned r \<Rightarrow> map_option (\<lambda>x. key (shared_nodes c ! x)) r \<in>
           {find (\<lambda>y. \<not> lt y q) ks, find (\<lambda>y. \<not> lt y q) (insert_key lt k ks)}"
    unfolding cinv_def by blast
  let ?P = "P(wlevel c := ins_at lt (shared_nodes c) k node (P (wlevel c)))"
  have l: "linking lt (link_prev node prev (wlevel c) (shared_nodes c)) ?P k node prev (Suc (wlevel c))"
    using store_prev(2) by (intro linking_link_prev P(1,4)) (simp add: P(2))
  have keys: "key (link_prev node prev (wlevel c) (shared_nodes c) ! y) = key (shared_nodes c ! y)" for y
    by (simp add: link_prev_def)
  have "key (shared_nodes c ! node) = k" using P(1) by (simp add: linking_def)
  then have "map (\<lambda>x. key (shared_nodes c ! x)) (ins_at lt (shared_nodes c) k node (P 0)) =
      insert_key lt k (map (\<lambda>x. key (shared_nodes c ! x)) (P 0))"
    by (rule map_ins_at)
  then have ks: "map (\<lambda>x. key (shared_nodes c ! x)) (?P 0) = insert_key lt k ks"
    using P(3) by (cases "wlevel c = 0") auto
  have rd: "case rdr c of Reading x m \<Rightarrow> standing lt (link_prev node prev (wlevel c) (shared_nodes c)) ?P q x m
       | Returned r \<Rightarrow> map_option (\<lambda>x. key (shared_nodes c ! x)) r \<in>
           {find (\<lambda>y. \<not> lt y q) ks, find (\<lambda>y. \<not> lt y q) (insert_key lt k ks)}"
  proof (cases "rdr c")
    case (Reading x m)
    with P(5) have "standing lt (shared_nodes c) P q x m" by simp
    moreover have "set (P l) \<subseteq> set (?P l)" for l by auto
    ultimately have "standing lt (link_prev node prev (wlevel c) (shared_nodes c)) ?P q x m"
      by (rule standing_mono [OF _ keys])
    with Reading show ?thesis by simp
  qed (use P(5) in simp)
  show ?thesis
    unfolding cinv_def store_prev(1) using l P(2) ks rd keys
    by (intro exI [of _ ?P]) (cases "rdr c"; simp add: link_prev_def del: fun_upd_apply)
next
  case (load x l)
  from assms(1) load obtain P where P: "linking lt (shared_nodes c) P k node prev (wlevel c)"
    "length (nexts (shared_nodes c ! node)) = h"
    "map (\<lambda>x. key (shared_nodes c ! x)) (P 0) = (if wlevel c = 0 then ks else insert_key lt k ks)"
    "whalf c \<longrightarrow> Next (shared_nodes c) node (wlevel c) = Next (shared_nodes c) (prev ! wlevel c) (wlevel c)"
    "standing lt (shared_nodes c) P q x l"
    unfolding cinv_def by auto
  have t: "tower lt (shared_nodes c) P" using P(1) by (simp add: linking_def)
  have f: "map_option (\<lambda>x. key (shared_nodes c ! x)) (first_ge lt (shared_nodes c) q (P 0)) =
      find (\<lambda>y. \<not> lt y q) (if wlevel c = 0 then ks else insert_key lt k ks)"
    unfolding P(3) [symmetric] first_ge_def by (rule find_map_key)
  have "case reader_step lt (shared_nodes c) q x l of Reading x l \<Rightarrow> standing lt (shared_nodes c) P q x l
       | Returned r \<Rightarrow> map_option (\<lambda>x. key (shared_nodes c ! x)) r \<in>
           {find (\<lambda>y. \<not> lt y q) ks, find (\<lambda>y. \<not> lt y q) (insert_key lt k ks)}"
    using find_step_standing [OF t P(5)] f
    by (cases "find_step lt (shared_nodes c) q x l") (auto simp: reader_step_def)
  then show ?thesis unfolding cinv_def load(1) using P
    by (intro exI [of _ P]) (cases "reader_step lt (shared_nodes c) q x l"; simp)
qed

lemma cinv_steps:
  "(cstep lt node prev h q)\<^sup>*\<^sup>* c c' \<Longrightarrow> cinv lt ks k node prev h q c \<Longrightarrow> cinv lt ks k node prev h q c'"
  by (induction rule: rtranclp_induct) (auto intro: cinv_step)

lemma cinv_start:
  assumes "holds_keys lt sl ks" and "\<not> (\<exists>x\<in>set ks. Equal lt x k)"
    and "FindGreaterOrEqual lt (nodes sl) k = Some (r, prev)" and "h \<le> kMaxLevel"
  shows "cinv lt ks k (length (nodes sl)) prev h q
     \<lparr>shared_nodes = nodes sl @ [NewNode k h], wlevel = 0, whalf = False, rdr = Reading 0 (kMaxLevel - 1)\<rparr>"
proof -
  from assms(1) obtain P where t: "tower lt (nodes sl) P" and ks: "ks = map (\<lambda>x. key (nodes sl ! x)) (P 0)"
    by (auto simp: holds_keys_def)
  have "\<And>i. i < kMaxLevel \<Longrightarrow> prev ! i = pred_on lt (nodes sl) k (P i)"
    by (rule FindGreaterOrEqual_returns [OF t, of k]) (use assms(3) in auto)
  moreover have "\<forall>y\<in>set (P 0). \<not> Equal lt (key (nodes sl ! y)) k" using assms(2) unfolding ks by auto
  ultimately have "linking lt (nodes sl @ [NewNode k h]) P k (length (nodes sl)) prev 0"
    by (intro linking_start t assms(4))
  moreover have "\<forall>y\<in>set (P 0). y < length (nodes sl)"
    using tower_levels(3) [OF t, of 0] by (auto simp: kMaxLevel_def)
  ultimately show ?thesis
    unfolding cinv_def
    by (intro exI [of _ P]) (simp add: ks nth_append NewNode_def standing_def kMaxLevel_def)
qed

end

interpretation std_less: byte_order "(<) :: 8 word list \<Rightarrow> 8 word list \<Rightarrow> bool"
  by unfold_locales auto

subsection \<open>Properties\<close>

text \<open>
  C9: on a list that holds the keys \<open>ks\<close>, \<^verbatim>\<open>Insert\<close> returns, whatever the coin
  flips. It returns false and changes nothing exactly when an equivalent key is
  present; otherwise the list afterwards holds the keys with the new one at its
  sorted place, and \<^verbatim>\<open>Contains\<close> answers accordingly.
\<close>

theorem skiplist_insert:
  assumes "byte_order lt" and "holds_keys lt sl ks"
  shows "\<exists>b sl'. Insert lt coins k sl = Some (b, sl')
     \<and> b = (\<not> (\<exists>x\<in>set ks. Equal lt x k))
     \<and> holds_keys lt sl' (if b then insert_key lt k ks else ks)
     \<and> (b \<or> sl' = sl)
     \<and> Contains lt j sl' = Some (\<exists>x\<in>set (if b then insert_key lt k ks else ks). Equal lt x j)"
proof -
  from byte_order.Insert_keys [OF assms, of coins k] obtain b sl' where
    i: "Insert lt coins k sl = Some (b, sl')" "b = (\<not> (\<exists>x\<in>set ks. Equal lt x k))"
    "holds_keys lt sl' (if b then insert_key lt k ks else ks)" by blast
  moreover have "b \<or> sl' = sl"
    using i(1) by (auto simp: Insert_def Let_def split: option.splits prod.splits if_splits)
  ultimately show ?thesis using byte_order.Contains_keys [OF assms(1) i(3), of j] by blast
qed

theorem skiplist_insert_witness:
  "\<exists>b sl'. Insert (<) [0, 3] [7] NewSkipList = Some (b, sl')
     \<and> b = (\<not> (\<exists>x\<in>set []. Equal (<) x [7]))
     \<and> holds_keys (<) sl' (if b then insert_key (<) [7] [] else [])
     \<and> (b \<or> sl' = NewSkipList)
     \<and> Contains (<) [8] sl' = Some (\<exists>x\<in>set (if b then insert_key (<) [7] [] else []). Equal (<) x [8])"
  by (rule skiplist_insert [OF std_less.byte_order_axioms holds_keys_New])

text \<open>
  C6: a reader that runs while \<^verbatim>\<open>Insert\<close> links a new node, with the stores and
  loads interleaved in any way, returns the first key not below its target in the
  list without the new key or in the list with it, and nothing else.
\<close>

theorem skiplist_concurrent_reader:
  assumes "byte_order lt" and "holds_keys lt sl ks" and "\<not> (\<exists>x\<in>set ks. Equal lt x k)"
    and "FindGreaterOrEqual lt (nodes sl) k = Some (r, prev)" and "RandomLevel coins 1 = (h, cs)"
    and "(cstep lt (length (nodes sl)) prev h q)\<^sup>*\<^sup>*
       \<lparr>shared_nodes = nodes sl @ [NewNode k h], wlevel = 0, whalf = False, rdr = Reading 0 (kMaxLevel - 1)\<rparr> c"
    and "rdr c = Returned x"
  shows "map_option (\<lambda>x. key (shared_nodes c ! x)) x \<in>
     {find (\<lambda>y. \<not> lt y q) ks, find (\<lambda>y. \<not> lt y q) (insert_key lt k ks)}"
proof -
  have h: "h \<le> kMaxLevel" using RandomLevel_bounds [OF _ _ assms(5)] by (simp add: kMaxLevel_def)
  have "cinv lt ks k (length (nodes sl)) prev h q c"
    using byte_order.cinv_steps [OF assms(1,6)] byte_order.cinv_start [OF assms(1-4) h] by blast
  with assms(7) show ?thesis by (auto simp: cinv_def)
qed

lemma cstep_reader_alone:
  "(\<And>l. l \<le> m \<Longrightarrow> Next ns 0 l = None) \<Longrightarrow>
     (cstep lt node prev h q)\<^sup>*\<^sup>* \<lparr>shared_nodes = ns, wlevel = w, whalf = b, rdr = Reading 0 m\<rparr>
        \<lparr>shared_nodes = ns, wlevel = w, whalf = b, rdr = Returned None\<rparr>"
proof (induction m)
  case 0
  have "reader_step lt ns q 0 0 = Returned None" using 0 by (simp add: reader_step_def find_step_def)
  with cstep.load [of "\<lparr>shared_nodes = ns, wlevel = w, whalf = b, rdr = Reading 0 0\<rparr>" 0 0 lt node prev h q] show ?case
    by (auto intro!: r_into_rtranclp)
next
  case (Suc m)
  have "reader_step lt ns q 0 (Suc m) = Reading 0 m" using Suc.prems by (simp add: reader_step_def find_step_def)
  with cstep.load [of "\<lparr>shared_nodes = ns, wlevel = w, whalf = b, rdr = Reading 0 (Suc m)\<rparr>" 0 "Suc m" lt node prev h q]
  have "cstep lt node prev h q \<lparr>shared_nodes = ns, wlevel = w, whalf = b, rdr = Reading 0 (Suc m)\<rparr>
      \<lparr>shared_nodes = ns, wlevel = w, whalf = b, rdr = Reading 0 m\<rparr>" by simp
  with Suc show ?case by (meson converse_rtranclp_into_rtranclp le_SucI)
qed

theorem skiplist_concurrent_reader_witness:
  "map_option (\<lambda>x. key ((nodes NewSkipList @ [NewNode [7] 1]) ! x)) None \<in>
     {find (\<lambda>y. \<not> y < [5 :: u8]) [], find (\<lambda>y. \<not> y < [5]) (insert_key (<) [7] [])}"
proof -
  obtain prev where f: "FindGreaterOrEqual (<) (nodes NewSkipList) [7 :: u8] = Some (None, prev)"
    using std_less.FindGreaterOrEqual_returns [OF tower_NewSkipList, of "[7]"] by (auto simp: first_ge_def)
  let ?c = "\<lparr>shared_nodes = nodes NewSkipList @ [NewNode [7] 1], wlevel = 0, whalf = False, rdr = Returned None\<rparr>"
  have "(cstep (<) (length (nodes NewSkipList)) prev 1 [5])\<^sup>*\<^sup>*
     \<lparr>shared_nodes = nodes NewSkipList @ [NewNode [7] 1], wlevel = 0, whalf = False, rdr = Reading 0 (kMaxLevel - 1)\<rparr> ?c"
    by (rule cstep_reader_alone) (simp add: NewSkipList_def NewNode_def Next_def kMaxLevel_def)
  from skiplist_concurrent_reader [OF std_less.byte_order_axioms holds_keys_New _ f, of "[]" 1 "[]", OF _ _ this]
  show ?thesis by (simp add: RandomLevel.simps kMaxLevel_def)
qed

end
