(* ===== verification/Entries.thy ===== *)
theory Entries
  imports SkipListCorrect Encoding
begin

text \<open>
  The vocabulary the storage components share: an entry is a user key, a tag (the
  sequence number shifted left by 8, or-ed with the type) and a value. Every sorted
  structure orders entries by user key ascending and tag descending, so that the
  newest version of a key comes first. \<open>lookup_spec\<close> is what a point read of a
  sorted run of entries means.
\<close>

subsection \<open>Tags\<close>

definition kTypeDeletion :: u8 where "kTypeDeletion = 0"
definition kTypeValue :: u8 where "kTypeValue = 1"

definition make_tag :: "u64 \<Rightarrow> u8 \<Rightarrow> u64" where
  "make_tag seq t = push_bit 8 seq OR ucast t"

definition tag_type :: "u64 \<Rightarrow> u64" where
  "tag_type tag = tag AND 0xff"

definition tag_seq :: "u64 \<Rightarrow> u64" where
  "tag_seq tag = drop_bit 8 tag"

lemma tag_type_make [simp]: "tag_type (make_tag seq t) = ucast t"
  by (rule bit_word_eqI) (auto simp: tag_type_def make_tag_def mask8 bit_simps dest: bit_imp_le_length)

lemma tag_seq_make:
  assumes "seq < 2 ^ 56"
  shows "tag_seq (make_tag seq t) = seq"
proof (rule bit_word_eqI)
  fix n assume "n < LENGTH(64)"
  have "unat seq < 2 ^ 56" using assms by (simp add: word_less_nat_alt)
  then have hi: "\<not> bit seq n" if "56 \<le> n" for n
  proof -
    have "unat seq < 2 ^ n" using \<open>unat seq < 2 ^ 56\<close> power_increasing [OF that, of "2 :: nat"] by simp
    then have "\<not> bit (unat seq) n" by (simp add: bit_iff_odd)
    then show ?thesis by (auto simp: bit_unsigned_iff dest: bit_imp_le_length)
  qed
  show "bit (tag_seq (make_tag seq t)) n = bit seq n"
    using hi [of n] \<open>n < _\<close> not_le [of 56 n]
    by (auto simp: tag_seq_def make_tag_def bit_simps dest: bit_imp_le_length)
qed

lemma unat_make_tag:
  assumes "seq < 2 ^ 56"
  shows "unat (make_tag seq t) = 256 * unat seq + unat t"
proof -
  let ?w = "make_tag seq t"
  have "unat ?w div 256 = unat (tag_seq ?w)"
    by (simp add: tag_seq_def drop_bit_eq_div unat_div)
  moreover have "unat ?w mod 256 = unat (tag_type ?w)"
    unfolding tag_type_def mask8 take_bit_eq_mask [symmetric] unsigned_take_bit_eq by (simp add: take_bit_eq_mod)
  ultimately have "unat ?w = 256 * unat seq + unat (ucast t :: u64)"
    using tag_seq_make [OF assms, of t] div_mult_mod_eq [of "unat ?w" 256] by simp
  moreover have "unat t < 2 ^ 64" by (rule less_trans [OF unat_u8_less]) simp
  ultimately show ?thesis by (simp add: unsigned_ucast_eq take_bit_nat_eq_self)
qed

lemma make_tag_le_iff:
  assumes "seq < 2 ^ 56" and "mx < 2 ^ 56"
  shows "make_tag seq t \<le> make_tag mx 0xff \<longleftrightarrow> seq \<le> mx"
proof -
  have "unat t < 256" "unat (0xff :: u8) = 255" by simp_all
  then show ?thesis
    unfolding word_le_nat_alt unat_make_tag [OF assms(1)] unat_make_tag [OF assms(2)] by linarith
qed

lemma make_tag_less:
  assumes "a < 2 ^ 56" and "b < 2 ^ 56" and "a < b"
  shows "make_tag a s < make_tag b t"
proof -
  have "unat a < unat b" using assms(3) by (simp add: word_less_nat_alt)
  moreover have "unat s < 256" by simp
  ultimately show ?thesis
    unfolding word_less_nat_alt unat_make_tag [OF assms(1)] unat_make_tag [OF assms(2)] by linarith
qed

subsection \<open>Entries and their order\<close>

type_synonym entry = "bytes \<times> u64 \<times> bytes"

abbreviation ukey :: "entry \<Rightarrow> bytes" where "ukey \<equiv> fst"
abbreviation etag :: "entry \<Rightarrow> u64" where "etag e \<equiv> fst (snd e)"
abbreviation evalue :: "entry \<Rightarrow> bytes" where "evalue e \<equiv> snd (snd e)"

text \<open>User key ascending, tag descending.\<close>

definition key_lt :: "bytes \<times> u64 \<Rightarrow> bytes \<times> u64 \<Rightarrow> bool" where
  "key_lt a b \<longleftrightarrow> fst a < fst b \<or> fst a = fst b \<and> snd b < snd a"

abbreviation ikey :: "entry \<Rightarrow> bytes \<times> u64" where "ikey e \<equiv> (fst e, fst (snd e))"

interpretation kl: key_order key_lt
  by unfold_locales (auto simp: key_lt_def)

lemma key_lt_total: "\<not> key_lt a b \<Longrightarrow> \<not> key_lt b a \<Longrightarrow> a = b"
  by (auto simp: key_lt_def prod_eq_iff)

text \<open>A sorted run: strictly increasing, so no two entries share key and tag.\<close>

definition sorted_run :: "entry list \<Rightarrow> bool" where
  "sorted_run es \<longleftrightarrow> sorted_wrt (\<lambda>a b. key_lt (ikey a) (ikey b)) es"

subsection \<open>Point reads\<close>

text \<open>The newest version of \<open>k\<close> not newer than the tag \<open>T\<close>.\<close>

definition lookup_spec :: "entry list \<Rightarrow> bytes \<Rightarrow> u64 \<Rightarrow> entry option" where
  "lookup_spec es k T = find (\<lambda>e. ukey e = k \<and> etag e \<le> T) es"

text \<open>What a seek to \<open>(k, T)\<close> finds first.\<close>

lemma seek_lookup:
  assumes "sorted_run es"
  shows "lookup_spec es k T =
     (case find (\<lambda>e. \<not> key_lt (ikey e) (k, T)) es of
        Some e \<Rightarrow> if ukey e = k then Some e else None
      | None \<Rightarrow> None)"
  using assms
proof (induction es)
  case (Cons e es)
  have es: "sorted_run es" and lt: "\<And>x. x \<in> set es \<Longrightarrow> key_lt (ikey e) (ikey x)"
    using Cons.prems by (auto simp: sorted_run_def)
  show ?case
  proof (cases "key_lt (ikey e) (k, T)")
    case True
    then have "\<not> (ukey e = k \<and> etag e \<le> T)" by (auto simp: key_lt_def)
    with True Cons.IH [OF es] show ?thesis by (auto simp: lookup_spec_def)
  next
    case False
    show ?thesis
    proof (cases "ukey e = k")
      case True
      with False have "etag e \<le> T" by (auto simp: key_lt_def)
      with True False show ?thesis by (simp add: lookup_spec_def)
    next
      case ne: False
      with False have "k < ukey e" by (auto simp: key_lt_def)
      then have "ukey x \<noteq> k" if "x \<in> set es" for x
        using lt [OF that] by (auto simp: key_lt_def)
      then have "find (\<lambda>e. ukey e = k \<and> etag e \<le> T) es = None" by (intro find_None_all) blast
      with ne False show ?thesis by (simp add: lookup_spec_def)
    qed
  qed
qed (simp add: lookup_spec_def)

text \<open>On a sorted run it is the visible version with the largest tag.\<close>

lemma lookup_spec_Some:
  assumes "sorted_run es"
  shows "lookup_spec es k T = Some e \<longleftrightarrow>
     e \<in> set es \<and> ukey e = k \<and> etag e \<le> T \<and>
     (\<forall>x\<in>set es. ukey x = k \<and> etag x \<le> T \<longrightarrow> etag x \<le> etag e)"
  using assms
proof (induction es)
  case (Cons a es)
  have es: "sorted_run es" and lt: "\<And>x. x \<in> set es \<Longrightarrow> key_lt (ikey a) (ikey x)"
    using Cons.prems by (auto simp: sorted_run_def)
  show ?case
  proof (cases "ukey a = k \<and> etag a \<le> T")
    case True
    have below: "etag x < etag a" if "x \<in> set es" "ukey x = k" for x
      using lt [OF that(1)] that(2) True by (auto simp: key_lt_def)
    then have "\<not> etag a \<le> etag e" if "e \<in> set es" "ukey e = k"
      using that by (simp add: not_le)
    moreover have "etag x \<le> etag a" if "x \<in> set es" "ukey x = k" for x
      using below [OF that] by simp
    ultimately show ?thesis using True by (auto simp: lookup_spec_def)
  next
    case False
    with Cons.IH [OF es] show ?thesis by (auto simp: lookup_spec_def)
  qed
qed (simp add: lookup_spec_def)

lemma lookup_spec_None: "lookup_spec es k T = None \<longleftrightarrow> (\<forall>x\<in>set es. ukey x = k \<longrightarrow> \<not> etag x \<le> T)"
  unfolding lookup_spec_def find_None_iff by blast

end
