(* ===== verification/Block.thy ===== *)
theory Block
  imports Entries
begin

text \<open>
  Prefix-compressed blocks with restart points (\<^verbatim>\<open>include/bedrockkv/block.h\<close>,
  \<^verbatim>\<open>src/block.cpp\<close>): the builder, and the decoder with its bounds checks, its
  binary search over the restart points and its linear scan. Offsets and
  \<^verbatim>\<open>size_t\<close> values are naturals; every 32-bit field is a word, so what a
  \<^verbatim>\<open>static_cast<uint32_t>\<close> loses is lost here too.
\<close>

subsection \<open>Internal keys\<close>

definition ExtractUserKey :: "bytes \<Rightarrow> bytes" where
  "ExtractUserKey ik = (if 8 \<le> length ik then take (length ik - 8) ik else ik)"

definition ExtractTag :: "bytes \<Rightarrow> u64" where
  "ExtractTag ik = (if 8 \<le> length ik then GetFixed64 (drop (length ik - 8) ik) else 0)"

definition InternalKeyComparator :: "bytes \<Rightarrow> bytes \<Rightarrow> bool" where
  "InternalKeyComparator a b =
     (let a_user = (if 8 \<le> length a then length a - 8 else length a);
          b_user = (if 8 \<le> length b then length b - 8 else length b);
          a_key = sub a 0 a_user; b_key = sub b 0 b_user
      in if a_key \<noteq> b_key then a_key < b_key
         else
           let a_tag = (if a_user = length a then 0 else GetFixed64 (drop a_user a));
               b_tag = (if b_user = length b then 0 else GetFixed64 (drop b_user b))
           in b_tag < a_tag)"

lemma InternalKeyComparator_key_lt:
  "InternalKeyComparator a b = key_lt (ExtractUserKey a, ExtractTag a) (ExtractUserKey b, ExtractTag b)"
  by (auto simp: InternalKeyComparator_def ExtractUserKey_def ExtractTag_def key_lt_def sub_def Let_def)

interpretation ik: key_order InternalKeyComparator
  by unfold_locales
     (auto simp: InternalKeyComparator_key_lt kl.lt_irrefl dest: kl.lt_cotrans intro: kl.lt_trans)

subsection \<open>BlockBuilder\<close>

record BlockBuilder =
  restart_interval :: nat
  bbuf :: bytes
  restarts :: "u32 list"
  last_key :: bytes
  counter :: nat

definition BlockBuilder_Reset :: "BlockBuilder \<Rightarrow> BlockBuilder" where
  "BlockBuilder_Reset b = b\<lparr>bbuf := [], restarts := [0], last_key := [], counter := 0\<rparr>"

definition NewBlockBuilder :: "nat \<Rightarrow> BlockBuilder" where
  "NewBlockBuilder n =
     BlockBuilder_Reset \<lparr>restart_interval = n, bbuf = [], restarts = [], last_key = [], counter = 0\<rparr>"

text \<open>The loop that counts the bytes shared with the previous key.\<close>

fun shared_len :: "bytes \<Rightarrow> bytes \<Rightarrow> nat" where
  "shared_len (x # xs) (y # ys) = (if x = y then Suc (shared_len xs ys) else 0)"
| "shared_len _ _ = 0"

definition block_entry :: "nat \<Rightarrow> bytes \<Rightarrow> bytes \<Rightarrow> bytes" where
  "block_entry shared k v =
     PutFixed32 (of_nat shared) @ PutFixed32 (of_nat (length k - shared)) @
     PutFixed32 (of_nat (length v)) @ drop shared k @ v"

definition BlockBuilder_Add :: "bytes \<Rightarrow> bytes \<Rightarrow> BlockBuilder \<Rightarrow> BlockBuilder" where
  "BlockBuilder_Add k v b =
     (let (shared, b1) =
            (if counter b < restart_interval b then (shared_len (last_key b) k, b)
             else (0, b\<lparr>restarts := restarts b @ [of_nat (length (bbuf b))], counter := 0\<rparr>))
      in b1\<lparr>bbuf := bbuf b1 @ block_entry shared k v, last_key := k, counter := counter b1 + 1\<rparr>)"

definition CurrentSizeEstimate :: "BlockBuilder \<Rightarrow> nat" where
  "CurrentSizeEstimate b = length (bbuf b) + (length (restarts b) + 1) * 4"

definition builder_empty :: "BlockBuilder \<Rightarrow> bool" where
  "builder_empty b \<longleftrightarrow> counter b = 0"

text \<open>\<^verbatim>\<open>Finish\<close> moves the buffer out; both callers reset or drop the builder afterwards.\<close>

definition BlockBuilder_Finish :: "BlockBuilder \<Rightarrow> bytes \<times> BlockBuilder" where
  "BlockBuilder_Finish b =
     (bbuf b @ concat (map PutFixed32 (restarts b)) @ PutFixed32 (of_nat (length (restarts b))),
      b\<lparr>bbuf := [], counter := 0, restarts := [0]\<rparr>)"

subsection \<open>Block\<close>

definition kEntryHeader :: nat where [const_defs]: "kEntryHeader = 12"

record Block =
  bdata :: bytes
  restart_array_offset :: nat
  num_restarts :: u32
  bvalid :: bool
  bcorrupted :: bool
  key_scratch :: bytes
  cur_key :: bytes
  cur_value :: bytes
  entry_end :: nat

text \<open>The eager check of the restart offsets; \<^verbatim>\<open>i * 4\<close> is computed in 32 bits.\<close>

definition restart_at :: "Block \<Rightarrow> nat \<Rightarrow> u32" where
  "restart_at b i = GetFixed32 (drop (restart_array_offset b + i * 4) (bdata b))"

definition restarts_ok :: "Block \<Rightarrow> bool" where
  "restarts_ok b \<longleftrightarrow>
     list_all (\<lambda>i. unat (GetFixed32 (drop (restart_array_offset b + unat (of_nat i * 4 :: u32)) (bdata b)))
                    < restart_array_offset b)
       [0..<unat (num_restarts b)]"

definition NewBlock :: "bytes \<Rightarrow> Block" where
  "NewBlock contents =
     (let b = \<lparr>bdata = contents, restart_array_offset = 0, num_restarts = 0, bvalid = False,
               bcorrupted = False, key_scratch = [], cur_key = [], cur_value = [], entry_end = 0\<rparr>
      in if length contents < 4 then b\<lparr>bcorrupted := True\<rparr>
         else
           let n = GetFixed32 (drop (length contents - 4) contents);
               trailer = (unat n + 1) * 4;
               b1 = b\<lparr>num_restarts := n\<rparr>
           in if length contents < trailer \<or> n = 0 then b1\<lparr>bcorrupted := True\<rparr>
              else
                let b2 = b1\<lparr>restart_array_offset := length contents - trailer\<rparr>
                in if restarts_ok b2 then b2 else b2\<lparr>bcorrupted := True\<rparr>)"

definition KeyAtRestart :: "Block \<Rightarrow> nat \<Rightarrow> bytes" where
  "KeyAtRestart b i =
     (let off = unat (restart_at b i)
      in if restart_array_offset b < off + kEntryHeader then []
         else sub (bdata b) (off + kEntryHeader) (unat (GetFixed32 (drop (off + 4) (bdata b)))))"

definition ParseEntry :: "nat \<Rightarrow> Block \<Rightarrow> bool \<times> Block" where
  "ParseEntry offset b0 =
     (let b = b0\<lparr>bvalid := False\<rparr>; lim = restart_array_offset b
      in if offset = lim then (False, b)
         else if lim < offset \<or> lim < offset + kEntryHeader then (False, b\<lparr>bcorrupted := True\<rparr>)
         else
           let shared = unat (GetFixed32 (drop offset (bdata b)));
               non_shared = unat (GetFixed32 (drop (offset + 4) (bdata b)));
               value_len = unat (GetFixed32 (drop (offset + 8) (bdata b)))
           in if length (key_scratch b) < shared then (False, b\<lparr>bcorrupted := True\<rparr>)
              else if lim - offset - kEntryHeader < non_shared + value_len
              then (False, b\<lparr>bcorrupted := True\<rparr>)
              else
                let k = take shared (key_scratch b) @ sub (bdata b) (offset + kEntryHeader) non_shared
                in (True, b\<lparr>key_scratch := k, cur_key := k,
                            cur_value := sub (bdata b) (offset + kEntryHeader + non_shared) value_len,
                            entry_end := offset + kEntryHeader + non_shared + value_len\<rparr>))"

definition Block_SeekToFirst :: "Block \<Rightarrow> Block" where
  "Block_SeekToFirst b =
     (if bcorrupted b then b\<lparr>bvalid := False\<rparr>
      else case ParseEntry 0 b of (ok, b') \<Rightarrow> b'\<lparr>bvalid := ok\<rparr>)"

text \<open>The binary search over the restart points.\<close>

function restart_search :: "Block \<Rightarrow> bytes \<Rightarrow> nat \<Rightarrow> nat \<Rightarrow> nat" where
  "restart_search b target left right =
     (if left < right then
        let mid = (left + right + 1) div 2
        in if InternalKeyComparator (KeyAtRestart b mid) target
           then restart_search b target mid right
           else restart_search b target left (mid - 1)
      else left)"
  by pat_completeness auto
termination
  by (relation "measure (\<lambda>(b, t, left, right). right - left)") auto

declare restart_search.simps [simp del]

lemma ParseEntry_advance:
  "ParseEntry offset b = (True, b') \<Longrightarrow>
     offset < entry_end b' \<and> entry_end b' \<le> restart_array_offset b \<and> restart_array_offset b' = restart_array_offset b"
  by (auto simp: ParseEntry_def Let_def const_defs split: if_splits)

text \<open>The scan from a restart point.\<close>

function seek_scan :: "bytes \<Rightarrow> nat \<Rightarrow> Block \<Rightarrow> Block" where
  "seek_scan target offset b =
     (if offset < restart_array_offset b then
        case ParseEntry offset b of
          (False, b') \<Rightarrow> b'
        | (True, b') \<Rightarrow>
            if \<not> InternalKeyComparator (cur_key b') target then b'\<lparr>bvalid := True\<rparr>
            else seek_scan target (entry_end b') (b'\<lparr>bvalid := True\<rparr>)
      else b\<lparr>bvalid := False\<rparr>)"
  by pat_completeness auto
termination
proof (relation "measure (\<lambda>(t, offset, b). restart_array_offset b - offset)", goal_cases)
  case (2 target offset b x b')
  then have "ParseEntry offset b = (True, b')" by simp
  from ParseEntry_advance [OF this] 2 show ?case by (simp add: diff_less_mono2)
qed simp

declare seek_scan.simps [simp del]

definition Block_Seek :: "bytes \<Rightarrow> Block \<Rightarrow> Block" where
  "Block_Seek target b =
     (if bcorrupted b then b\<lparr>bvalid := False\<rparr>
      else
        let left = restart_search b target 0 (unat (num_restarts b - 1))
        in seek_scan target (unat (restart_at b left)) (b\<lparr>bvalid := False\<rparr>))"

definition Block_Next :: "Block \<Rightarrow> Block" where
  "Block_Next b =
     (if bcorrupted b \<or> \<not> bvalid b then b\<lparr>bvalid := False\<rparr>
      else case ParseEntry (entry_end b) b of (ok, b') \<Rightarrow> b'\<lparr>bvalid := ok\<rparr>)"

end
