(* ===== verification/BlockCorrect.thy ===== *)
theory BlockCorrect
  imports Block
begin

text \<open>
  Correctness of blocks: what a builder writes, decoded entry by entry, is what was
  added; \<^verbatim>\<open>Seek\<close> lands on the first entry not below its target, whatever entry the
  block stood on before.
\<close>

subsection \<open>The image of a block\<close>

text \<open>An entry with the number of bytes its key shares with the one before it.\<close>

type_synonym bent = "nat \<times> bytes \<times> bytes"

abbreviation bshared :: "bent \<Rightarrow> nat" where "bshared \<equiv> fst"
abbreviation bkey :: "bent \<Rightarrow> bytes" where "bkey e \<equiv> fst (snd e)"
abbreviation bval :: "bent \<Rightarrow> bytes" where "bval e \<equiv> snd (snd e)"

definition enc_bent :: "bent \<Rightarrow> bytes" where
  "enc_bent e = block_entry (bshared e) (bkey e) (bval e)"

definition enc_entries :: "bent list \<Rightarrow> bytes" where
  "enc_entries es = concat (map enc_bent es)"

definition boff :: "bent list \<Rightarrow> nat \<Rightarrow> nat" where
  "boff es i = length (enc_entries (take i es))"

definition fits_prev :: "bytes \<Rightarrow> bent \<Rightarrow> bool" where
  "fits_prev prev e \<longleftrightarrow> bshared e \<le> length prev \<and> bshared e \<le> length (bkey e) \<and>
     take (bshared e) (bkey e) = take (bshared e) prev"

fun prefixed :: "bytes \<Rightarrow> bent list \<Rightarrow> bool" where
  "prefixed prev [] \<longleftrightarrow> True"
| "prefixed prev (e # es) \<longleftrightarrow> fits_prev prev e \<and> prefixed (bkey e) es"

definition last_bkey :: "bytes \<Rightarrow> bent list \<Rightarrow> bytes" where
  "last_bkey prev es = (if es = [] then prev else bkey (last es))"

text \<open>\<open>js\<close> are the indices of the restart entries.\<close>

definition restart_indices :: "bent list \<Rightarrow> nat list \<Rightarrow> bool" where
  "restart_indices es js \<longleftrightarrow> js \<noteq> [] \<and> hd js = 0 \<and> (\<forall>j\<in>set js. j < length es \<and> bshared (es ! j) = 0)"

definition block_image :: "bytes \<Rightarrow> bent list \<Rightarrow> nat list \<Rightarrow> bool" where
  "block_image data es js \<longleftrightarrow>
     data = enc_entries es @ concat (map (\<lambda>j. PutFixed32 (of_nat (boff es j))) js) @ PutFixed32 (of_nat (length js))
     \<and> prefixed [] es \<and> restart_indices es js \<and> length data < 2 ^ 32"

lemma prefixed_append: "prefixed prev (es @ fs) \<longleftrightarrow> prefixed prev es \<and> prefixed (last_bkey prev es) fs"
  by (induction es arbitrary: prev) (auto simp: last_bkey_def)

lemma prefixed_nth:
  assumes "prefixed prev es" and "i < length es"
  shows "fits_prev (if i = 0 then prev else bkey (es ! (i - 1))) (es ! i)"
  using assms
proof (induction es arbitrary: prev i)
  case (Cons e es)
  show ?case
  proof (cases i)
    case (Suc n)
    with Cons.IH [of "bkey e" n] Cons.prems show ?thesis by (cases n) simp_all
  qed (use Cons.prems in simp)
qed simp

lemma enc_entries_append [simp]: "enc_entries (es @ fs) = enc_entries es @ enc_entries fs"
  by (simp add: enc_entries_def)

lemma enc_entries_Cons [simp]: "enc_entries (e # es) = enc_bent e @ enc_entries es"
  by (simp add: enc_entries_def)

lemma enc_entries_Nil [simp]: "enc_entries [] = []"
  by (simp add: enc_entries_def)

lemma length_enc_bent:
  "bshared e \<le> length (bkey e) \<Longrightarrow>
     length (enc_bent e) = kEntryHeader + (length (bkey e) - bshared e) + length (bval e)"
  by (simp add: enc_bent_def block_entry_def kEntryHeader_def)

lemma length_enc_bent_ge: "kEntryHeader \<le> length (enc_bent e)"
  by (simp add: enc_bent_def block_entry_def kEntryHeader_def)

lemma boff_0 [simp]: "boff es 0 = 0"
  by (simp add: boff_def)

lemma boff_all: "boff es (length es) = length (enc_entries es)"
  by (simp add: boff_def)

lemma boff_Suc: "i < length es \<Longrightarrow> boff es (Suc i) = boff es i + length (enc_bent (es ! i))"
  by (simp add: boff_def take_Suc_conv_app_nth)

lemma boff_append: "i \<le> length es \<Longrightarrow> boff (es @ fs) i = boff es i"
  by (simp add: boff_def)

lemma boff_mono: "i \<le> j \<Longrightarrow> boff es i \<le> boff es j"
proof -
  assume "i \<le> j"
  then obtain d where "j = i + d" using le_Suc_ex by blast
  then show ?thesis by (simp add: boff_def take_add)
qed

lemma boff_strict: "i < j \<Longrightarrow> j \<le> length es \<Longrightarrow> boff es i + kEntryHeader \<le> boff es j"
  using boff_Suc [of i es] boff_mono [of "Suc i" j es] length_enc_bent_ge [of "es ! i"] by simp

lemma enc_entries_at:
  "i < length es \<Longrightarrow> drop (boff es i) (enc_entries es @ r) = enc_bent (es ! i) @ enc_entries (drop (Suc i) es) @ r"
proof -
  assume i: "i < length es"
  have "enc_entries es = enc_entries (take i es) @ enc_bent (es ! i) @ enc_entries (drop (Suc i) es)"
    by (metis enc_entries_append enc_entries_Cons append_take_drop_id Cons_nth_drop_Suc i)
  then show ?thesis by (simp add: boff_def)
qed

text \<open>A block that was opened on an image, standing anywhere.\<close>

definition opened :: "Block \<Rightarrow> bent list \<Rightarrow> nat list \<Rightarrow> bool" where
  "opened b es js \<longleftrightarrow>
     block_image (bdata b) es js \<and> restart_array_offset b = boff es (length es)
     \<and> num_restarts b = of_nat (length js) \<and> \<not> bcorrupted b"

lemma length_concat_4: "length (concat (map (\<lambda>j. PutFixed32 (f j)) js)) = 4 * length js"
  by (induction js) auto

lemma concat_PutFixed32_at:
  "m < length js \<Longrightarrow> GetFixed32 (drop (m * 4) (concat (map (\<lambda>j. PutFixed32 (f j)) js) @ r)) = f (js ! m)"
proof (induction js arbitrary: m)
  case (Cons j js)
  then show ?case by (cases m) simp_all
qed simp

lemma image_restart_at:
  assumes "block_image data es js" and "m < length js"
  shows "unat (GetFixed32 (drop (boff es (length es) + m * 4) data)) = boff es (js ! m)"
proof -
  have "drop (boff es (length es) + m * 4) data =
      drop (m * 4) (concat (map (\<lambda>j. PutFixed32 (of_nat (boff es j))) js) @ PutFixed32 (of_nat (length js)))"
    using assms(1) by (simp add: block_image_def boff_all)
  moreover have "boff es (js ! m) < 2 ^ 32"
  proof -
    have "js ! m < length es" using assms by (simp add: block_image_def restart_indices_def)
    then have "boff es (js ! m) \<le> length (enc_entries es)" using boff_mono [of "js ! m" "length es" es] by (simp add: boff_all)
    also have "\<dots> \<le> length data" using assms(1) by (auto simp: block_image_def)
    also have "\<dots> < 2 ^ 32" using assms(1) unfolding block_image_def by blast
    finally show ?thesis .
  qed
  ultimately show ?thesis
    using assms(2) by (simp only: concat_PutFixed32_at) (rule unat_of_nat_u32)
qed

lemma NewBlock_opened:
  assumes img: "block_image data es js"
  shows "opened (NewBlock data) es js"
proof -
  let ?n = "length js"
  have len: "length data = boff es (length es) + 4 * ?n + 4"
    using img by (simp add: block_image_def boff_all length_concat_4)
  have small: "?n < 2 ^ 32" "length data < 2 ^ 32" using img len by (auto simp: block_image_def)
  have last: "GetFixed32 (drop (length data - 4) data) = of_nat ?n"
  proof -
    obtain A where d: "data = A @ PutFixed32 (of_nat ?n)"
      using img by (auto simp: block_image_def simp flip: append_assoc)
    show ?thesis unfolding d by simp
  qed
  have n: "unat (of_nat ?n :: u32) = ?n" using small(1) by (rule unat_of_nat_u32)
  have n0: "(of_nat ?n :: u32) \<noteq> 0"
    using n img by (metis block_image_def length_0_conv restart_indices_def unat_0)
  let ?b = "\<lparr>bdata = data, restart_array_offset = boff es (length es), num_restarts = of_nat ?n, bvalid = False,
               bcorrupted = False, key_scratch = [], cur_key = [], cur_value = [], entry_end = 0\<rparr>"
  have "unat (GetFixed32 (drop (boff es (length es) + unat (of_nat i * 4 :: u32)) data)) < boff es (length es)"
    if "i < ?n" for i
  proof -
    have "unat (of_nat i * 4 :: u32) = i * 4"
    proof -
      have "(of_nat i * 4 :: u32) = of_nat (i * 4)" by simp
      moreover have "i * 4 < 2 ^ 32" using that len small by linarith
      ultimately show ?thesis by (simp only: unat_of_nat_u32)
    qed
    moreover have "js ! i < length es" using img that by (simp add: block_image_def restart_indices_def)
    then have "boff es (js ! i) < boff es (length es)"
      using boff_strict [of "js ! i" "length es" es] by (simp add: kEntryHeader_def)
    ultimately show ?thesis using image_restart_at [OF img that] by simp
  qed
  then have "restarts_ok ?b" by (simp add: restarts_ok_def n list_all_iff)
  then have "NewBlock data = ?b"
    using len n n0 last by (simp add: NewBlock_def Let_def)
  then show ?thesis using img by (simp add: opened_def)
qed

subsection \<open>Decoding\<close>

text \<open>The block stands on entry \<open>i\<close>.\<close>

definition positioned :: "Block \<Rightarrow> bent list \<Rightarrow> nat list \<Rightarrow> nat \<Rightarrow> bool" where
  "positioned b es js i \<longleftrightarrow>
     opened b es js \<and> i < length es \<and> bvalid b \<and> key_scratch b = bkey (es ! i) \<and> cur_key b = bkey (es ! i)
     \<and> cur_value b = bval (es ! i) \<and> entry_end b = boff es (Suc i)"

definition exhausted :: "Block \<Rightarrow> bent list \<Rightarrow> nat list \<Rightarrow> bool" where
  "exhausted b es js \<longleftrightarrow> opened b es js \<and> \<not> bvalid b"

lemma bkey_length: "prefixed [] es \<Longrightarrow> i < length es \<Longrightarrow> length (bkey (es ! i)) \<le> boff es (Suc i)"
proof (induction i)
  case 0
  then show ?case using prefixed_nth [of "[]" es 0] length_enc_bent [of "es ! 0"] boff_Suc [of 0 es]
    by (simp add: fits_prev_def)
next
  case (Suc i)
  then have "length (bkey (es ! i)) \<le> boff es (Suc i)" by simp
  with Suc.prems show ?case
    using prefixed_nth [of "[]" es "Suc i"] length_enc_bent [of "es ! Suc i"] boff_Suc [of "Suc i" es]
    by (auto simp: fits_prev_def)
qed

lemma opened_data:
  assumes "opened b es js"
  obtains R where "bdata b = enc_entries es @ R"
  using assms unfolding opened_def block_image_def by blast

lemma opened_bound: "opened b es js \<Longrightarrow> i \<le> length es \<Longrightarrow> boff es i < 2 ^ 32"
proof -
  assume o: "opened b es js" and "i \<le> length es"
  then have "boff es i \<le> length (enc_entries es)" using boff_mono [of i "length es" es] by (simp add: boff_all)
  also have "\<dots> \<le> length (bdata b)" by (rule opened_data [OF o]) simp
  also have "\<dots> < 2 ^ 32" using o unfolding opened_def block_image_def by blast
  finally show ?thesis .
qed

lemma ParseEntry_at:
  assumes o: "opened b es js" and i: "i < length es" and fit: "fits_prev (key_scratch b) (es ! i)"
  shows "\<exists>b'. ParseEntry (boff es i) b = (True, b') \<and> positioned (b'\<lparr>bvalid := True\<rparr>) es js i"
proof -
  let ?e = "es ! i"
  obtain R where R: "bdata b = enc_entries es @ R" by (rule opened_data [OF o])
  obtain r where d: "drop (boff es i) (bdata b) = block_entry (bshared ?e) (bkey ?e) (bval ?e) @ r"
    unfolding R enc_entries_at [OF i] by (simp add: enc_bent_def)
  have le: "bshared ?e \<le> length (bkey ?e)" using fit by (simp add: fits_prev_def)
  have step: "boff es (Suc i) = boff es i + kEntryHeader + (length (bkey ?e) - bshared ?e) + length (bval ?e)"
    using boff_Suc [OF i] length_enc_bent [OF le] by simp
  have lim: "boff es (Suc i) \<le> boff es (length es)" using i by (intro boff_mono) simp
  have bound: "boff es (Suc i) < 2 ^ 32" using opened_bound [OF o] i by simp
  then have small: "length (bkey ?e) - bshared ?e < 2 ^ 32" "length (bval ?e) < 2 ^ 32"
    using step by linarith+
  have dn: "drop (boff es i + m) (bdata b) = drop m (drop (boff es i) (bdata b))" for m
    by (simp add: add.commute)
  have "length (bkey ?e) \<le> boff es (Suc i)"
    using o i by (intro bkey_length) (simp_all add: opened_def block_image_def)
  with le bound have sh: "bshared ?e < 2 ^ 32" by linarith
  have f: "unat (GetFixed32 (drop (boff es i) (bdata b))) = bshared ?e"
    "unat (GetFixed32 (drop (boff es i + 4) (bdata b))) = length (bkey ?e) - bshared ?e"
    "unat (GetFixed32 (drop (boff es i + 8) (bdata b))) = length (bval ?e)"
    unfolding dn d using small sh by (simp_all add: block_entry_def unat_of_nat_u32)
  have k: "sub (bdata b) (boff es i + kEntryHeader) (length (bkey ?e) - bshared ?e) = drop (bshared ?e) (bkey ?e)"
    unfolding sub_def dn d by (simp add: block_entry_def kEntryHeader_def)
  have v: "sub (bdata b) (boff es i + kEntryHeader + (length (bkey ?e) - bshared ?e)) (length (bval ?e)) = bval ?e"
    unfolding sub_def add.assoc dn d using le by (simp add: block_entry_def kEntryHeader_def)
  have pre: "take (bshared ?e) (key_scratch b) @ drop (bshared ?e) (bkey ?e) = bkey ?e"
    using fit by (metis append_take_drop_id fits_prev_def)
  have lim': "restart_array_offset b = boff es (length es)" using o by (simp add: opened_def)
  have c: "boff es i \<noteq> boff es (length es)" "\<not> (boff es (length es) < boff es i \<or> boff es (length es) < boff es i + kEntryHeader)"
    "\<not> boff es (length es) - boff es i - kEntryHeader < length (bkey ?e) - bshared ?e + length (bval ?e)"
    "\<not> length (key_scratch b) < bshared ?e"
    using step lim fit by (auto simp: kEntryHeader_def fits_prev_def)
  have "ParseEntry (boff es i) b = (True, b\<lparr>bvalid := False, key_scratch := bkey ?e, cur_key := bkey ?e,
      cur_value := bval ?e, entry_end := boff es (Suc i)\<rparr>)"
    using c by (simp add: ParseEntry_def Let_def lim' f k v pre step)
  with o i show ?thesis by (simp add: positioned_def opened_def)
qed

lemma ParseEntry_end:
  "opened b es js \<Longrightarrow> ParseEntry (boff es (length es)) b = (False, b\<lparr>bvalid := False\<rparr>)"
  by (simp add: ParseEntry_def opened_def Let_def)

lemma opened_prefixed: "opened b es js \<Longrightarrow> prefixed [] es \<and> es \<noteq> []"
  by (cases js) (auto simp: opened_def block_image_def restart_indices_def)

lemma opened_valid [simp]: "opened (b\<lparr>bvalid := x\<rparr>) es js = opened b es js"
  by (simp add: opened_def)

lemma SeekToFirst_positioned:
  assumes "opened b es js"
  shows "positioned (Block_SeekToFirst b) es js 0"
proof -
  have "prefixed [] es" "es \<noteq> []" using opened_prefixed [OF assms] by auto
  then have "fits_prev [] (es ! 0)" using prefixed_nth [of "[]" es 0] by simp
  then have "fits_prev (key_scratch b) (es ! 0)" by (auto simp: fits_prev_def)
  from ParseEntry_at [OF assms _ this] \<open>es \<noteq> []\<close> assms show ?thesis
    by (auto simp: Block_SeekToFirst_def opened_def)
qed

lemma Next_positioned:
  assumes "positioned b es js i"
  shows "if Suc i < length es then positioned (Block_Next b) es js (Suc i) else exhausted (Block_Next b) es js"
proof -
  have o: "opened b es js" and b: "bvalid b" "entry_end b = boff es (Suc i)" "key_scratch b = bkey (es ! i)" "i < length es"
    and nc: "\<not> bcorrupted b"
    using assms by (auto simp: positioned_def opened_def)
  show ?thesis
  proof (cases "Suc i < length es")
    case True
    have "fits_prev (key_scratch b) (es ! Suc i)"
      using prefixed_nth [of "[]" es "Suc i"] opened_prefixed [OF o] True b(3) by simp
    from ParseEntry_at [OF o True this] b nc True show ?thesis by (auto simp: Block_Next_def)
  next
    case False
    then have "Suc i = length es" using b(4) by simp
    with ParseEntry_end [OF o] b nc o show ?thesis by (simp add: Block_Next_def exhausted_def)
  qed
qed

subsection \<open>Seeking\<close>

definition ordered :: "bent list \<Rightarrow> bool" where
  "ordered es \<longleftrightarrow> sorted_wrt (\<lambda>a b. InternalKeyComparator (bkey a) (bkey b)) es"

definition seek_ix :: "bent list \<Rightarrow> bytes \<Rightarrow> nat" where
  "seek_ix es t = length (takeWhile (\<lambda>e. InternalKeyComparator (bkey e) t) es)"

definition stands :: "Block \<Rightarrow> bent list \<Rightarrow> nat list \<Rightarrow> nat \<Rightarrow> bool" where
  "stands b es js i \<longleftrightarrow> (if i < length es then positioned b es js i else exhausted b es js)"

lemma KeyAtRestart_at:
  assumes o: "opened b es js" and m: "m < length js"
  shows "KeyAtRestart b m = bkey (es ! (js ! m))"
proof -
  let ?j = "js ! m"
  let ?e = "es ! ?j"
  have img: "block_image (bdata b) es js" and lim: "restart_array_offset b = boff es (length es)"
    using o by (simp_all add: opened_def)
  have j: "?j < length es" "bshared ?e = 0" using img m by (auto simp: block_image_def restart_indices_def)
  have at: "unat (restart_at b m) = boff es ?j"
    using image_restart_at [OF img m] by (simp add: restart_at_def lim)
  obtain R where R: "bdata b = enc_entries es @ R" by (rule opened_data [OF o])
  obtain r where d: "drop (boff es ?j) (bdata b) = block_entry 0 (bkey ?e) (bval ?e) @ r"
    unfolding R enc_entries_at [OF j(1)] by (simp add: enc_bent_def j(2))
  have dn: "drop (boff es ?j + n) (bdata b) = drop n (block_entry 0 (bkey ?e) (bval ?e) @ r)" for n
    using d by (metis drop_drop add.commute)
  have "length (bkey ?e) \<le> boff es (Suc ?j)"
    using o j by (intro bkey_length) (simp_all add: opened_def block_image_def)
  moreover have "boff es (Suc ?j) < 2 ^ 32" using opened_bound [OF o] j by simp
  ultimately have small: "length (bkey ?e) < 2 ^ 32" by linarith
  have "\<not> boff es (length es) < boff es ?j + kEntryHeader" using boff_strict [OF j(1)] by (simp add: not_less)
  then show ?thesis
    using small by (simp add: KeyAtRestart_def at lim Let_def sub_def dn block_entry_def kEntryHeader_def unat_of_nat_u32)
qed

lemma restart_search_bounds:
  assumes "l \<le> r" and "l = 0 \<or> InternalKeyComparator (KeyAtRestart b l) t"
  shows "restart_search b t l r \<le> r \<and>
    (restart_search b t l r = 0 \<or> InternalKeyComparator (KeyAtRestart b (restart_search b t l r)) t)"
  using assms
proof (induction b t l r rule: restart_search.induct)
  case (1 b t l r)
  let ?m = "(l + r + 1) div 2"
  show ?case
  proof (cases "l < r")
    case True
    then have m: "?m \<le> r" "l \<le> ?m - 1" by linarith+
    show ?thesis
    proof (cases "InternalKeyComparator (KeyAtRestart b ?m) t")
      case less: True
      then show ?thesis using "1.IH"(1) [OF True refl less m(1)] True
        by (simp add: restart_search.simps [of b t l r] Let_def)
    next
      case False
      have "restart_search b t l r = restart_search b t l (?m - 1)"
        using True False by (simp add: restart_search.simps [of b t l r] Let_def)
      then show ?thesis using "1.IH"(2) [OF True refl False m(2) "1.prems"(2)] m(1) by auto
    qed
  next
    case False
    then have "restart_search b t l r = l" by (simp add: restart_search.simps [of b t l r])
    then show ?thesis using "1.prems" by simp
  qed
qed

lemma seek_ix_at:
  assumes "i \<le> length es" and "\<forall>j < i. InternalKeyComparator (bkey (es ! j)) t"
    and "i < length es \<Longrightarrow> \<not> InternalKeyComparator (bkey (es ! i)) t"
  shows "seek_ix es t = i"
proof -
  have "takeWhile (\<lambda>e. InternalKeyComparator (bkey e) t) es = take i es"
    by (rule takeWhile_eq_take_P_nth) (use assms in auto)
  then show ?thesis using assms(1) by (simp add: seek_ix_def)
qed

lemma seek_scan_stands:
  assumes "opened b es js" and "i \<le> length es" and "i < length es \<Longrightarrow> fits_prev (key_scratch b) (es ! i)"
    and "\<forall>j < i. InternalKeyComparator (bkey (es ! j)) t"
  shows "stands (seek_scan t (boff es i) b) es js (seek_ix es t)"
  using assms
proof (induction "length es - i" arbitrary: i b)
  case 0
  then have i: "i = length es" by simp
  have "seek_ix es t = length es" using 0 i by (intro seek_ix_at) auto
  then show ?case using 0 i by (simp add: stands_def exhausted_def opened_def seek_scan.simps [of t _ b])
next
  case (Suc n)
  then have i: "i < length es" by linarith
  obtain b' where b': "ParseEntry (boff es i) b = (True, b')" "positioned (b'\<lparr>bvalid := True\<rparr>) es js i"
    using ParseEntry_at [OF Suc.prems(1) i] Suc.prems(3) i by blast
  then have cur: "cur_key b' = bkey (es ! i)" "entry_end b' = boff es (Suc i)" "opened (b'\<lparr>bvalid := True\<rparr>) es js"
    "key_scratch b' = bkey (es ! i)"
    by (auto simp: positioned_def)
  have lt: "boff es i < restart_array_offset b"
    using Suc.prems(1) boff_strict [OF i order.refl] by (simp add: opened_def kEntryHeader_def)
  show ?case
  proof (cases "InternalKeyComparator (bkey (es ! i)) t")
    case True
    have "stands (seek_scan t (boff es (Suc i)) (b'\<lparr>bvalid := True\<rparr>)) es js (seek_ix es t)"
    proof (rule Suc.hyps)
      show "fits_prev (key_scratch (b'\<lparr>bvalid := True\<rparr>)) (es ! Suc i)" if "Suc i < length es"
        using prefixed_nth [of "[]" es "Suc i"] opened_prefixed [OF Suc.prems(1)] that cur(4) by simp
      show "\<forall>j < Suc i. InternalKeyComparator (bkey (es ! j)) t" using Suc.prems(4) True by (simp add: less_Suc_eq)
    qed (use Suc.hyps i cur(3) in auto)
    then show ?thesis using lt True by (simp add: seek_scan.simps [of t _ b] b'(1) cur)
  next
    case False
    then have "seek_ix es t = i" using Suc.prems(4) i by (intro seek_ix_at) auto
    then show ?thesis using lt False b'(2) i by (simp add: seek_scan.simps [of t _ b] b'(1) cur stands_def)
  qed
qed

lemma ordered_before:
  assumes "ordered es" and "j < length es" and "InternalKeyComparator (bkey (es ! j)) t" and "i \<le> j"
  shows "InternalKeyComparator (bkey (es ! i)) t"
proof (cases "i = j")
  case False
  then have "InternalKeyComparator (bkey (es ! i)) (bkey (es ! j))"
    using assms by (simp add: ordered_def sorted_wrt_iff_nth_less)
  then show ?thesis using assms(3) by (rule ik.lt_trans)
qed (use assms in simp)

lemma Seek_stands:
  assumes o: "opened b es js" and ord: "ordered es"
  shows "stands (Block_Seek t b) es js (seek_ix es t)"
proof -
  have img: "block_image (bdata b) es js" and lim: "restart_array_offset b = boff es (length es)"
    and n: "num_restarts b = of_nat (length js)" using o by (simp_all add: opened_def)
  have js: "js \<noteq> []" "js ! 0 = 0" and jl: "\<And>m. m < length js \<Longrightarrow> js ! m < length es \<and> bshared (es ! (js ! m)) = 0"
    using img by (auto simp: block_image_def restart_indices_def hd_conv_nth)
  have len: "length js < 2 ^ 32" using img by (auto simp: block_image_def length_concat_4)
  have r: "unat (num_restarts b - 1) = length js - 1"
  proof -
    have "num_restarts b - 1 = of_nat (length js - 1)" using js(1) by (simp add: n of_nat_diff Suc_leI)
    then show ?thesis using len by (simp only:) (rule unat_of_nat_u32, linarith)
  qed
  define m where "m = restart_search b t 0 (length js - 1)"
  have "m \<le> length js - 1" and m0: "m = 0 \<or> InternalKeyComparator (KeyAtRestart b m) t"
    using restart_search_bounds [of 0 "length js - 1" b t] by (auto simp: m_def)
  then have m: "m < length js" using js(1) by (cases js) auto
  have "\<forall>j < js ! m. InternalKeyComparator (bkey (es ! j)) t"
    using m0 KeyAtRestart_at [OF o m] ordered_before [OF ord _ , of "js ! m" t] jl [OF m] js(2) by auto
  moreover have "unat (restart_at b m) = boff es (js ! m)"
    using image_restart_at [OF img m] by (simp add: restart_at_def lim)
  moreover have "fits_prev (key_scratch b) (es ! (js ! m))" using jl [OF m] by (simp add: fits_prev_def)
  moreover have "\<not> bcorrupted b" using o by (simp add: opened_def)
  ultimately show ?thesis
    using seek_scan_stands [of "b\<lparr>bvalid := False\<rparr>" es js "js ! m" t] o jl [OF m]
    by (simp add: Block_Seek_def Let_def r m_def less_imp_le del: One_nat_def)
qed

subsection \<open>Building\<close>

definition built :: "BlockBuilder \<Rightarrow> bent list \<Rightarrow> nat list \<Rightarrow> bool" where
  "built bb es js \<longleftrightarrow> bbuf bb = enc_entries es \<and> restarts bb = map (\<lambda>j. of_nat (boff es j)) js
     \<and> js \<noteq> [] \<and> hd js = 0 \<and> prefixed [] es \<and> last_key bb = last_bkey [] es
     \<and> (\<forall>j\<in>set js. if es = [] then j = 0 else j < length es \<and> bshared (es ! j) = 0)"

lemma built_New: "built (NewBlockBuilder n) [] [0]"
  by (simp add: built_def NewBlockBuilder_def BlockBuilder_Reset_def last_bkey_def)

lemma shared_len_fits: "fits_prev p (shared_len p k, k, v)"
  by (induction p k rule: shared_len.induct) (auto simp: fits_prev_def)

lemma built_Add:
  assumes "built bb es js"
  obtains sh js' where "built (BlockBuilder_Add k v bb) (es @ [(sh, k, v)]) js'"
proof -
  have st: "boff (es @ [x]) j = boff es j" if "j \<in> set js" for x j
    using assms that by (intro boff_append) (auto simp: built_def split: if_splits)
  show thesis
  proof (cases "counter bb < restart_interval bb")
    case True
    let ?sh = "shared_len (last_key bb) k"
    have "?sh = 0" if "es = []" using that assms by (simp add: built_def last_bkey_def)
    then have "built (BlockBuilder_Add k v bb) (es @ [(?sh, k, v)]) js"
      using assms True shared_len_fits [of "last_key bb" k v] st
      by (auto simp: built_def BlockBuilder_Add_def prefixed_append nth_append enc_bent_def last_bkey_def split: if_splits)
    then show ?thesis by (rule that)
  next
    case False
    have "built (BlockBuilder_Add k v bb) (es @ [(0, k, v)]) (js @ [length es])"
      using assms False st
      by (auto simp: built_def BlockBuilder_Add_def prefixed_append nth_append enc_bent_def last_bkey_def
            boff_append boff_all fits_prev_def split: if_splits)
    then show ?thesis by (rule that)
  qed
qed

definition block_add_all :: "(bytes \<times> bytes) list \<Rightarrow> BlockBuilder \<Rightarrow> BlockBuilder" where
  "block_add_all kvs bb = fold (\<lambda>(k, v). BlockBuilder_Add k v) kvs bb"

lemma built_add_all:
  assumes "built bb es js"
  shows "\<exists>fs js'. built (block_add_all kvs bb) (es @ fs) js' \<and> map snd fs = kvs"
  using assms
proof (induction kvs arbitrary: bb es js)
  case Nil
  then show ?case by (intro exI [of _ "[]"] exI [of _ js]) (simp add: block_add_all_def)
next
  case (Cons kv kvs)
  obtain k v where kv: "kv = (k, v)" by (cases kv)
  obtain sh js1 where "built (BlockBuilder_Add k v bb) (es @ [(sh, k, v)]) js1"
    by (rule built_Add [OF Cons.prems])
  from Cons.IH [OF this] obtain fs js' where
    "built (block_add_all kvs (BlockBuilder_Add k v bb)) (es @ (sh, k, v) # fs) js'" "map snd fs = kvs" by auto
  then show ?case by (intro exI [of _ "(sh, k, v) # fs"] exI [of _ js']) (simp add: kv block_add_all_def)
qed

lemma built_Finish:
  assumes "built bb es js" and "es \<noteq> []" and "length (fst (BlockBuilder_Finish bb)) < 2 ^ 32"
  shows "block_image (fst (BlockBuilder_Finish bb)) es js"
  using assms by (auto simp: built_def BlockBuilder_Finish_def block_image_def restart_indices_def comp_def)

subsection \<open>Any use of a block\<close>

datatype block_op = OpFirst | OpNext | OpSeek bytes

primrec run_op :: "block_op \<Rightarrow> Block \<Rightarrow> Block" where
  "run_op OpFirst b = Block_SeekToFirst b"
| "run_op OpNext b = Block_Next b"
| "run_op (OpSeek t) b = Block_Seek t b"

definition block_ops :: "block_op list \<Rightarrow> Block \<Rightarrow> Block" where
  "block_ops ops b = fold run_op ops b"

lemma stands_opened: "stands b es js i \<Longrightarrow> opened b es js"
  by (auto simp: stands_def positioned_def exhausted_def split: if_splits)

lemma block_op_opened:
  assumes o: "opened b es js" and s: "bvalid b \<longrightarrow> (\<exists>i. positioned b es js i)" and ord: "ordered es"
  shows "opened (run_op x b) es js \<and> (bvalid (run_op x b) \<longrightarrow> (\<exists>i. positioned (run_op x b) es js i))"
proof (cases x)
  case OpFirst
  then show ?thesis using SeekToFirst_positioned [OF o] by (auto simp: positioned_def)
next
  case OpNext
  show ?thesis
  proof (cases "bvalid b")
    case True
    with s obtain i where "positioned b es js i" by blast
    from Next_positioned [OF this] OpNext show ?thesis by (auto simp: positioned_def exhausted_def split: if_splits)
  next
    case False
    then show ?thesis using OpNext o by (simp add: Block_Next_def)
  qed
next
  case (OpSeek t)
  then show ?thesis using Seek_stands [OF o ord, of t] stands_opened [OF Seek_stands [OF o ord, of t]]
    by (auto simp: stands_def exhausted_def split: if_splits)
qed

lemma block_ops_opened:
  assumes "opened b es js" and "bvalid b \<longrightarrow> (\<exists>i. positioned b es js i)" and ord: "ordered es"
  shows "opened (block_ops ops b) es js"
  using assms(1,2)
proof (induction ops arbitrary: b)
  case (Cons x ops)
  from Cons.IH [of "run_op x b"] block_op_opened [OF Cons.prems ord, of x] show ?case
    by (simp add: block_ops_def)
qed (simp add: block_ops_def)

lemma NewBlock_invalid [simp]: "\<not> bvalid (NewBlock data)"
  by (simp add: NewBlock_def Let_def)

lemma find_seek_ix:
  "find (\<lambda>kv. \<not> InternalKeyComparator (fst kv) t) (map snd es) =
     (if seek_ix es t < length es then Some (snd (es ! seek_ix es t)) else None)"
  by (induction es) (auto simp: seek_ix_def)

lemma stands_find:
  assumes st: "stands b es js (seek_ix es t)"
  shows "\<not> bcorrupted b \<and> (if bvalid b then Some (cur_key b, cur_value b) else None) =
    find (\<lambda>kv. \<not> InternalKeyComparator (fst kv) t) (map snd es)"
proof -
  have "\<not> bcorrupted b" using stands_opened [OF st] by (simp add: opened_def)
  then show ?thesis
    using st by (cases "seek_ix es t < length es")
      (simp_all add: stands_def positioned_def exhausted_def find_seek_ix)
qed

definition finished_block :: "nat \<Rightarrow> (bytes \<times> bytes) list \<Rightarrow> bytes" where
  "finished_block ivl kvs = fst (BlockBuilder_Finish (block_add_all kvs (NewBlockBuilder ivl)))"

lemma finished_image:
  assumes "kvs \<noteq> []" and "length (finished_block ivl kvs) < 2 ^ 32"
  obtains es js where "block_image (finished_block ivl kvs) es js" and "map snd es = kvs"
proof -
  obtain es js where "built (block_add_all kvs (NewBlockBuilder ivl)) es js" and es: "map snd es = kvs"
    using built_add_all [OF built_New, of kvs ivl] by auto
  with assms have "block_image (finished_block ivl kvs) es js"
    unfolding finished_block_def by (intro built_Finish) auto
  then show thesis using es by (rule that)
qed

lemma walk_positioned:
  assumes "opened b es js" and "i < length es"
  shows "positioned ((Block_Next ^^ i) (Block_SeekToFirst b)) es js i"
  using assms(2)
proof (induction i)
  case 0
  then show ?case using SeekToFirst_positioned [OF assms(1)] by simp
next
  case (Suc i)
  then show ?case using Next_positioned [of "(Block_Next ^^ i) (Block_SeekToFirst b)" es js i] by simp
qed

lemma walk_exhausted:
  assumes "opened b es js"
  shows "exhausted ((Block_Next ^^ length es) (Block_SeekToFirst b)) es js"
proof -
  obtain n where n: "length es = Suc n" using opened_prefixed [OF assms] by (cases es) auto
  then show ?thesis using Next_positioned [OF walk_positioned [OF assms, of n]] by simp
qed

text \<open>
  C17: what the entries added to a \<^verbatim>\<open>BlockBuilder\<close> become, read back: after
  \<^verbatim>\<open>Finish\<close>, a \<^verbatim>\<open>Block\<close> opened on the bytes walks through exactly the added
  keys and values in their order, for any restart interval, and then ends without
  reporting corruption. Nothing is asked of the keys; the block is below 4 GiB.
\<close>

theorem block_roundtrip:
  assumes "kvs \<noteq> []" and "length (finished_block ivl kvs) < 2 ^ 32"
  shows "let walk = (\<lambda>i. (Block_Next ^^ i) (Block_SeekToFirst (NewBlock (finished_block ivl kvs))))
         in (\<forall>i < length kvs. bvalid (walk i) \<and> (cur_key (walk i), cur_value (walk i)) = kvs ! i) \<and>
            \<not> bvalid (walk (length kvs)) \<and> \<not> bcorrupted (walk (length kvs))"
proof -
  obtain es js where img: "block_image (finished_block ivl kvs) es js" and es: "map snd es = kvs"
    by (rule finished_image [OF assms])
  note o = NewBlock_opened [OF img]
  have "length kvs = length es" using es by auto
  moreover have "kvs ! i = (bkey (es ! i), bval (es ! i))" if "i < length es" for i
    using that es by auto
  ultimately show ?thesis
    using walk_positioned [OF o] walk_exhausted [OF o] by (simp add: positioned_def exhausted_def opened_def Let_def)
qed

theorem block_roundtrip_witness:
  "let b = Block_Next (Block_SeekToFirst (NewBlock (finished_block 16 [([97, 98], [1]), ([97, 99], [2])])))
   in bvalid b \<and> (cur_key b, cur_value b) = ([97, 99], [2])"
proof -
  have "length (finished_block 16 [([97, 98], [1]), ([97, 99], [2])]) < 2 ^ 32"
    by (simp add: finished_block_def block_add_all_def BlockBuilder_Finish_def BlockBuilder_Add_def
        NewBlockBuilder_def BlockBuilder_Reset_def block_entry_def)
  from block_roundtrip [OF _ this] show ?thesis by (simp add: Let_def All_less_Suc)
qed

text \<open>
  C16: \<^verbatim>\<open>Seek\<close> on a block built from keys in strictly increasing internal-key order
  lands on the first entry that is not below the target, or becomes invalid when there is
  none, whatever sequence of seeks and steps the block served before, so the key
  scratch buffer left by earlier calls never leaks into a decoded key.
\<close>

theorem block_seek:
  assumes "kvs \<noteq> []" and "length (finished_block ivl kvs) < 2 ^ 32"
    and "sorted_wrt (\<lambda>a b. InternalKeyComparator (fst a) (fst b)) kvs"
  shows "let b = Block_Seek t (block_ops ops (NewBlock (finished_block ivl kvs)))
         in \<not> bcorrupted b \<and>
            (if bvalid b then Some (cur_key b, cur_value b) else None)
              = find (\<lambda>kv. \<not> InternalKeyComparator (fst kv) t) kvs"
proof -
  obtain es js where img: "block_image (finished_block ivl kvs) es js" and es: "map snd es = kvs"
    by (rule finished_image [OF assms(1,2)])
  have ord: "ordered es" using assms(3) unfolding es [symmetric] ordered_def by (simp add: sorted_wrt_map)
  let ?b = "Block_Seek t (block_ops ops (NewBlock (finished_block ivl kvs)))"
  have "stands ?b es js (seek_ix es t)"
    using block_ops_opened [OF NewBlock_opened [OF img] _ ord] by (intro Seek_stands ord) simp
  from stands_find [OF this] es show ?thesis by (simp add: Let_def)
qed

theorem block_seek_witness:
  "let b = Block_Seek [98] (Block_SeekToFirst (NewBlock (finished_block 1 [([97], [1]), ([98, 99], [2])])))
   in bvalid b \<and> (cur_key b, cur_value b) = ([98, 99], [2])"
proof -
  have "length (finished_block 1 [([97], [1]), ([98, 99], [2])]) < 2 ^ 32"
    by (simp add: finished_block_def block_add_all_def BlockBuilder_Finish_def BlockBuilder_Add_def
        NewBlockBuilder_def BlockBuilder_Reset_def block_entry_def)
  from block_seek [OF _ this, of "[98]" "[OpFirst]"] show ?thesis
    by (simp add: Let_def block_ops_def InternalKeyComparator_def sub_def split: if_splits)
qed

subsection \<open>Untrusted bytes\<close>

definition block_safe :: "bytes \<Rightarrow> Block \<Rightarrow> bool" where
  "block_safe data b \<longleftrightarrow> bdata b = data \<and>
     (\<not> bcorrupted b \<longrightarrow> restart_array_offset b + 4 * (unat (num_restarts b) + 1) = length data
        \<and> num_restarts b \<noteq> 0) \<and>
     (bvalid b \<longrightarrow> entry_end b \<le> restart_array_offset b \<and> length (cur_value b) \<le> entry_end b \<and>
        cur_value b = sub data (entry_end b - length (cur_value b)) (length (cur_value b)) \<and> cur_key b = key_scratch b)"

lemma block_safe_New: "block_safe data (NewBlock data)"
  by (auto simp: block_safe_def NewBlock_def Let_def)

lemma ParseEntry_ok:
  assumes "ParseEntry off b = (True, b')" and "restart_array_offset b \<le> length (bdata b)"
  shows "bdata b' = bdata b \<and> restart_array_offset b' = restart_array_offset b \<and> num_restarts b' = num_restarts b
    \<and> bcorrupted b' = bcorrupted b \<and> entry_end b' \<le> restart_array_offset b \<and> length (cur_value b') \<le> entry_end b'
    \<and> cur_value b' = sub (bdata b) (entry_end b' - length (cur_value b')) (length (cur_value b'))
    \<and> cur_key b' = key_scratch b'"
proof -
  let ?ns = "unat (GetFixed32 (drop (off + 4) (bdata b)))"
  let ?vl = "unat (GetFixed32 (drop (off + 8) (bdata b)))"
  have b': "off + kEntryHeader + ?ns + ?vl \<le> restart_array_offset b"
      "cur_value b' = sub (bdata b) (off + kEntryHeader + ?ns) ?vl" "entry_end b' = off + kEntryHeader + ?ns + ?vl"
      "cur_key b' = key_scratch b'" "bdata b' = bdata b" "restart_array_offset b' = restart_array_offset b"
      "num_restarts b' = num_restarts b" "bcorrupted b' = bcorrupted b"
    using assms(1) by (auto simp: ParseEntry_def Let_def split: if_splits)
  then have "length (cur_value b') = ?vl" using assms(2) by (simp add: sub_def)
  then show ?thesis using b' by simp
qed

lemma ParseEntry_fail:
  "ParseEntry off b = (False, b') \<Longrightarrow> \<not> bvalid b' \<and> bdata b' = bdata b \<and> restart_array_offset b' = restart_array_offset b
    \<and> num_restarts b' = num_restarts b \<and> (\<not> bcorrupted b' \<longrightarrow> \<not> bcorrupted b)"
  by (auto simp: ParseEntry_def Let_def split: if_splits)

lemma ParseEntry_safe:
  assumes "block_safe data b" and "\<not> bcorrupted b" and "ParseEntry off b = (ok, b')"
  shows "block_safe data (b'\<lparr>bvalid := ok\<rparr>) \<and> (ok \<longrightarrow> \<not> bcorrupted b')"
proof (cases ok)
  case True
  with assms have "restart_array_offset b \<le> length (bdata b)" by (auto simp: block_safe_def)
  then show ?thesis
    using ParseEntry_ok [of off b b'] assms True by (simp add: block_safe_def)
next
  case False
  then show ?thesis
    using ParseEntry_fail [of off b b'] assms by (auto simp: block_safe_def)
qed

lemma seek_scan_safe:
  "block_safe data b \<Longrightarrow> \<not> bcorrupted b \<Longrightarrow> block_safe data (seek_scan t off b)"
proof (induction t off b rule: seek_scan.induct)
  case (1 t off b)
  obtain ok b' where p: "ParseEntry off b = (ok, b')" by (cases "ParseEntry off b")
  note safe = ParseEntry_safe [OF "1.prems" p]
  show ?case
  proof (cases "off < restart_array_offset b")
    case True
    show ?thesis
    proof (cases ok)
      case ok: True
      have "block_safe data (seek_scan t (entry_end b') (b'\<lparr>bvalid := True\<rparr>))" if "InternalKeyComparator (cur_key b') t"
        using "1.IH" [OF True p [symmetric] _ _ _] ok safe that by simp
      with True ok safe p show ?thesis by (simp add: seek_scan.simps [of t off b])
    next
      case False
      then have "b'\<lparr>bvalid := False\<rparr> = b'" using ParseEntry_fail [of off b b'] p by (cases b') simp
      with True False safe p show ?thesis by (simp add: seek_scan.simps [of t off b])
    qed
  next
    case False
    with "1.prems" show ?thesis by (simp add: seek_scan.simps [of t off b] block_safe_def)
  qed
qed

lemma run_op_safe: "block_safe data b \<Longrightarrow> block_safe data (run_op x b)"
proof (cases x)
  case (OpSeek t)
  assume "block_safe data b"
  then show ?thesis using OpSeek seek_scan_safe [of data "b\<lparr>bvalid := False\<rparr>"]
    by (auto simp: Block_Seek_def Let_def block_safe_def)
qed (auto simp: Block_SeekToFirst_def Block_Next_def block_safe_def [of _ "_\<lparr>bvalid := False\<rparr>"]
     dest: ParseEntry_safe split: prod.splits; simp add: block_safe_def)+

text \<open>
  C25: a \<^verbatim>\<open>Block\<close> over arbitrary bytes, trusted or not, under any sequence of seeks and
  steps: while it is not marked corrupted its restart array and trailer fit the bytes
  exactly, and whenever it claims to stand on an entry, that entry ends before the restart
  array and the value handed out is a slice of the bytes ending there. No value ever
  reaches outside the block.
\<close>

theorem block_untrusted_bounds:
  "let b = block_ops ops (NewBlock data)
   in bdata b = data \<and>
      (\<not> bcorrupted b \<longrightarrow> restart_array_offset b + 4 * (unat (num_restarts b) + 1) = length data) \<and>
      (bvalid b \<longrightarrow> entry_end b \<le> restart_array_offset b \<and> length (cur_value b) \<le> entry_end b \<and>
         cur_value b = sub data (entry_end b - length (cur_value b)) (length (cur_value b)))"
proof -
  have "block_safe data (fold run_op ops b)" if "block_safe data b" for b
    using that by (induction ops arbitrary: b) (simp_all add: run_op_safe)
  from this [OF block_safe_New] show ?thesis by (simp add: block_ops_def block_safe_def Let_def)
qed

theorem block_untrusted_bounds_witness:
  "let b = block_ops [OpFirst] (NewBlock [0, 0, 0, 0, 1, 0, 0, 0, 1, 0, 0, 0, 97, 7, 0, 0, 0, 0, 1, 0, 0, 0])
   in bvalid b \<and> entry_end b \<le> restart_array_offset b \<and> length (cur_value b) \<le> entry_end b"
proof -
  have "bvalid (block_ops [OpFirst] (NewBlock [0, 0, 0, 0, 1, 0, 0, 0, 1, 0, 0, 0, 97, 7, 0, 0, 0, 0, 1, 0, 0, 0]))"
    by code_simp
  with block_untrusted_bounds [of "[OpFirst]" "[0, 0, 0, 0, 1, 0, 0, 0, 1, 0, 0, 0, 97, 7, 0, 0, 0, 0, 1, 0, 0, 0]"]
  show ?thesis by (simp only: Let_def simp_thms)
qed

end
