(* ===== verification/Bloom.thy ===== *)
theory Bloom
  imports Crc32
begin

text \<open>
  Bloom filters (\<^verbatim>\<open>include/bedrockkv/bloom.h\<close>): double hashing by rotation over a
  bit array, the number of probes stored in the last byte. A key the filter was built
  over is never reported absent.
\<close>

definition Hash :: "bytes \<Rightarrow> u32" where
  "Hash k = Crc32 k 0xbc9f1d34"

definition delta_of :: "u32 \<Rightarrow> u32" where
  "delta_of h = drop_bit 17 h OR push_bit 15 h"

text \<open>
  The number of probes. The source multiplies by the double 0.69 and truncates; up to 44
  bits per key the product stays clear of every integer by far more than the rounding of a
  double, and from 45 on the result exceeds the cap of 30, so integer division gives the same.
\<close>

definition num_probes :: "nat \<Rightarrow> nat" where
  "num_probes bits_per_key = min 30 (max 1 (bits_per_key * 69 div 100))"

definition set_filter_bit :: "nat \<Rightarrow> bytes \<Rightarrow> bytes" where
  "set_filter_bit bitpos f = f[bitpos div 8 := (f ! (bitpos div 8)) OR push_bit (bitpos mod 8) 1]"

primrec add_probes :: "nat \<Rightarrow> nat \<Rightarrow> u32 \<Rightarrow> u32 \<Rightarrow> bytes \<Rightarrow> bytes" where
  "add_probes 0 bits h delta f = f"
| "add_probes (Suc i) bits h delta f =
     add_probes i bits (h + delta) delta (set_filter_bit (unat h mod bits) f)"

definition filter_bytes :: "nat \<Rightarrow> nat \<Rightarrow> nat" where
  "filter_bytes n bits_per_key = (max 64 (n * bits_per_key) + 7) div 8"

definition BuildFilter :: "bytes list \<Rightarrow> nat \<Rightarrow> bytes" where
  "BuildFilter keys bits_per_key =
     (if keys = [] then []
      else
        let nbytes = filter_bytes (length keys) bits_per_key;
            bits = nbytes * 8;
            k = num_probes bits_per_key
        in fold (\<lambda>key. add_probes k bits (Hash key) (delta_of (Hash key))) keys (replicate nbytes 0)
           @ [of_nat k])"

primrec probes_set :: "nat \<Rightarrow> nat \<Rightarrow> u32 \<Rightarrow> u32 \<Rightarrow> bytes \<Rightarrow> bool" where
  "probes_set 0 bits h delta f = True"
| "probes_set (Suc i) bits h delta f =
     (let bitpos = unat h mod bits
      in if (f ! (bitpos div 8)) AND push_bit (bitpos mod 8) 1 = 0 then False
         else probes_set i bits (h + delta) delta f)"

definition KeyMayMatch :: "bytes \<Rightarrow> bytes \<Rightarrow> bool" where
  "KeyMayMatch f key =
     (if length f < 2 then True
      else probes_set (unat (last f)) ((length f - 1) * 8) (Hash key) (delta_of (Hash key)) f)"

subsection \<open>No false negatives\<close>

definition filter_bit :: "bytes \<Rightarrow> nat \<Rightarrow> bool" where
  "filter_bit f b \<longleftrightarrow> bit (f ! (b div 8)) (b mod 8)"

lemma filter_bit_test: "((f ! (b div 8)) AND 2 ^ (b mod 8) = 0) \<longleftrightarrow> \<not> filter_bit f b"
  by (simp add: filter_bit_def and_exp_eq_0_iff_not_bit)

lemma filter_bit_set:
  assumes "b div 8 < length f"
  shows "filter_bit (set_filter_bit b f) c \<longleftrightarrow> filter_bit f c \<or> b = c"
proof -
  have "b = c \<longleftrightarrow> b div 8 = c div 8 \<and> b mod 8 = c mod 8" by (metis div_mult_mod_eq)
  with assms show ?thesis
    by (cases "b div 8 = c div 8") (auto simp: filter_bit_def set_filter_bit_def bit_simps nth_list_update)
qed

lemma length_set_filter_bit [simp]: "length (set_filter_bit b f) = length f"
  by (simp add: set_filter_bit_def)

lemma filter_nonempty [simp]: "(set_filter_bit b f = []) = (f = [])"
  by (simp add: set_filter_bit_def)

lemma length_add_probes [simp]: "length (add_probes n bits h d f) = length f"
  by (induction n arbitrary: h f) simp_all

lemma add_probes_nonempty [simp]: "(add_probes n bits h d f = []) = (f = [])"
  by (simp flip: length_0_conv)

lemma probe_in_range: "f \<noteq> [] \<Longrightarrow> length f * 8 = bits \<Longrightarrow> unat h mod bits div 8 < length f"
  by (rule less_mult_imp_div_less) (auto simp flip: length_greater_0_conv)

lemma add_probes_keeps:
  "f \<noteq> [] \<Longrightarrow> length f * 8 = bits \<Longrightarrow> filter_bit f c \<Longrightarrow> filter_bit (add_probes n bits h d f) c"
  by (induction n arbitrary: h f) (simp_all add: filter_bit_set probe_in_range)

lemma add_probes_sets:
  "f \<noteq> [] \<Longrightarrow> length f * 8 = bits \<Longrightarrow> probes_set n bits h d (add_probes n bits h d f)"
proof (induction n arbitrary: h f)
  case (Suc n)
  let ?f = "set_filter_bit (unat h mod bits) f"
  have "filter_bit (add_probes n bits (h + d) d ?f) (unat h mod bits)"
    using Suc.prems by (intro add_probes_keeps) (simp_all add: filter_bit_set probe_in_range)
  then show ?case using Suc.IH [of ?f "h + d"] Suc.prems by (simp add: Let_def filter_bit_test)
qed simp

lemma probes_set_mono:
  "probes_set n bits h d f \<Longrightarrow> (\<And>c. filter_bit f c \<Longrightarrow> filter_bit g c) \<Longrightarrow> probes_set n bits h d g"
  by (induction n arbitrary: h) (auto simp: Let_def filter_bit_test split: if_splits)

lemma probes_set_append:
  "length f * 8 = bits \<Longrightarrow> f \<noteq> [] \<Longrightarrow> probes_set n bits h d (f @ g) = probes_set n bits h d f"
  by (induction n arbitrary: h) (simp_all add: Let_def nth_append probe_in_range)

lemma fold_probes_length:
  "length (fold (\<lambda>key. add_probes k bits (Hash key) (delta_of (Hash key))) keys f) = length f"
  by (induction keys arbitrary: f) simp_all

lemma fold_probes_keeps:
  "f \<noteq> [] \<Longrightarrow> length f * 8 = bits \<Longrightarrow> filter_bit f c \<Longrightarrow>
     filter_bit (fold (\<lambda>key. add_probes k bits (Hash key) (delta_of (Hash key))) keys f) c"
  by (induction keys arbitrary: f) (simp_all add: add_probes_keeps)

lemma fold_probes_sets:
  "f \<noteq> [] \<Longrightarrow> length f * 8 = bits \<Longrightarrow> key \<in> set keys \<Longrightarrow>
     probes_set k bits (Hash key) (delta_of (Hash key))
       (fold (\<lambda>key. add_probes k bits (Hash key) (delta_of (Hash key))) keys f)"
proof (induction keys arbitrary: f)
  case (Cons x keys)
  show ?case
  proof (cases "key = x")
    case True
    show ?thesis
      using probes_set_mono [OF add_probes_sets [OF Cons.prems(1,2), of k "Hash x" "delta_of (Hash x)"]
          fold_probes_keeps [of "add_probes k bits (Hash x) (delta_of (Hash x)) f" bits]] Cons.prems True
      by simp
  next
    case False
    then show ?thesis using Cons by simp
  qed
qed simp

lemma filter_bytes_pos: "8 \<le> filter_bytes n b"
  by (simp add: filter_bytes_def)

lemma KeyMayMatch_built: "key \<in> set keys \<Longrightarrow> KeyMayMatch (BuildFilter keys bits_per_key) key"
proof -
  assume key: "key \<in> set keys"
  let ?n = "filter_bytes (length keys) bits_per_key" and ?k = "num_probes bits_per_key"
  let ?f = "fold (\<lambda>key. add_probes ?k (?n * 8) (Hash key) (delta_of (Hash key))) keys (replicate ?n 0)"
  have n: "8 \<le> ?n" by (rule filter_bytes_pos)
  have "unat (of_nat ?k :: u8) = ?k" by (simp add: num_probes_def unat_of_nat take_bit_nat_eq_self)
  moreover have "probes_set ?k (?n * 8) (Hash key) (delta_of (Hash key)) ?f"
    using n key by (intro fold_probes_sets) (auto simp: replicate_empty)
  moreover have "BuildFilter keys bits_per_key = ?f @ [of_nat ?k]"
    using key by (auto simp: BuildFilter_def Let_def)
  moreover have "length ?f = ?n" by (simp add: fold_probes_length)
  moreover from this n have "?f \<noteq> []" by (metis le_zero_eq list.size(3) zero_neq_numeral)
  ultimately show ?thesis
    using n by (simp add: KeyMayMatch_def probes_set_append)
qed

text \<open>
  C21: a Bloom filter built over a set of keys never rules one of them out, for any number
  of bits per key, the clamped sizes and probe counts included.
\<close>

theorem bloom_no_false_negative:
  "list_all (KeyMayMatch (BuildFilter keys bits_per_key)) keys"
  using KeyMayMatch_built by (simp add: list_all_iff)

end
