(* ===== verification/StdAlgo.thy ===== *)
theory StdAlgo
  imports Prelude
begin

text \<open>
  The algorithms of the C++ standard library the sources call. \<open>partition_point\<close> is the
  halving loop behind \<^verbatim>\<open>std::lower_bound\<close> and \<^verbatim>\<open>std::upper_bound\<close>; on a range that is
  partitioned, as both require, it finds the end of the first part.
\<close>

function partition_loop :: "('a \<Rightarrow> bool) \<Rightarrow> 'a list \<Rightarrow> nat \<Rightarrow> nat \<Rightarrow> nat" where
  "partition_loop p xs first len =
     (if len = 0 then first
      else
        let half = len div 2
        in if p (xs ! (first + half)) then partition_loop p xs (first + half + 1) (len - half - 1)
           else partition_loop p xs first half)"
  by pat_completeness auto
termination
  by (relation "measure (\<lambda>(p, xs, first, len). len)") auto

declare partition_loop.simps [simp del]

definition partition_point :: "('a \<Rightarrow> bool) \<Rightarrow> 'a list \<Rightarrow> nat" where
  "partition_point p xs = partition_loop p xs 0 (length xs)"

definition lower_bound :: "('a \<Rightarrow> 'b \<Rightarrow> bool) \<Rightarrow> 'a list \<Rightarrow> 'b \<Rightarrow> nat" where
  "lower_bound lt xs t = partition_point (\<lambda>x. lt x t) xs"

definition upper_bound :: "('b \<Rightarrow> 'a \<Rightarrow> bool) \<Rightarrow> 'a list \<Rightarrow> 'b \<Rightarrow> nat" where
  "upper_bound lt xs t = partition_point (\<lambda>x. \<not> lt t x) xs"

lemma partition_loop_eq:
  assumes "\<forall>i < m. p (xs ! i)" and "\<forall>i. m \<le> i \<and> i < n \<longrightarrow> \<not> p (xs ! i)"
    and "first \<le> m" and "m \<le> first + len" and "first + len \<le> n"
  shows "partition_loop p xs first len = m"
  using assms
proof (induction p xs first len rule: partition_loop.induct)
  case (1 p xs first len)
  let ?h = "len div 2"
  show ?case
  proof (cases "len = 0")
    case False
    then have mid: "first + ?h < n" using "1.prems"(5) by linarith
    show ?thesis
    proof (cases "p (xs ! (first + ?h))")
      case True
      then have "first + ?h < m" using "1.prems"(2) mid by (meson not_le)
      then have "partition_loop p xs (first + ?h + 1) (len - ?h - 1) = m"
        using "1.IH"(1) [OF False refl True] "1.prems" by simp
      then show ?thesis using False True by (simp add: partition_loop.simps [of p xs first len] Let_def)
    next
      case le: False
      then have "m \<le> first + ?h" using "1.prems"(1) by (meson not_le)
      then have "partition_loop p xs first ?h = m"
        using "1.IH"(2) [OF False refl le] "1.prems" by simp
      then show ?thesis using False le by (simp add: partition_loop.simps [of p xs first len] Let_def)
    qed
  qed (use "1.prems" in \<open>simp add: partition_loop.simps [of _ _ _ 0]\<close>)
qed

lemma partition_point_eq:
  assumes "m \<le> length xs" and "\<forall>i < m. p (xs ! i)" and "\<forall>i. m \<le> i \<and> i < length xs \<longrightarrow> \<not> p (xs ! i)"
  shows "partition_point p xs = m"
  using partition_loop_eq [OF assms(2,3), of 0 "length xs"] assms(1) by (simp add: partition_point_def)

lemma partition_point_sorted:
  assumes "sorted_wrt R xs" and "\<And>x y. R x y \<Longrightarrow> p y \<Longrightarrow> p x"
  shows "partition_point p xs = length (takeWhile p xs)"
proof (rule partition_point_eq)
  let ?m = "length (takeWhile p xs)"
  show "?m \<le> length xs" by (rule length_takeWhile_le)
  show "\<forall>i < ?m. p (xs ! i)" by (metis nth_mem set_takeWhileD takeWhile_nth)
  show "\<forall>i. ?m \<le> i \<and> i < length xs \<longrightarrow> \<not> p (xs ! i)"
  proof (intro allI impI)
    fix i assume i: "?m \<le> i \<and> i < length xs"
    then have "\<not> p (xs ! ?m)" using nth_length_takeWhile [of p xs] by linarith
    moreover have "R (xs ! ?m) (xs ! i)" if "?m \<noteq> i"
      using assms(1) i that by (simp add: sorted_wrt_iff_nth_less)
    ultimately show "\<not> p (xs ! i)" using assms(2) by (cases "?m = i") auto
  qed
qed

end
