(* ===== verification/Fs.thy ===== *)
theory Fs
  imports Status
begin

text \<open>
  The file helpers (\<^verbatim>\<open>src/fs_util.cpp\<close>) over an explicit file system. The world holds
  inodes with their bytes, the directory as the process sees it, and what a power cut may
  leave: an inode is \<open>clean\<close> when \<^verbatim>\<open>fsync\<close> has run since it was last written, and
  \<open>pend\<close> lists the directories the disk may come back with, the current one last. Every
  system call first takes an answer of the kernel from \<open>sys\<close>; a call with no answer
  left succeeds in full. The answer \<open>Cut\<close> is a power cut: from then on nothing changes.
\<close>

type_synonym path = bytes

datatype ans = Done | Partial nat | Eintr | Fail bytes | Cut

record World =
  inodes :: "nat \<Rightarrow> bytes"
  clean :: "nat \<Rightarrow> bool"
  names :: "path \<Rightarrow> nat option"
  pend :: "(path \<Rightarrow> nat option) list"
  fresh_ino :: nat
  dead :: bool
  sys :: "ans list"

subsection \<open>System calls\<close>

definition eintr_text :: bytes where "eintr_text = str ''Interrupted system call''"
definition enoent_text :: bytes where "enoent_text = str ''No such file or directory''"

definition ask :: "World \<Rightarrow> ans \<times> World" where
  "ask w = (if dead w then (Fail [], w)
     else case sys w of
       [] \<Rightarrow> (Done, w)
     | Cut # as \<Rightarrow> (Fail [], w\<lparr>dead := True, sys := as\<rparr>)
     | a # as \<Rightarrow> (a, w\<lparr>sys := as\<rparr>))"

text \<open>A call that either fails with an error text or has its effect \<open>f\<close>.\<close>

definition call :: "World \<Rightarrow> (World \<Rightarrow> 'a \<times> World) \<Rightarrow> (bytes + 'a) \<times> World" where
  "call w f = (case ask w of
      (Fail e, w') \<Rightarrow> (Inl e, w')
    | (Eintr, w') \<Rightarrow> (Inl eintr_text, w')
    | (_, w') \<Rightarrow> (case f w' of (r, w'') \<Rightarrow> (Inr r, w'')))"

definition set_names :: "(path \<Rightarrow> nat option) \<Rightarrow> World \<Rightarrow> World" where
  "set_names nm w = w\<lparr>names := nm, pend := pend w @ [nm]\<rparr>"

definition set_inode :: "nat \<Rightarrow> bytes \<Rightarrow> World \<Rightarrow> World" where
  "set_inode i d w = w\<lparr>inodes := (inodes w)(i := d), clean := (clean w)(i := False)\<rparr>"

text \<open>\<^verbatim>\<open>open\<close> with \<^verbatim>\<open>O_CREAT | O_TRUNC\<close>, and with \<^verbatim>\<open>O_CREAT\<close> only.\<close>

definition create_file :: "path \<Rightarrow> World \<Rightarrow> nat \<times> World" where
  "create_file p w = (fresh_ino w,
     set_names ((names w)(p \<mapsto> fresh_ino w)) (set_inode (fresh_ino w) [] (w\<lparr>fresh_ino := Suc (fresh_ino w)\<rparr>)))"

definition open_trunc :: "path \<Rightarrow> World \<Rightarrow> (bytes + nat) \<times> World" where
  "open_trunc p w = call w (\<lambda>w. case names w p of Some i \<Rightarrow> (i, set_inode i [] w) | None \<Rightarrow> create_file p w)"

definition open_creat :: "path \<Rightarrow> World \<Rightarrow> (bytes + nat) \<times> World" where
  "open_creat p w = call w (\<lambda>w. case names w p of Some i \<Rightarrow> (i, w) | None \<Rightarrow> create_file p w)"

definition fsync :: "nat \<Rightarrow> World \<Rightarrow> (bytes + unit) \<times> World" where
  "fsync i w = call w (\<lambda>w. ((), w\<lparr>clean := (clean w)(i := True)\<rparr>))"

definition ftruncate :: "nat \<Rightarrow> nat \<Rightarrow> World \<Rightarrow> (bytes + unit) \<times> World" where
  "ftruncate i n w = call w (\<lambda>w. ((), set_inode i (take n (inodes w i)) w))"

definition unlink :: "path \<Rightarrow> World \<Rightarrow> World" where
  "unlink p w = snd (call w (\<lambda>w. ((), if names w p = None then w else set_names ((names w)(p := None)) w)))"

definition rename :: "path \<Rightarrow> path \<Rightarrow> World \<Rightarrow> (bytes + unit) \<times> World" where
  "rename a b w = (case names w a of
      None \<Rightarrow> (Inl enoent_text, w)
    | Some i \<Rightarrow> call w (\<lambda>w. ((), set_names ((names w)(a := None, b \<mapsto> i)) w)))"

text \<open>
  The loop around \<^verbatim>\<open>::write\<close>, which \<^verbatim>\<open>WriteFileDurable\<close> and \<^verbatim>\<open>log::Writer::WriteAll\<close>
  share up to the text of the error: short writes are continued, \<^verbatim>\<open>EINTR\<close> is retried.
\<close>

function write_loop :: "nat \<Rightarrow> bytes \<Rightarrow> World \<Rightarrow> bytes option \<times> World" where
  "write_loop i data w =
     (if data = [] then (None, w)
      else case ask w of
        (Fail e, w') \<Rightarrow> (Some e, w')
      | (Eintr, w') \<Rightarrow> write_loop i data w'
      | (Partial k, w') \<Rightarrow> write_loop i (drop k data) (set_inode i (inodes w' i @ take k data) w')
      | (_, w') \<Rightarrow> (None, set_inode i (inodes w' i @ data) w'))"
  by pat_completeness auto
termination
  by (relation "measure (\<lambda>(i, d, w). length (sys w))")
     (auto simp: ask_def set_inode_def split: if_splits list.splits ans.splits)

declare write_loop.simps [simp del]

subsection \<open>fs_util\<close>

text \<open>\<^verbatim>\<open>path.rfind('/')\<close>, and the directory part.\<close>

fun rfind :: "byte \<Rightarrow> bytes \<Rightarrow> nat option" where
  "rfind c [] = None"
| "rfind c (x # xs) = (case rfind c xs of Some n \<Rightarrow> Some (Suc n) | None \<Rightarrow> if x = c then Some 0 else None)"

definition ParentDir :: "path \<Rightarrow> path" where
  "ParentDir p = (case rfind 0x2F p of
      None \<Rightarrow> str ''.''
    | Some slash \<Rightarrow> if slash = 0 then str ''/'' else sub p 0 slash)"

definition sync_entries :: "path \<Rightarrow> World \<Rightarrow> World" where
  "sync_entries dir w =
     w\<lparr>pend := map (\<lambda>nm p. if ParentDir p = dir then names w p else nm p) (pend w)\<rparr>"

definition SyncDir :: "path \<Rightarrow> World \<Rightarrow> Status \<times> World" where
  "SyncDir dir w = (case call w (\<lambda>w. ((), w)) of
      (Inl e, w1) \<Rightarrow> (IOError (str ''cannot open directory '' @ dir @ str '': '' @ e), w1)
    | (Inr _, w1) \<Rightarrow>
        (case call w1 (\<lambda>w. ((), sync_entries dir w)) of
           (Inl e, w2) \<Rightarrow> (IOError (str ''cannot fsync directory '' @ dir @ str '': '' @ e), w2)
         | (Inr _, w2) \<Rightarrow> (Ok, w2)))"

definition WriteFileDurable :: "path \<Rightarrow> bytes \<Rightarrow> World \<Rightarrow> Status \<times> World" where
  "WriteFileDurable p data w = (case open_trunc p w of
      (Inl e, w1) \<Rightarrow> (IOError (str ''cannot create '' @ p @ str '': '' @ e), w1)
    | (Inr fd, w1) \<Rightarrow>
        (case write_loop fd data w1 of
           (Some e, w2) \<Rightarrow> (IOError (str ''write to '' @ p @ str '' failed: '' @ e), w2)
         | (None, w2) \<Rightarrow>
             (case fsync fd w2 of
                (Inl e, w3) \<Rightarrow> (IOError (str ''fsync '' @ p @ str '' failed: '' @ e), w3)
              | (Inr _, w3) \<Rightarrow> SyncDir (ParentDir p) w3)))"

definition kReadBuf :: nat where "kReadBuf = 65536"

text \<open>
  The read loop: \<open>rest\<close> is what the descriptor has not delivered yet. \<^verbatim>\<open>::read\<close>
  returns at least one byte while any is left.
\<close>

function file_read_loop :: "bytes \<Rightarrow> bytes \<Rightarrow> World \<Rightarrow> (bytes + bytes) \<times> World" where
  "file_read_loop rest out w = (case ask w of
      (Fail e, w') \<Rightarrow> (Inl e, w')
    | (Eintr, w') \<Rightarrow> file_read_loop rest out w'
    | (a, w') \<Rightarrow>
        if rest = [] then (Inr out, w')
        else let n = (case a of Partial k \<Rightarrow> max 1 (min k kReadBuf) | _ \<Rightarrow> kReadBuf)
             in file_read_loop (drop n rest) (out @ take n rest) w')"
  by pat_completeness auto
termination
  by (relation "measure (\<lambda>(r, out, w). length r + length (sys w))")
     (auto simp: ask_def kReadBuf_def neq_Nil_conv split: if_splits list.splits ans.splits)

declare file_read_loop.simps [simp del]

definition ReadFileToString :: "path \<Rightarrow> World \<Rightarrow> Status \<times> bytes \<times> World" where
  "ReadFileToString p w = (case names w p of
      None \<Rightarrow> (IOError (str ''cannot open '' @ p @ str '': '' @ enoent_text), [], w)
    | Some i \<Rightarrow>
        (case call w (\<lambda>w. ((), w)) of
           (Inl e, w1) \<Rightarrow> (IOError (str ''cannot open '' @ p @ str '': '' @ e), [], w1)
         | (Inr _, w1) \<Rightarrow>
             (case file_read_loop (inodes w1 i) [] w1 of
                (Inl e, w2) \<Rightarrow> (IOError (str ''read '' @ p @ str '' failed: '' @ e), [], w2)
              | (Inr out, w2) \<Rightarrow> (Ok, out, w2))))"

subsection \<open>Power cuts\<close>

definition content :: "World \<Rightarrow> path \<Rightarrow> bytes option" where
  "content w p = map_option (inodes w) (names w p)"

text \<open>
  After a power cut the directory is one of \<open>pend\<close>, clean inodes have their bytes, the
  others anything.
\<close>

definition crash :: "World \<Rightarrow> World \<Rightarrow> bool" where
  "crash w w' \<longleftrightarrow> names w' \<in> set (pend w) \<and> (\<forall>i. clean w i \<longrightarrow> inodes w' i = inodes w i)"

text \<open>On stable storage: whatever directory comes back names a clean inode with these bytes.\<close>

definition durable :: "World \<Rightarrow> path \<Rightarrow> bytes set \<Rightarrow> bool" where
  "durable w p D \<longleftrightarrow> (\<forall>nm\<in>set (pend w). \<exists>i. nm p = Some i \<and> clean w i \<and> inodes w i \<in> D)"

definition world_ok :: "World \<Rightarrow> bool" where
  "world_ok w \<longleftrightarrow> names w \<in> set (pend w)
     \<and> (\<forall>nm\<in>set (pend w). \<forall>p i. nm p = Some i \<longrightarrow> i < fresh_ino w)
     \<and> (\<forall>p q i. names w p = Some i \<and> names w q = Some i \<longrightarrow> p = q)"

lemma durable_crash: "durable w p D \<Longrightarrow> crash w w' \<Longrightarrow> \<exists>d\<in>D. content w' p = Some d"
  by (force simp: durable_def crash_def content_def)

lemma durable_mono: "durable w p D \<Longrightarrow> D \<subseteq> E \<Longrightarrow> durable w p E"
  unfolding durable_def by (meson subsetD)

text \<open>The same world up to the answers of the kernel.\<close>

definition same :: "World \<Rightarrow> World \<Rightarrow> bool" where
  "same w w' \<longleftrightarrow> w' = w\<lparr>dead := dead w', sys := sys w'\<rparr>"

lemma same_trans: "same a b \<Longrightarrow> same b c \<Longrightarrow> same a c"
  by (cases a, cases b, cases c) (simp add: same_def)

lemma same_simps:
  assumes "same w w'"
  shows "inodes w' = inodes w" "clean w' = clean w" "names w' = names w" "pend w' = pend w" "fresh_ino w' = fresh_ino w"
  using assms by (cases w, cases w', simp add: same_def)+

lemma same_refl [simp]: "same w w"
  by (simp add: same_def)

lemma ask_same: "ask w = (a, w') \<Longrightarrow> same w w'"
  by (auto simp: ask_def same_def split: if_splits list.splits ans.splits)

lemma same_pred:
  assumes "same w w'"
  shows "durable w' p D = durable w p D" "world_ok w' = world_ok w" "content w' p = content w p"
  by (simp_all add: durable_def world_ok_def content_def same_simps [OF assms])

lemma call_cases:
  obtains e w' where "call w f = (Inl e, w')" "same w w'"
  | w' where "call w f = (Inr (fst (f w')), snd (f w'))" "same w w'"
proof -
  obtain a w' where a: "ask w = (a, w')" by (cases "ask w")
  then have s: "same w w'" by (rule ask_same)
  show thesis
  proof (cases "\<exists>e. call w f = (Inl e, w')")
    case True
    then show ?thesis using s that(1) by blast
  next
    case False
    then have "call w f = (Inr (fst (f w')), snd (f w'))"
      using a by (cases a) (auto simp: call_def split: prod.splits)
    then show ?thesis using s by (rule that(2))
  qed
qed

subsection \<open>What each call keeps\<close>

text \<open>Only the inode \<open>i\<close> changed.\<close>

definition touch :: "nat \<Rightarrow> World \<Rightarrow> World \<Rightarrow> bool" where
  "touch i w w' \<longleftrightarrow> names w' = names w \<and> pend w' = pend w \<and> fresh_ino w' = fresh_ino w
     \<and> (\<forall>j. j \<noteq> i \<longrightarrow> inodes w' j = inodes w j \<and> clean w' j = clean w j)"

text \<open>An inode no directory that may come back names as \<open>q\<close>.\<close>

definition not_named :: "World \<Rightarrow> path \<Rightarrow> nat \<Rightarrow> bool" where
  "not_named w q i \<longleftrightarrow> (\<forall>nm\<in>set (pend w). nm q \<noteq> Some i)"

lemma touch_trans: "touch i a b \<Longrightarrow> touch i b c \<Longrightarrow> touch i a c"
  by (simp add: touch_def)

lemma same_touch: "same w w' \<Longrightarrow> touch i w w'"
  by (simp add: touch_def same_simps)

lemma touch_set_inode: "touch i w (set_inode i d w)"
  by (simp add: touch_def set_inode_def)

lemma touch_ok: "touch i w w' \<Longrightarrow> world_ok w' = world_ok w"
  by (simp add: touch_def world_ok_def)

lemma touch_not_named: "touch i w w' \<Longrightarrow> not_named w' q j = not_named w q j"
  by (simp add: touch_def not_named_def)

lemma touch_durable:
  assumes "touch i w w'" and "not_named w q i" and "durable w q D"
  shows "durable w' q D"
  unfolding durable_def
proof
  fix nm assume "nm \<in> set (pend w')"
  then have nm: "nm \<in> set (pend w)" using assms(1) by (simp add: touch_def)
  then obtain j where j: "nm q = Some j" "clean w j" "inodes w j \<in> D" using assms(3) by (auto simp: durable_def)
  then have "j \<noteq> i" using assms(2) nm by (auto simp: not_named_def)
  then show "\<exists>i. nm q = Some i \<and> clean w' i \<and> inodes w' i \<in> D" using assms(1) j by (simp add: touch_def)
qed

lemma write_loop_touch:
  assumes "write_loop i data w = (r, w')"
  shows "touch i w w' \<and> (\<exists>k. inodes w' i = inodes w i @ take k data) \<and> (r = None \<longrightarrow> inodes w' i = inodes w i @ data)"
  using assms
proof (induction i data w arbitrary: r w' rule: write_loop.induct)
  case (1 i data w)
  obtain a w1 where a: "ask w = (a, w1)" by (cases "ask w")
  then have s: "same w w1" by (rule ask_same)
  show ?case
  proof (cases "data = []")
    case True
    then show ?thesis using 1(3) by (simp add: write_loop.simps [of i "[]"] touch_def)
  next
    case ne: False
    show ?thesis
    proof (cases a)
      case (Partial k)
      let ?w = "set_inode i (inodes w1 i @ take k data) w1"
      have "write_loop i (drop k data) ?w = (r, w')"
        using 1(3) a ne Partial by (simp add: write_loop.simps [of i data w])
      from "1.IH"(1) [OF ne a [symmetric] Partial this]
      obtain m where t: "touch i ?w w'" and m: "inodes w' i = inodes ?w i @ take m (drop k data)"
        and n: "r = None \<longrightarrow> inodes w' i = inodes ?w i @ drop k data" by blast
      have "touch i w w'" by (rule touch_trans [OF same_touch [OF s] touch_trans [OF touch_set_inode t]])
      moreover have "take k data @ take m (drop k data) = take (k + m) data" by (simp add: take_add)
      ultimately show ?thesis using m n s by (auto simp: set_inode_def same_simps)
    next
      case Eintr
      have "write_loop i data w1 = (r, w')"
        using 1(3) a ne Eintr by (simp add: write_loop.simps [of i data w])
      from "1.IH"(2) [OF ne a [symmetric] Eintr this] show ?thesis
        using touch_trans [OF same_touch [OF s], of i w'] by (simp add: same_simps [OF s])
    next
      case (Fail e)
      then have "w' = w1" "r = Some e" using 1(3) a ne by (simp_all add: write_loop.simps [of i data w])
      then show ?thesis using s by (auto simp: same_touch same_simps [OF s] intro: exI [of _ 0])
    qed (use 1(3) a ne touch_trans [OF same_touch [OF s] touch_set_inode [of i w1 "inodes w1 i @ data"]] in
         \<open>auto simp: write_loop.simps [of i data w] same_simps [OF s] set_inode_def intro: exI [of _ "length data"]\<close>)
  qed
qed

lemma fsync_touch:
  assumes "fsync i w = (r, w')"
  shows "touch i w w' \<and> inodes w' i = inodes w i \<and> (\<forall>x. r = Inr x \<longrightarrow> clean w' i)"
proof (cases rule: call_cases [of w "\<lambda>w. ((), w\<lparr>clean := (clean w)(i := True)\<rparr>)"])
  case (1 e w1)
  then show ?thesis using assms by (auto simp: fsync_def same_touch same_simps)
next
  case (2 w1)
  then show ?thesis using assms by (auto simp: fsync_def touch_def same_simps)
qed

lemma create_file_keeps:
  assumes "create_file p w = (i, w')" and "world_ok w"
  shows "names w' p = Some i \<and> inodes w' i = [] \<and> world_ok w'
    \<and> (\<forall>q. q \<noteq> p \<longrightarrow> not_named w' q i \<and> (durable w q D \<longrightarrow> durable w' q D))"
proof -
  have w': "i = fresh_ino w" "names w' = (names w)(p \<mapsto> i)" "pend w' = pend w @ [names w']" "inodes w' = (inodes w)(i := [])"
    "clean w' = (clean w)(i := False)" "fresh_ino w' = Suc i"
    using assms(1) by (auto simp: create_file_def set_names_def set_inode_def)
  have fr: "nm q \<noteq> Some i" if "nm \<in> set (pend w)" for nm q
    using assms(2) that w'(1) by (auto simp: world_ok_def)
  have nm: "names w \<in> set (pend w)" using assms(2) by (simp add: world_ok_def)
  have "not_named w' q i" if "q \<noteq> p" for q
    using fr fr [OF nm] that by (auto simp: not_named_def w'(2,3))
  moreover have "durable w' q D" if "q \<noteq> p" and st: "durable w q D" for q
  proof -
    have "\<exists>j. nm q = Some j \<and> clean w' j \<and> inodes w' j \<in> D" if "nm \<in> set (pend w)" for nm
      using st that fr [OF that, of q] by (auto simp: durable_def w'(4,5))
    with nm \<open>q \<noteq> p\<close> show ?thesis by (auto simp: durable_def w'(2,3))
  qed
  moreover have "world_ok w'"
    using assms(2) fr [OF nm] by (fastforce simp: world_ok_def w' less_Suc_eq)
  ultimately show ?thesis using w' by simp
qed

lemma open_trunc_cases:
  assumes "open_trunc p w = (r, w')"
  obtains e where "r = Inl e" "same w w'"
  | i where "r = Inr i" "names w p = Some i" "touch i w w'" "inodes w' i = []"
  | w1 i where "r = Inr i" "names w p = None" "same w w1" "create_file p w1 = (i, w')"
proof (cases rule: call_cases [of w "\<lambda>w. case names w p of Some i \<Rightarrow> (i, set_inode i [] w) | None \<Rightarrow> create_file p w"])
  case (1 e w1)
  then show ?thesis using assms that(1) [of e] by (simp add: open_trunc_def)
next
  case (2 w1)
  note s = same_simps [OF 2(2)]
  show ?thesis
  proof (cases "names w p")
    case None
    then show ?thesis using assms 2 s that(3) [of "fst (create_file p w1)" w1] by (auto simp: open_trunc_def prod_eq_iff)
  next
    case (Some i)
    then have "r = Inr i" "w' = set_inode i [] w1" using assms 2(1) s by (simp_all add: open_trunc_def)
    then show ?thesis
      using that(2) [OF _ Some] touch_trans [OF same_touch [OF 2(2)] touch_set_inode] by (simp add: set_inode_def)
  qed
qed

lemma open_trunc_named:
  assumes "open_trunc p w = (r, w')" and "world_ok w"
  shows "world_ok w' \<and> (\<forall>i. r = Inr i \<longrightarrow> names w' p = Some i \<and> inodes w' i = [])"
  using assms(1)
proof (cases rule: open_trunc_cases)
  case (2 i)
  then show ?thesis using assms(2) touch_ok [OF 2(3)] by (simp add: touch_def)
next
  case (3 w1 i)
  then show ?thesis using assms(2) create_file_keeps [OF 3(4)] same_pred [OF 3(3)] by simp
qed (use assms(2) in \<open>simp add: same_pred\<close>)

lemma open_trunc_keeps:
  assumes "open_trunc p w = (r, w')" and ok: "world_ok w"
    and nn: "\<And>i. names w p = Some i \<Longrightarrow> not_named w q i" and q: "q \<noteq> p" and st: "durable w q D"
  shows "durable w' q D \<and> (\<forall>i. r = Inr i \<longrightarrow> not_named w' q i)"
  using assms(1)
proof (cases rule: open_trunc_cases)
  case (2 i)
  then show ?thesis using touch_durable [OF 2(3) nn [OF 2(2)] st] touch_not_named [OF 2(3)] nn [OF 2(2)] by simp
next
  case (3 w1 i)
  then show ?thesis using create_file_keeps [OF 3(4), of D] ok st q same_pred [OF 3(3)] by simp
qed (use st in \<open>simp add: same_pred\<close>)

lemma SyncDir_keeps:
  assumes "SyncDir dir w = (s, w')" and ok: "world_ok w"
  shows "world_ok w' \<and> (durable w q D \<longrightarrow> durable w' q D) \<and> names w' = names w \<and> inodes w' = inodes w
    \<and> (ok s \<longrightarrow> ParentDir p = dir \<longrightarrow> names w p = Some i \<longrightarrow> clean w i \<longrightarrow> durable w' p {inodes w i})"
proof -
  let ?f = "\<lambda>nm p. if ParentDir p = dir then names w p else nm p"
  have sync: "world_ok v" "durable w q D \<longrightarrow> durable v q D"
    "ParentDir p = dir \<longrightarrow> names w p = Some i \<longrightarrow> clean w i \<longrightarrow> durable v p {inodes w i}"
    if "pend v = map ?f (pend w)" "names v = names w" "inodes v = inodes w" "clean v = clean w" "fresh_ino v = fresh_ino w" for v
  proof -
    have "names w \<in> set (pend w)" using ok by (simp add: world_ok_def)
    moreover have "?f (names w) = names w" by (rule ext) simp
    ultimately show "world_ok v" using ok that by (force simp: world_ok_def)
    show "durable w q D \<longrightarrow> durable v q D" using \<open>names w \<in> _\<close> that by (auto simp: durable_def)
    show "ParentDir p = dir \<longrightarrow> names w p = Some i \<longrightarrow> clean w i \<longrightarrow> durable v p {inodes w i}"
      using that by (auto simp: durable_def)
  qed
  show ?thesis
  proof (cases rule: call_cases [of w "\<lambda>w. ((), w)"])
    case (1 e w1)
    then show ?thesis using assms by (auto simp: SyncDir_def same_pred same_simps)
  next
    case 2: (2 w1)
    show ?thesis
    proof (cases rule: call_cases [of w1 "\<lambda>w. ((), sync_entries dir w)"])
      case (1 e w2)
      then show ?thesis using assms 2 by (auto simp: SyncDir_def same_pred same_simps)
    next
      case (2 w2)
      then have "s = Ok" "w' = sync_entries dir w2" using assms(1) \<open>call w _ = _\<close> by (simp_all add: SyncDir_def)
      then have "pend w' = map ?f (pend w)" "names w' = names w" "inodes w' = inodes w" "clean w' = clean w"
        "fresh_ino w' = fresh_ino w"
        using same_simps [OF \<open>same w w1\<close>] same_simps [OF \<open>same w1 w2\<close>] by (simp_all add: sync_entries_def cong: if_cong)
      with sync [OF this] show ?thesis by simp
    qed
  qed
qed

lemma SyncDir_files:
  assumes "SyncDir dir w = (s, w')"
  shows "names w' = names w" "inodes w' = inodes w"
proof -
  obtain r1 w1 where 1: "call w (\<lambda>w. ((), w)) = (r1, w1)" by (metis surj_pair)
  have s1: "same w w1" using 1 by (cases rule: call_cases [of w "\<lambda>w. ((), w)"]) auto
  obtain r2 w2 where 2: "call w1 (\<lambda>w. ((), sync_entries dir w)) = (r2, w2)" by (metis surj_pair)
  have "names w2 = names w1 \<and> inodes w2 = inodes w1"
    using 2 by (cases rule: call_cases [of w1 "\<lambda>w. ((), sync_entries dir w)"]) (auto simp: sync_entries_def same_simps)
  then show "names w' = names w" "inodes w' = inodes w"
    using assms 1 2 same_simps [OF s1] by (auto simp: SyncDir_def split: sum.splits)
qed

lemma open_trunc_fd:
  assumes "open_trunc p w = (Inr fd, w')"
  shows "names w' p = Some fd \<and> inodes w' fd = []"
  using assms
proof (cases rule: open_trunc_cases)
  case (2 i)
  then show ?thesis by (simp add: touch_def)
next
  case (3 w1 i)
  then show ?thesis by (auto simp: create_file_def set_names_def set_inode_def)
qed simp

lemma WriteFileDurable_content:
  assumes "WriteFileDurable p data w = (s, w')" and "ok s"
  shows "content w' p = Some data"
proof -
  obtain fd w1 where 1: "open_trunc p w = (Inr fd, w1)"
    using assms by (cases "open_trunc p w") (auto simp: WriteFileDurable_def split: sum.splits)
  obtain r2 w2 where 2: "write_loop fd data w1 = (r2, w2)" by (metis surj_pair)
  obtain r3 w3 where 3: "fsync fd w2 = (r3, w3)" by (metis surj_pair)
  have r: "r2 = None" and sd: "SyncDir (ParentDir p) w3 = (s, w')"
    using assms 1 2 3 by (auto simp: WriteFileDurable_def split: option.splits sum.splits)
  have "names w3 p = Some fd" "inodes w3 fd = data"
    using open_trunc_fd [OF 1] write_loop_touch [OF 2] fsync_touch [OF 3] r by (auto simp: touch_def)
  then show ?thesis using SyncDir_files [OF sd] by (simp add: content_def)
qed

lemma WriteFileDurable_ok:
  assumes "WriteFileDurable p data w = (s, w')" and "world_ok w"
  shows "world_ok w' \<and> (ok s \<longrightarrow> content w' p = Some data \<and> durable w' p {data})"
proof -
  obtain r1 w1 where 1: "open_trunc p w = (r1, w1)" by (cases "open_trunc p w")
  note o = open_trunc_named [OF 1 assms(2)]
  show ?thesis
  proof (cases r1)
    case (Inr fd)
    obtain r2 w2 where 2: "write_loop fd data w1 = (r2, w2)" by (cases "write_loop fd data w1")
    note t2 = write_loop_touch [OF 2]
    obtain r3 w3 where 3: "fsync fd w2 = (r3, w3)" by (cases "fsync fd w2")
    note t3 = fsync_touch [OF 3]
    have ok3: "world_ok w3" "world_ok w2" using t2 t3 o touch_ok by auto
    show ?thesis
    proof (cases "r2 = None \<and> (\<exists>x. r3 = Inr x)")
      case True
      then have sd: "SyncDir (ParentDir p) w3 = (s, w')" using assms(1) 1 2 3 Inr by (auto simp: WriteFileDurable_def)
      have "names w3 p = Some fd" "clean w3 fd" "inodes w3 fd = data"
        using o t2 t3 True Inr by (auto simp: touch_def)
      with SyncDir_keeps [OF sd ok3(1), where p = p and i = fd] show ?thesis by (auto simp: content_def)
    next
      case False
      then show ?thesis using assms(1) 1 2 3 Inr ok3
        by (auto simp: WriteFileDurable_def split: option.splits sum.splits)
    qed
  qed (use assms(1) 1 o in \<open>auto simp: WriteFileDurable_def\<close>)
qed

lemma WriteFileDurable_keeps:
  assumes "WriteFileDurable p data w = (s, w')" and "world_ok w"
    and "\<And>i. names w p = Some i \<Longrightarrow> not_named w q i" and "q \<noteq> p" and "durable w q D"
  shows "durable w' q D"
proof -
  obtain r1 w1 where 1: "open_trunc p w = (r1, w1)" by (cases "open_trunc p w")
  note o = open_trunc_keeps [OF 1 assms(2-5)] and ok1 = open_trunc_named [OF 1 assms(2)]
  show ?thesis
  proof (cases r1)
    case (Inr fd)
    obtain r2 w2 where 2: "write_loop fd data w1 = (r2, w2)" by (cases "write_loop fd data w1")
    note t2 = write_loop_touch [OF 2]
    obtain r3 w3 where 3: "fsync fd w2 = (r3, w3)" by (cases "fsync fd w2")
    note t3 = fsync_touch [OF 3]
    have st: "durable w2 q D" "durable w3 q D"
      using touch_durable [of fd w1 w2 q D] touch_durable [of fd w2 w3 q D] t2 t3 o Inr touch_not_named [of fd w1 w2 q fd]
      by auto
    moreover have "world_ok w3" using t2 t3 ok1 touch_ok by auto
    ultimately show ?thesis
      using assms(1) 1 2 3 Inr SyncDir_keeps [of "ParentDir p" w3 s w' q D]
      by (auto simp: WriteFileDurable_def split: option.splits sum.splits)
  qed (use assms(1) 1 o in \<open>auto simp: WriteFileDurable_def\<close>)
qed

lemma file_read_loop_out:
  "file_read_loop rest out w = (Inr d, w') \<Longrightarrow> d = out @ rest"
proof (induction rest out w arbitrary: d w' rule: file_read_loop.induct)
  case (1 rest out w)
  obtain a w1 where a: "ask w = (a, w1)" by (cases "ask w")
  show ?case
    by (cases a) (use "1.IH" [OF a [symmetric]] "1.prems" a in
      \<open>auto simp: file_read_loop.simps [of rest out w] Let_def split: if_splits\<close>)
qed

lemma file_read_loop_same: "file_read_loop rest out w = (r, w') \<Longrightarrow> same w w'"
proof (induction rest out w arbitrary: r w' rule: file_read_loop.induct)
  case (1 rest out w)
  obtain a w1 where a: "ask w = (a, w1)" by (cases "ask w")
  note s = ask_same [OF a] and t = same_trans [OF ask_same [OF a]]
  show ?case
    by (cases a) (use "1.IH" [OF a [symmetric]] "1.prems" a s t in
      \<open>auto simp: file_read_loop.simps [of rest out w] Let_def split: if_splits\<close>)
qed

lemma ReadFileToString_ok:
  assumes "ReadFileToString p w = (s, d, w')"
  shows "same w w' \<and> (ok s \<longrightarrow> content w p = Some d)"
proof (cases "names w p")
  case (Some i)
  show ?thesis
  proof (cases rule: call_cases [of w "\<lambda>w. ((), w)"])
    case (2 w1)
    obtain r w2 where r: "file_read_loop (inodes w1 i) [] w1 = (r, w2)" by (cases "file_read_loop (inodes w1 i) [] w1")
    have "same w w2" by (rule same_trans [OF 2(2) file_read_loop_same [OF r]])
    with file_read_loop_out [of "inodes w1 i" "[]" w1 _ w2] r 2 Some assms same_simps [OF 2(2)] show ?thesis
      by (cases r) (auto simp: ReadFileToString_def content_def)
  qed (use assms Some in \<open>auto simp: ReadFileToString_def\<close>)
qed (use assms in \<open>auto simp: ReadFileToString_def\<close>)

text \<open>A kernel that lets every call succeed, if only partly.\<close>

definition no_fail :: "World \<Rightarrow> bool" where
  "no_fail w \<longleftrightarrow> \<not> dead w \<and> list_all (\<lambda>a. case a of Done \<Rightarrow> True | Partial _ \<Rightarrow> True | _ \<Rightarrow> False) (sys w)"

lemma no_fail_ask:
  "no_fail w \<Longrightarrow> ask w = (a, w') \<Longrightarrow> no_fail w' \<and> (a = Done \<or> (\<exists>k. a = Partial k))"
  by (auto simp: no_fail_def ask_def split: list.splits ans.splits)

lemma no_fail_call:
  assumes "no_fail w"
  shows "\<exists>w1. no_fail w1 \<and> same w w1 \<and> call w f = (Inr (fst (f w1)), snd (f w1))"
proof -
  obtain a w' where a: "ask w = (a, w')" by (cases "ask w")
  from no_fail_ask [OF assms a] ask_same [OF a] a show ?thesis
    by (auto simp: call_def split: prod.splits)
qed

lemma no_fail_set_inode [simp]: "no_fail (set_inode i d w) = no_fail w"
  by (simp add: no_fail_def set_inode_def)

lemma no_fail_write_loop: "no_fail w \<Longrightarrow> write_loop i d w = (r, w') \<Longrightarrow> r = None \<and> no_fail w'"
proof (induction i d w arbitrary: r w' rule: write_loop.induct)
  case (1 i d w)
  obtain a w1 where a: "ask w = (a, w1)" by (cases "ask w")
  from no_fail_ask [OF "1.prems"(1) a] show ?case
    using "1.IH"(1) [OF _ a [symmetric], of _ r w'] "1.prems" a
    by (cases "d = []") (auto simp: write_loop.simps [of _ _ w])
qed

lemma no_fail_WriteFileDurable:
  assumes "no_fail w" and "WriteFileDurable p d w = (s, w')"
  shows "ok s" and "no_fail w'"
proof -
  obtain w1 fd where 1: "open_trunc p w = (Inr fd, w1)" "no_fail w1"
    using no_fail_call [OF assms(1), of "\<lambda>w. case names w p of Some i \<Rightarrow> (i, set_inode i [] w) | None \<Rightarrow> create_file p w"]
    by (auto simp: open_trunc_def create_file_def set_names_def no_fail_def set_inode_def split: option.splits)
  obtain w2 where 2: "write_loop fd d w1 = (None, w2)" "no_fail w2"
    using no_fail_write_loop [OF 1(2)] by (cases "write_loop fd d w1") auto
  obtain w3 where 3: "fsync fd w2 = (Inr (), w3)" "no_fail w3"
    using no_fail_call [OF 2(2), of "\<lambda>w. ((), w\<lparr>clean := (clean w)(fd := True)\<rparr>)"] by (auto simp: fsync_def no_fail_def)
  obtain w4 where 4: "call w3 (\<lambda>w. ((), w)) = (Inr (), w4)" "no_fail w4"
    using no_fail_call [OF 3(2), of "\<lambda>w. ((), w)"] by auto
  from no_fail_call [OF 4(2), of "\<lambda>w. ((), sync_entries (ParentDir p) w)"]
  show "ok s" "no_fail w'"
    using assms(2) 1 2 3 4 by (auto simp: WriteFileDurable_def SyncDir_def sync_entries_def no_fail_def)
qed

text \<open>
  C19: when \<^verbatim>\<open>WriteFileDurable\<close> reports success, any later power cut leaves the file with
  exactly the given bytes under its name; it does report success when no system call
  fails, however short the writes; and whether or not it succeeds, even when the power is
  cut in the middle of it, a file that was on stable storage before stays there.
\<close>

theorem write_file_durable:
  assumes "world_ok w" and "WriteFileDurable p data w = (s, w')"
  shows "(ok s \<longrightarrow> content w' p = Some data \<and> (\<forall>w''. crash w' w'' \<longrightarrow> content w'' p = Some data))
    \<and> (no_fail w \<longrightarrow> ok s)
    \<and> (\<forall>q d. q \<noteq> p \<longrightarrow> (\<forall>i. names w p = Some i \<longrightarrow> not_named w q i) \<longrightarrow> durable w q {d} \<longrightarrow>
         (\<forall>w''. crash w' w'' \<longrightarrow> content w'' q = Some d))"
  using WriteFileDurable_ok [OF assms(2,1)] durable_crash [of w'] WriteFileDurable_keeps [OF assms(2,1)]
    no_fail_WriteFileDurable(1) [OF _ assms(2)] by fast

definition empty_world :: "ans list \<Rightarrow> World" where
  "empty_world as = \<lparr>inodes = (\<lambda>_. []), clean = (\<lambda>_. True), names = (\<lambda>_. None), pend = [\<lambda>_. None],
     fresh_ino = 0, dead = False, sys = as\<rparr>"

lemma empty_world_ok: "world_ok (empty_world as)"
  by (simp add: world_ok_def empty_world_def)

theorem write_file_durable_witness:
  "case WriteFileDurable (str ''a'') [1, 2] (empty_world [Done, Partial 1]) of
     (s, w') \<Rightarrow> ok s \<and> content w' (str ''a'') = Some [1, 2]"
proof -
  obtain s w' where r: "WriteFileDurable (str ''a'') [1, 2] (empty_world [Done, Partial 1]) = (s, w')"
    by (cases "WriteFileDurable (str ''a'') [1, 2] (empty_world [Done, Partial 1])")
  have "no_fail (empty_world [Done, Partial 1])" by (simp add: no_fail_def empty_world_def)
  with write_file_durable [OF empty_world_ok r] show ?thesis unfolding r prod.case by blast
qed

end
