(* ===== verification/MemTable.thy ===== *)
theory MemTable
  imports Entries
begin

text \<open>
  The memtable (\<^verbatim>\<open>include/bedrockkv/memtable.h\<close>, \<^verbatim>\<open>src/memtable.cpp\<close>): entries
  \<open>[klen][user key][tag][value]\<close> in a skip list ordered by \<open>Comparator\<close>. An
  operation that searches the list is an option: \<open>None\<close> is a search that does not
  return. Shown: the comparator is the order of the decoded entries; \<^verbatim>\<open>Put\<close>,
  \<^verbatim>\<open>Delete\<close> and \<^verbatim>\<open>Get\<close> implement \<open>lookup_spec\<close>; iteration yields the sorted run;
  a history of writes with increasing sequence numbers is read back as of any
  sequence number.
\<close>

subsection \<open>The code\<close>

definition kLenPrefixSize :: nat where [const_defs]: "kLenPrefixSize = 4"
definition kTagSize :: nat where [const_defs]: "kTagSize = 8"
definition kMaxSeq :: u64 where "kMaxSeq = NOT 0"

record MemTable =
  mlist :: SkipList
  approximate_size :: nat

definition NewMemTable :: MemTable where
  "NewMemTable = \<lparr>mlist = NewSkipList, approximate_size = 0\<rparr>"

definition Comparator :: "bytes \<Rightarrow> bytes \<Rightarrow> bool" where
  "Comparator a b =
     (let alen = unat (GetFixed32 a); blen = unat (GetFixed32 b);
          ak = sub a kLenPrefixSize alen; bk = sub b kLenPrefixSize blen
      in if ak \<noteq> bk then ak < bk
         else GetFixed64 (drop (kLenPrefixSize + alen) a) > GetFixed64 (drop (kLenPrefixSize + blen) b))"

text \<open>The entry \<^verbatim>\<open>[klen][key][tag]\<close> that the three methods build, and a value after it.\<close>

definition mem_entry :: "bytes \<Rightarrow> u64 \<Rightarrow> bytes \<Rightarrow> bytes" where
  "mem_entry k tag v = PutFixed32 (of_nat (length k)) @ k @ PutFixed64 tag @ v"

definition MemTable_Put :: "nat list \<Rightarrow> u64 \<Rightarrow> bytes \<Rightarrow> bytes \<Rightarrow> MemTable \<Rightarrow> MemTable option" where
  "MemTable_Put coins seq k v mt =
     (case Insert Comparator coins (mem_entry k (make_tag seq kTypeValue) v) (mlist mt) of
        None \<Rightarrow> None
      | Some (_, sl) \<Rightarrow> Some (mt\<lparr>mlist := sl,
          approximate_size := approximate_size mt + length k + length v + kTagSize + kLenPrefixSize + 24\<rparr>))"

definition MemTable_Delete :: "nat list \<Rightarrow> u64 \<Rightarrow> bytes \<Rightarrow> MemTable \<Rightarrow> MemTable option" where
  "MemTable_Delete coins seq k mt =
     (case Insert Comparator coins (mem_entry k (make_tag seq kTypeDeletion) []) (mlist mt) of
        None \<Rightarrow> None
      | Some (_, sl) \<Rightarrow> Some (mt\<lparr>mlist := sl,
          approximate_size := approximate_size mt + length k + kTagSize + kLenPrefixSize + 24\<rparr>))"

datatype Lookup = kFound bytes | kDeleted | kMissing

definition target_tag :: "u64 \<Rightarrow> u64" where
  "target_tag max_seq = (if kMaxSeq \<le> max_seq then NOT 0 else push_bit 8 max_seq OR 0xff)"

definition MemTable_Get :: "MemTable \<Rightarrow> bytes \<Rightarrow> u64 \<Rightarrow> Lookup option" where
  "MemTable_Get mt k max_seq =
     (case iter_Seek Comparator (mlist mt) (mem_entry k (target_tag max_seq) []) of
        None \<Rightarrow> None
      | Some None \<Rightarrow> Some kMissing
      | Some (Some x) \<Rightarrow>
          let ik = key (nodes (mlist mt) ! x);
              klen = unat (GetFixed32 ik)
          in if klen \<noteq> length k \<or> sub ik kLenPrefixSize klen \<noteq> k then Some kMissing
             else
               let tag_offset = kLenPrefixSize + klen;
                   tag = GetFixed64 (drop tag_offset ik)
               in if tag_type tag = ucast kTypeValue then Some (kFound (drop (tag_offset + kTagSize) ik))
                  else Some kDeleted)"

definition Count :: "MemTable \<Rightarrow> nat" where
  "Count mt = size_of (mlist mt)"

text \<open>One round of \<^verbatim>\<open>ForEach\<close>: the arguments \<^verbatim>\<open>fn\<close> is called with; then the loop.\<close>

definition decode_entry :: "bytes \<Rightarrow> u64 \<times> u8 \<times> bytes \<times> bytes" where
  "decode_entry e =
     (let klen = unat (GetFixed32 e);
          tag = GetFixed64 (drop (kLenPrefixSize + klen) e)
      in (tag_seq tag, ucast (tag_type tag), sub e kLenPrefixSize klen,
          sub e (kLenPrefixSize + klen + kTagSize) (length e - kLenPrefixSize - klen - kTagSize)))"

partial_function (option) for_each_loop :: "SkipList \<Rightarrow> nat option \<Rightarrow> (u64 \<times> u8 \<times> bytes \<times> bytes) list option"
  where
  [code]: "for_each_loop sl it =
     (case it of
        None \<Rightarrow> Some []
      | Some x \<Rightarrow> Option.bind (for_each_loop sl (iter_Next sl x))
                    (\<lambda>rest. Some (decode_entry (key (nodes sl ! x)) # rest)))"

definition ForEach :: "MemTable \<Rightarrow> (u64 \<times> u8 \<times> bytes \<times> bytes) list option" where
  "ForEach mt = for_each_loop (mlist mt) (iter_SeekToFirst (mlist mt))"

subsection \<open>The iterator\<close>

record MemTableIterator =
  mit :: "nat option"
  key_buf :: bytes
  mvalue :: bytes
  mvalid :: bool

definition Decode :: "MemTable \<Rightarrow> MemTableIterator \<Rightarrow> MemTableIterator" where
  "Decode mt i =
     (case mit i of
        None \<Rightarrow> i\<lparr>mvalid := False\<rparr>
      | Some x \<Rightarrow>
          let entry = key (nodes (mlist mt) ! x);
              klen = unat (GetFixed32 entry);
              tag_off = kLenPrefixSize + klen;
              tag = GetFixed64 (drop tag_off entry)
          in i\<lparr>key_buf := sub entry kLenPrefixSize klen @ PutFixed64 tag,
               mvalue := sub entry (tag_off + kTagSize) (length entry - tag_off - kTagSize),
               mvalid := True\<rparr>)"

definition mi_SeekToFirst :: "MemTable \<Rightarrow> MemTableIterator \<Rightarrow> MemTableIterator" where
  "mi_SeekToFirst mt i = Decode mt (i\<lparr>mit := iter_SeekToFirst (mlist mt)\<rparr>)"

definition mi_Seek :: "MemTable \<Rightarrow> bytes \<Rightarrow> MemTableIterator \<Rightarrow> MemTableIterator option" where
  "mi_Seek mt target i =
     (let n = length target - 8;
          entry = PutFixed32 (of_nat n) @ take n target @ drop n target
      in map_option (\<lambda>x. Decode mt (i\<lparr>mit := x\<rparr>)) (iter_Seek Comparator (mlist mt) entry))"

definition mi_Next :: "MemTable \<Rightarrow> MemTableIterator \<Rightarrow> MemTableIterator" where
  "mi_Next mt i = Decode mt (i\<lparr>mit := iter_Next (mlist mt) (the (mit i))\<rparr>)"

subsection \<open>The comparator is the order of entries\<close>

definition decode_ikey :: "bytes \<Rightarrow> bytes \<times> u64" where
  "decode_ikey e =
     (sub e kLenPrefixSize (unat (GetFixed32 e)), GetFixed64 (drop (kLenPrefixSize + unat (GetFixed32 e)) e))"

lemma Comparator_key_lt: "Comparator a b = key_lt (decode_ikey a) (decode_ikey b)"
  by (auto simp: Comparator_def key_lt_def decode_ikey_def Let_def)

interpretation mem: byte_order Comparator
  by unfold_locales (auto simp: Comparator_key_lt dest: kl.lt_cotrans intro: kl.lt_trans simp: kl.lt_irrefl)

definition enc_entry :: "entry \<Rightarrow> bytes" where
  "enc_entry e = mem_entry (ukey e) (etag e) (evalue e)"

definition short_key :: "bytes \<Rightarrow> bool" where
  "short_key k \<longleftrightarrow> length k < 2 ^ 32"

lemma mem_entry_parts:
  assumes "short_key k"
  shows "unat (GetFixed32 (mem_entry k tag v)) = length k"
    and "sub (mem_entry k tag v) kLenPrefixSize (length k) = k"
    and "GetFixed64 (drop (kLenPrefixSize + length k) (mem_entry k tag v)) = tag"
    and "drop (kLenPrefixSize + length k + kTagSize) (mem_entry k tag v) = v"
    and "length (mem_entry k tag v) = kLenPrefixSize + length k + kTagSize + length v"
proof -
  have "unat (of_nat (length k) :: u32) = length k"
    using assms unfolding short_key_def by (rule unat_of_nat_u32)
  then show "unat (GetFixed32 (mem_entry k tag v)) = length k" by (simp add: mem_entry_def)
  have d: "drop kLenPrefixSize (mem_entry k tag v) = k @ PutFixed64 tag @ v"
    by (simp add: mem_entry_def kLenPrefixSize_def)
  then show "sub (mem_entry k tag v) kLenPrefixSize (length k) = k" by (simp add: sub_def)
  show "GetFixed64 (drop (kLenPrefixSize + length k) (mem_entry k tag v)) = tag"
    "drop (kLenPrefixSize + length k + kTagSize) (mem_entry k tag v) = v"
    by (simp_all add: mem_entry_def const_defs)
  show "length (mem_entry k tag v) = kLenPrefixSize + length k + kTagSize + length v"
    by (simp add: mem_entry_def const_defs)
qed

lemma decode_ikey_mem_entry [simp]: "short_key k \<Longrightarrow> decode_ikey (mem_entry k tag v) = (k, tag)"
  by (simp add: decode_ikey_def mem_entry_parts)

text \<open>The memtable holds the sorted run \<open>es\<close>.\<close>

definition holds_run :: "MemTable \<Rightarrow> entry list \<Rightarrow> bool" where
  "holds_run mt es \<longleftrightarrow>
     holds_keys Comparator (mlist mt) (map enc_entry es) \<and> (\<forall>e\<in>set es. short_key (ukey e))"

lemma Equal_ikey: "Equal Comparator a b \<longleftrightarrow> decode_ikey a = decode_ikey b"
  unfolding Equal_def Comparator_key_lt using key_lt_total kl.lt_irrefl by metis

lemma decode_ikey_enc [simp]: "short_key (ukey e) \<Longrightarrow> decode_ikey (enc_entry e) = ikey e"
  by (simp add: enc_entry_def)

lemma holds_keys_sorted: "byte_order lt \<Longrightarrow> holds_keys lt sl ks \<Longrightarrow> sorted_wrt lt ks"
  using byte_order.tower_keys_sorted by (auto simp: holds_keys_def)

lemma holds_run_sorted:
  assumes "holds_run mt es"
  shows "sorted_run es"
proof -
  have "sorted_wrt Comparator (map enc_entry es)" and s: "\<forall>e\<in>set es. short_key (ukey e)"
    using assms holds_keys_sorted [OF mem.byte_order_axioms] by (auto simp: holds_run_def)
  then have "sorted_wrt (\<lambda>a b. Comparator (enc_entry a) (enc_entry b)) es" by (simp add: sorted_wrt_map)
  then show ?thesis unfolding sorted_run_def
    by (rule sorted_wrt_mono_rel [rotated]) (use s in \<open>simp add: Comparator_key_lt\<close>)
qed

lemma holds_run_New: "holds_run NewMemTable []"
  by (simp add: holds_run_def NewMemTable_def holds_keys_New)

definition insert_entry :: "entry \<Rightarrow> entry list \<Rightarrow> entry list" where
  "insert_entry e es =
     takeWhile (\<lambda>x. key_lt (ikey x) (ikey e)) es @ e # dropWhile (\<lambda>x. key_lt (ikey x) (ikey e)) es"

lemma set_insert_entry [simp]: "set (insert_entry e es) = insert e (set es)"
proof -
  have "set es = set (takeWhile (\<lambda>x. key_lt (ikey x) (ikey e)) es) \<union> set (dropWhile (\<lambda>x. key_lt (ikey x) (ikey e)) es)"
    by (metis set_append takeWhile_dropWhile_id)
  then show ?thesis by (auto simp: insert_entry_def)
qed

lemma insert_key_enc:
  assumes "\<forall>x\<in>set es. short_key (ukey x)" and "short_key (ukey e)"
  shows "insert_key Comparator (enc_entry e) (map enc_entry es) = map enc_entry (insert_entry e es)"
proof -
  have c: "Comparator (enc_entry x) (enc_entry e) = key_lt (ikey x) (ikey e)" if "x \<in> set es" for x
    using that assms by (simp add: Comparator_key_lt)
  have "takeWhile (\<lambda>x. Comparator (enc_entry x) (enc_entry e)) es = takeWhile (\<lambda>x. key_lt (ikey x) (ikey e)) es"
    "dropWhile (\<lambda>x. Comparator (enc_entry x) (enc_entry e)) es = dropWhile (\<lambda>x. key_lt (ikey x) (ikey e)) es"
    by (auto intro!: takeWhile_cong dropWhile_cong simp: c)
  then show ?thesis
    by (simp add: insert_key_def insert_entry_def takeWhile_map dropWhile_map comp_def)
qed

text \<open>An insertion, and the whole state after it.\<close>

definition add_entry :: "entry \<Rightarrow> entry list \<Rightarrow> entry list" where
  "add_entry e es = (if \<exists>x\<in>set es. ikey x = ikey e then es else insert_entry e es)"

lemma Insert_run:
  assumes "holds_run mt es" and "short_key (ukey e)"
  shows "\<exists>b sl. Insert Comparator coins (enc_entry e) (mlist mt) = Some (b, sl)
     \<and> holds_keys Comparator sl (map enc_entry (add_entry e es))"
proof -
  have h: "holds_keys Comparator (mlist mt) (map enc_entry es)" and s: "\<forall>x\<in>set es. short_key (ukey x)"
    using assms(1) by (auto simp: holds_run_def)
  have eq: "(\<exists>x\<in>set (map enc_entry es). Equal Comparator x (enc_entry e)) \<longleftrightarrow> (\<exists>x\<in>set es. ikey x = ikey e)"
    using s assms(2) by (auto simp: Equal_ikey)
  let ?dup = "\<exists>x\<in>set es. ikey x = ikey e"
  from mem.Insert_keys [OF h, of coins "enc_entry e"] obtain b sl where
    "Insert Comparator coins (enc_entry e) (mlist mt) = Some (b, sl)" "b = (\<not> ?dup)"
    "holds_keys Comparator sl (if b then insert_key Comparator (enc_entry e) (map enc_entry es) else map enc_entry es)"
    unfolding eq by blast
  moreover from this(2,3) have "holds_keys Comparator sl (map enc_entry (add_entry e es))"
    unfolding add_entry_def insert_key_enc [OF s assms(2)] by (cases ?dup) (simp_all only: if_True if_False not_True_eq_False not_False_eq_True)
  ultimately show ?thesis by blast
qed

lemma holds_run_add:
  assumes "holds_run mt es" and "short_key (ukey e)" and "holds_keys Comparator sl (map enc_entry (add_entry e es))"
  shows "holds_run (mt\<lparr>mlist := sl, approximate_size := n\<rparr>) (add_entry e es)"
  using assms by (auto simp: holds_run_def add_entry_def)

lemma MemTable_Put_run:
  assumes "holds_run mt es" and "short_key k"
  shows "\<exists>mt'. MemTable_Put coins seq k v mt = Some mt' \<and> holds_run mt' (add_entry (k, make_tag seq kTypeValue, v) es)"
  using Insert_run [OF assms(1), of "(k, make_tag seq kTypeValue, v)" coins] assms
    holds_run_add [OF assms(1), of "(k, make_tag seq kTypeValue, v)"]
  by (auto simp: MemTable_Put_def enc_entry_def)

lemma MemTable_Delete_run:
  assumes "holds_run mt es" and "short_key k"
  shows "\<exists>mt'. MemTable_Delete coins seq k mt = Some mt' \<and> holds_run mt' (add_entry (k, make_tag seq kTypeDeletion, []) es)"
  using Insert_run [OF assms(1), of "(k, make_tag seq kTypeDeletion, [])" coins] assms
    holds_run_add [OF assms(1), of "(k, make_tag seq kTypeDeletion, [])"]
  by (auto simp: MemTable_Delete_def enc_entry_def)

text \<open>What \<^verbatim>\<open>Get\<close> makes of the entry it lands on.\<close>

definition lookup_of :: "entry option \<Rightarrow> Lookup" where
  "lookup_of r = (case r of
      None \<Rightarrow> kMissing
    | Some e \<Rightarrow> if tag_type (etag e) = ucast kTypeValue then kFound (evalue e) else kDeleted)"

lemma MemTable_Get_run:
  assumes "holds_run mt es" and "short_key k"
  shows "MemTable_Get mt k max_seq = Some (lookup_of (lookup_spec es k (target_tag max_seq)))"
proof -
  let ?T = "target_tag max_seq" and ?sl = "mlist mt"
  have h: "holds_keys Comparator ?sl (map enc_entry es)" and s: "\<forall>x\<in>set es. short_key (ukey x)"
    using assms(1) by (auto simp: holds_run_def)
  obtain r where r: "iter_Seek Comparator ?sl (mem_entry k ?T []) = Some r"
    "map_option (\<lambda>x. key (nodes ?sl ! x)) r = find (\<lambda>y. \<not> Comparator y (mem_entry k ?T [])) (map enc_entry es)"
    using mem.Seek_keys [OF h] by blast
  have "find (\<lambda>y. \<not> Comparator y (mem_entry k ?T [])) (map enc_entry es) =
      map_option enc_entry (find (\<lambda>e. \<not> key_lt (ikey e) (k, ?T)) es)"
  proof -
    have "find (\<lambda>e. \<not> Comparator (enc_entry e) (mem_entry k ?T [])) es = find (\<lambda>e. \<not> key_lt (ikey e) (k, ?T)) es"
      using s assms(2) by (intro find_cong refl) (simp add: Comparator_key_lt)
    then show ?thesis by (simp add: find_map_key [of enc_entry "\<lambda>y. \<not> Comparator y (mem_entry k ?T [])", symmetric])
  qed
  with r(2) have r2: "map_option (\<lambda>x. key (nodes ?sl ! x)) r = map_option enc_entry (find (\<lambda>e. \<not> key_lt (ikey e) (k, ?T)) es)"
    by simp
  show ?thesis
  proof (cases "find (\<lambda>e. \<not> key_lt (ikey e) (k, ?T)) es")
    case None
    with r2 r(1) show ?thesis
      unfolding seek_lookup [OF holds_run_sorted [OF assms(1)]] by (simp add: MemTable_Get_def lookup_of_def)
  next
    case (Some e)
    with r2 obtain x where x: "r = Some x" "key (nodes ?sl ! x) = enc_entry e" by (cases r) auto
    have "e \<in> set es" using Some by (auto simp: find_Some_iff)
    then have k: "short_key (ukey e)" using s by blast
    note parts = mem_entry_parts [OF k, of "etag e" "evalue e", folded enc_entry_def]
    have miss: "(length (ukey e) \<noteq> length k \<or> sub (enc_entry e) kLenPrefixSize (length (ukey e)) \<noteq> k) = (ukey e \<noteq> k)"
      unfolding parts by auto
    have "MemTable_Get mt k max_seq = (if ukey e \<noteq> k then Some kMissing
        else if tag_type (etag e) = ucast kTypeValue then Some (kFound (evalue e)) else Some kDeleted)"
      unfolding MemTable_Get_def Let_def r(1) x option.case parts(1) miss parts(3,4) ..
    then show ?thesis
      unfolding seek_lookup [OF holds_run_sorted [OF assms(1)]] Some by (simp add: lookup_of_def)
  qed
qed

subsection \<open>Iteration\<close>

lemma for_each_chain:
  "chain (nodes sl) 0 x ys \<Longrightarrow>
     for_each_loop sl (Next (nodes sl) x 0) = Some (map (\<lambda>y. decode_entry (key (nodes sl ! y))) ys)"
proof (induction ys arbitrary: x)
  case Nil
  then show ?case by (subst for_each_loop.simps) simp
next
  case (Cons y ys)
  then have "Next (nodes sl) x 0 = Some y" by simp
  with Cons show ?case by (subst for_each_loop.simps) (simp add: iter_Next_def)
qed

definition entry_args :: "entry \<Rightarrow> u64 \<times> u8 \<times> bytes \<times> bytes" where
  "entry_args e = (tag_seq (etag e), ucast (tag_type (etag e)), ukey e, evalue e)"

lemma decode_entry_enc: "short_key (ukey e) \<Longrightarrow> decode_entry (enc_entry e) = entry_args e"
  using mem_entry_parts [of "ukey e" "etag e" "evalue e"]
  by (simp add: decode_entry_def enc_entry_def entry_args_def Let_def sub_def)

lemma ForEach_run:
  assumes "holds_run mt es"
  shows "ForEach mt = Some (map entry_args es)"
proof -
  obtain P where t: "tower Comparator (nodes (mlist mt)) P"
    and m: "map (\<lambda>x. key (nodes (mlist mt) ! x)) (P 0) = map enc_entry es"
    and s: "\<forall>e\<in>set es. short_key (ukey e)"
    using assms by (auto simp: holds_run_def holds_keys_def)
  have "chain (nodes (mlist mt)) 0 0 (P 0)" using tower_levels(1) [OF t] by (simp add: kMaxLevel_def)
  then have "ForEach mt = Some (map decode_entry (map (\<lambda>x. key (nodes (mlist mt) ! x)) (P 0)))"
    unfolding ForEach_def iter_SeekToFirst_def by (simp add: for_each_chain comp_def)
  then show ?thesis unfolding m using s by (simp add: decode_entry_enc)
qed

subsection \<open>Histories\<close>

text \<open>A write as the DB issues it, and a sequence of them with their coin flips.\<close>

datatype wop = WPut bytes bytes | WDel bytes

fun wkey :: "wop \<Rightarrow> bytes" where
  "wkey (WPut k v) = k"
| "wkey (WDel k) = k"

fun wentry :: "u64 \<Rightarrow> wop \<Rightarrow> entry" where
  "wentry seq (WPut k v) = (k, make_tag seq kTypeValue, v)"
| "wentry seq (WDel k) = (k, make_tag seq kTypeDeletion, [])"

fun write_op :: "nat list \<Rightarrow> u64 \<Rightarrow> wop \<Rightarrow> MemTable \<Rightarrow> MemTable option" where
  "write_op coins seq (WPut k v) mt = MemTable_Put coins seq k v mt"
| "write_op coins seq (WDel k) mt = MemTable_Delete coins seq k mt"

fun run_writes :: "(nat list \<times> u64 \<times> wop) list \<Rightarrow> MemTable \<Rightarrow> MemTable option" where
  "run_writes [] mt = Some mt"
| "run_writes ((coins, seq, w) # ws) mt =
     (case write_op coins seq w mt of None \<Rightarrow> None | Some mt' \<Rightarrow> run_writes ws mt')"

text \<open>What a read as of \<open>mx\<close> should see: the last write of the key not after \<open>mx\<close>.\<close>

definition history_get :: "(u64 \<times> wop) list \<Rightarrow> bytes \<Rightarrow> u64 \<Rightarrow> Lookup" where
  "history_get ws k mx =
     (case rev (filter (\<lambda>(seq, w). wkey w = k \<and> seq \<le> mx) ws) of
        [] \<Rightarrow> kMissing
      | (_, WPut _ v) # _ \<Rightarrow> kFound v
      | (_, WDel _) # _ \<Rightarrow> kDeleted)"

definition readable_seq :: "u64 \<Rightarrow> bool" where
  "readable_seq mx \<longleftrightarrow> mx < 2 ^ 56 \<or> mx = kMaxSeq"

lemma target_tag_le:
  assumes "seq < 2 ^ 56" and "readable_seq mx"
  shows "make_tag seq t \<le> target_tag mx \<longleftrightarrow> seq \<le> mx"
proof (cases "kMaxSeq \<le> mx")
  case True
  then have "mx = kMaxSeq" "target_tag mx = NOT 0"
    by (simp_all add: kMaxSeq_def target_tag_def word_order.extremum_unique)
  then show ?thesis by (simp add: kMaxSeq_def)
next
  case False
  then have "mx < 2 ^ 56" "target_tag mx = make_tag mx 0xff"
    using assms(2) by (auto simp: readable_seq_def target_tag_def make_tag_def)
  with assms(1) show ?thesis by (simp add: make_tag_le_iff)
qed

lemma wentry_tag: "etag (wentry seq w) = make_tag seq (case w of WPut _ _ \<Rightarrow> kTypeValue | WDel _ \<Rightarrow> kTypeDeletion)"
  by (cases w) auto

lemma wentry_key [simp]: "ukey (wentry seq w) = wkey w"
  by (cases w) auto

lemma wentry_tag_less: "a < 2 ^ 56 \<Longrightarrow> b < 2 ^ 56 \<Longrightarrow> a < b \<Longrightarrow> etag (wentry a v) < etag (wentry b w)"
  unfolding wentry_tag by (rule make_tag_less)

lemma lookup_of_wentry: "lookup_of (Some (wentry seq w)) = (case w of WPut _ v \<Rightarrow> kFound v | WDel _ \<Rightarrow> kDeleted)"
  by (cases w) (simp_all add: lookup_of_def kTypeValue_def kTypeDeletion_def)

lemma write_op_run:
  assumes "holds_run mt es" and "short_key (wkey w)"
  shows "\<exists>mt'. write_op coins seq w mt = Some mt' \<and> holds_run mt' (add_entry (wentry seq w) es)"
  using MemTable_Put_run [OF assms(1)] MemTable_Delete_run [OF assms(1)] assms(2) by (cases w) auto

text \<open>The entries of a memtable are exactly the writes it took.\<close>

lemma run_writes_entries:
  assumes "holds_run mt es" and "\<forall>(c, seq, w)\<in>set ws. short_key (wkey w) \<and> seq < 2 ^ 56"
    and "sorted_wrt (<) (map (\<lambda>(c, seq, w). seq) ws)"
    and "\<forall>e\<in>set es. \<forall>(c, seq, w)\<in>set ws. etag e < etag (wentry seq w)"
  shows "\<exists>mt' es'. run_writes ws mt = Some mt' \<and> holds_run mt' es'
     \<and> set es' = set es \<union> (\<lambda>(c, seq, w). wentry seq w) ` set ws"
  using assms
proof (induction ws arbitrary: mt es)
  case (Cons x ws)
  obtain c seq w where x: "x = (c, seq, w)" by (metis prod_cases3)
  have "short_key (wkey w)" using Cons.prems(2) x by auto
  with write_op_run [OF Cons.prems(1)] obtain mt1 where
    w1: "write_op c seq w mt = Some mt1" "holds_run mt1 (add_entry (wentry seq w) es)" by blast
  have "add_entry (wentry seq w) es = insert_entry (wentry seq w) es"
    using Cons.prems(4) x by (force simp: add_entry_def)
  then have set1: "set (add_entry (wentry seq w) es) = insert (wentry seq w) (set es)" by simp
  have "etag e < etag (wentry seq' w')" if "e \<in> insert (wentry seq w) (set es)" "(c', seq', w') \<in> set ws" for e c' seq' w'
  proof (cases "e = wentry seq w")
    case True
    have "seq < seq'" "seq < 2 ^ 56" "seq' < 2 ^ 56" using Cons.prems(2,3) that(2) x by auto
    with True show ?thesis by (simp add: wentry_tag_less)
  next
    case False
    with that Cons.prems(4) show ?thesis by force
  qed
  then have "\<forall>e\<in>set (add_entry (wentry seq w) es). \<forall>(c, seq, w)\<in>set ws. etag e < etag (wentry seq w)"
    unfolding set1 by blast
  from Cons.IH [OF w1(2) _ _ this] Cons.prems(2,3) x w1(1) set1 show ?case by auto
qed auto

lemma lookup_history:
  assumes "sorted_run es" and es: "set es = (\<lambda>(seq, w). wentry seq w) ` set ws"
    and small: "\<forall>(seq, w)\<in>set ws. seq < 2 ^ 56" and inc: "sorted_wrt (<) (map fst ws)" and mx: "readable_seq mx"
  shows "lookup_of (lookup_spec es k (target_tag mx)) = history_get ws k mx"
proof -
  let ?p = "\<lambda>(seq, w). wkey w = k \<and> seq \<le> mx"
  have vis: "etag (wentry seq w) \<le> target_tag mx \<longleftrightarrow> seq \<le> mx" if "(seq, w) \<in> set ws" for seq w
    unfolding wentry_tag using that small mx by (intro target_tag_le) auto
  show ?thesis
  proof (cases "rev (filter ?p ws)")
    case Nil
    then have none: "\<not> (wkey w = k \<and> seq \<le> mx)" if "(seq, w) \<in> set ws" for seq w
      using that by (auto simp: filter_empty_conv)
    have "lookup_spec es k (target_tag mx) = None"
      unfolding lookup_spec_None es using none vis by auto
    with Nil show ?thesis by (simp add: history_get_def lookup_of_def)
  next
    case (Cons sw rest)
    obtain seq w where sw: "sw = (seq, w)" by (cases sw)
    from Cons have f: "filter ?p ws = rev rest @ [(seq, w)]" using sw by (simp add: rev_eq_Cons_iff)
    then have "(seq, w) \<in> set (filter ?p ws)" by simp
    then have mem: "(seq, w) \<in> set ws" "wkey w = k" "seq \<le> mx" by auto
    have "sorted_wrt (<) (map fst (filter ?p ws))"
      using inc by (simp add: sorted_wrt_map sorted_wrt_filter)
    then have last: "seq' < seq" if "(seq', w') \<in> set rest" for seq' w'
      using that unfolding f by (force simp: sorted_wrt_append)
    have "etag x \<le> etag (wentry seq w)" if "x \<in> set es" "ukey x = k" "etag x \<le> target_tag mx" for x
    proof -
      from that(1) es obtain seq' w' where x: "x = wentry seq' w'" "(seq', w') \<in> set ws" by auto
      with that vis have "(seq', w') \<in> set (filter ?p ws)" by simp
      then consider "(seq', w') = (seq, w)" | "(seq', w') \<in> set rest" unfolding f by auto
      then show ?thesis
      proof cases
        case 2
        then have "etag (wentry seq' w') < etag (wentry seq w)"
          using last small mem x by (intro wentry_tag_less) auto
        with x show ?thesis by simp
      qed (use x in simp)
    qed
    moreover have "wentry seq w \<in> set es" using es mem(1) by force
    ultimately have "lookup_spec es k (target_tag mx) = Some (wentry seq w)"
      unfolding lookup_spec_Some [OF assms(1)] using mem vis by auto
    with Cons sw show ?thesis by (simp add: lookup_of_wentry history_get_def split: wop.split)
  qed
qed

subsection \<open>Properties\<close>

text \<open>
  C7: writes with increasing sequence numbers, taken by an empty memtable with any
  coin flips, all return, and \<^verbatim>\<open>Get\<close> as of any sequence number returns the last
  write of the key not after it: its value, a tombstone, or nothing.
\<close>

theorem memtable_history:
  assumes "\<forall>(c, seq, w)\<in>set ws. short_key (wkey w) \<and> seq < 2 ^ 56"
    and "sorted_wrt (<) (map (\<lambda>(c, seq, w). seq) ws)" and "readable_seq mx" and "short_key k"
  shows "\<exists>mt. run_writes ws NewMemTable = Some mt \<and>
     MemTable_Get mt k mx = Some (history_get (map snd ws) k mx)"
proof -
  from run_writes_entries [OF holds_run_New assms(1,2)] obtain mt es where
    mt: "run_writes ws NewMemTable = Some mt" "holds_run mt es"
    "set es = (\<lambda>(c, seq, w). wentry seq w) ` set ws" by auto
  have "lookup_of (lookup_spec es k (target_tag mx)) = history_get (map snd ws) k mx"
  proof (rule lookup_history [OF holds_run_sorted [OF mt(2)] _ _ _ assms(3)])
    show "set es = (\<lambda>(seq, w). wentry seq w) ` set (map snd ws)" using mt(3) by (force simp: image_image)
    show "\<forall>(seq, w)\<in>set (map snd ws). seq < 2 ^ 56" using assms(1) by auto
    show "sorted_wrt (<) (map fst (map snd ws))" using assms(2) by (simp add: comp_def case_prod_unfold)
  qed
  with mt MemTable_Get_run [OF mt(2) assms(4)] show ?thesis by auto
qed

theorem memtable_history_witness:
  "\<exists>mt. run_writes [([0, 1], 5, WPut [1] [9]), ([], 6, WDel [1])] NewMemTable = Some mt \<and>
     MemTable_Get mt [1] 5 = Some (history_get (map snd [([0, 1 :: nat], 5, WPut [1] [9]), ([], 6, WDel [1])]) [1] 5)"
  by (rule memtable_history) (simp_all add: short_key_def readable_seq_def)

text \<open>
  C10: \<^verbatim>\<open>ForEach\<close> on a memtable that took such writes returns and calls its
  argument with exactly the written entries, each once, user keys ascending and
  versions of one key newest first: the order a table file needs.
\<close>

theorem memtable_for_each:
  assumes "\<forall>(c, seq, w)\<in>set ws. short_key (wkey w) \<and> seq < 2 ^ 56"
    and "sorted_wrt (<) (map (\<lambda>(c, seq, w). seq) ws)"
  shows "\<exists>mt es. run_writes ws NewMemTable = Some mt \<and> ForEach mt = Some (map entry_args es) \<and>
     sorted_run es \<and> distinct es \<and> set es = (\<lambda>(c, seq, w). wentry seq w) ` set ws"
proof -
  from run_writes_entries [OF holds_run_New assms] obtain mt es where
    mt: "run_writes ws NewMemTable = Some mt" "holds_run mt es"
    "set es = (\<lambda>(c, seq, w). wentry seq w) ` set ws" by auto
  have "distinct es"
    using holds_run_sorted [OF mt(2)] kl.sorted_distinct [of ikey] unfolding sorted_run_def by blast
  with mt ForEach_run [OF mt(2)] holds_run_sorted [OF mt(2)] show ?thesis by blast
qed

theorem memtable_for_each_witness:
  "\<exists>mt es. run_writes [([0], 5, WPut [1] [9])] NewMemTable = Some mt \<and> ForEach mt = Some (map entry_args es) \<and>
     sorted_run es \<and> distinct es \<and>
     set es = (\<lambda>(c, seq, w). wentry seq w) ` set [([0 :: nat], 5, WPut [1] [9])]"
  by (rule memtable_for_each) (simp_all add: short_key_def)

end
