(* ===== verification/SSTable.thy ===== *)
theory SSTable
  imports BlockCorrect Bloom StdAlgo Fs MemTable
begin

text \<open>
  Sorted string tables (\<^verbatim>\<open>include/bedrockkv/sstable.h\<close>, \<^verbatim>\<open>src/sstable.cpp\<close>): the builder
  that cuts a run of entries into data blocks with a Bloom filter each, the file image
  with its footer, opening and validating a file, the point lookup and the iterator.
\<close>

definition kMagic :: bytes where "kMagic = str ''BRKVSST1''"
definition kFooterSize :: nat where [const_defs]: "kFooterSize = 44"

definition EncodeInternalKey :: "bytes \<Rightarrow> u64 \<Rightarrow> u8 \<Rightarrow> bytes" where
  "EncodeInternalKey user_key seq type = user_key @ PutFixed64 (make_tag seq type)"

definition UserKeyOf :: "bytes \<Rightarrow> bytes" where
  "UserKeyOf ik = (if kTagSize \<le> length ik then sub ik 0 (length ik - kTagSize) else ik)"

record TableOptions =
  block_size :: nat
  opt_restart_interval :: nat
  bloom_bits_per_key :: nat

record FileMeta =
  file_number :: u64
  flevel :: u32
  smallest_seq :: u64
  largest_seq :: u64
  entry_count :: u64
  file_size :: u64
  smallest_key :: bytes
  largest_key :: bytes

definition NewFileMeta :: FileMeta where
  "NewFileMeta = \<lparr>file_number = 0, flevel = 0, smallest_seq = 0, largest_seq = 0, entry_count = 0, file_size = 0,
     smallest_key = [], largest_key = []\<rparr>"

subsection \<open>Builder\<close>

record Builder =
  options :: TableOptions
  data_block :: BlockBuilder
  index_block :: BlockBuilder
  block_user_keys :: "bytes list"
  filters :: bytes
  filter_offsets :: "u32 list"
  sfile :: bytes
  scrc :: u32
  last_internal_key :: bytes
  has_last_key :: bool
  num_entries :: u64
  b_smallest_seq :: u64
  b_largest_seq :: u64
  smallest_user_key :: bytes
  largest_user_key :: bytes

definition NewBuilder :: "TableOptions \<Rightarrow> Builder" where
  "NewBuilder opts =
     \<lparr>options = opts, data_block = NewBlockBuilder (opt_restart_interval opts),
      index_block = NewBlockBuilder (opt_restart_interval opts), block_user_keys = [], filters = [],
      filter_offsets = [], sfile = [], scrc = 0, last_internal_key = [], has_last_key = False,
      num_entries = 0, b_smallest_seq = 0, b_largest_seq = 0, smallest_user_key = [], largest_user_key = []\<rparr>"

definition ApproximateFileSize :: "Builder \<Rightarrow> nat" where
  "ApproximateFileSize b = length (sfile b) + CurrentSizeEstimate (data_block b)"

definition block_handle :: "nat \<Rightarrow> nat \<Rightarrow> bytes" where
  "block_handle offset sz = PutFixed64 (of_nat offset) @ PutFixed32 (of_nat sz)"

definition FlushDataBlock :: "Builder \<Rightarrow> Builder" where
  "FlushDataBlock b =
     (if builder_empty (data_block b) then b
      else
        let (block, db) = BlockBuilder_Finish (data_block b);
            offset = length (sfile b)
        in b\<lparr>scrc := Crc32 block (scrc b),
             sfile := sfile b @ block,
             filter_offsets := filter_offsets b @ [of_nat (length (filters b))],
             filters := filters b @ BuildFilter (block_user_keys b) (bloom_bits_per_key (options b)),
             block_user_keys := [],
             index_block := BlockBuilder_Add (last_internal_key b) (block_handle offset (length block)) (index_block b),
             data_block := BlockBuilder_Reset db\<rparr>)"

definition Builder_Add :: "bytes \<Rightarrow> u64 \<Rightarrow> u8 \<Rightarrow> bytes \<Rightarrow> Builder \<Rightarrow> Status \<times> Builder" where
  "Builder_Add user_key seq type val b =
     (let ik = EncodeInternalKey user_key seq type
      in if has_last_key b \<and> \<not> InternalKeyComparator (last_internal_key b) ik
         then (InvalidArgument (str ''sstable entries must be strictly increasing''), b)
         else
           let b1 = (if has_last_key b then b
                     else b\<lparr>smallest_user_key := user_key, b_smallest_seq := seq, b_largest_seq := seq\<rparr>);
               b2 = b1\<lparr>b_smallest_seq := min (b_smallest_seq b1) seq,
                       b_largest_seq := max (b_largest_seq b1) seq,
                       largest_user_key := user_key, last_internal_key := ik, has_last_key := True,
                       data_block := BlockBuilder_Add ik val (data_block b1),
                       block_user_keys := block_user_keys b1 @ [user_key],
                       num_entries := num_entries b1 + 1\<rparr>
           in (Ok, if block_size (options b2) \<le> CurrentSizeEstimate (data_block b2)
                   then FlushDataBlock b2 else b2))"

text \<open>The filter block: filters, offset array, start of the array.\<close>

definition filter_image :: "Builder \<Rightarrow> bytes" where
  "filter_image b = filters b @ concat (map PutFixed32 (filter_offsets b)) @ PutFixed32 (of_nat (length (filters b)))"

definition footer :: "nat \<Rightarrow> nat \<Rightarrow> nat \<Rightarrow> nat \<Rightarrow> u64 \<Rightarrow> u32 \<Rightarrow> bytes" where
  "footer filter_offset filter_size index_offset index_size n crc =
     PutFixed64 (of_nat filter_offset) @ PutFixed32 (of_nat filter_size) @
     PutFixed64 (of_nat index_offset) @ PutFixed32 (of_nat index_size) @
     PutFixed64 n @ PutFixed32 crc @ kMagic"

text \<open>Everything of \<^verbatim>\<open>Builder::Finish\<close> before the file is written.\<close>

definition Finish_image :: "Builder \<Rightarrow> Builder" where
  "Finish_image b0 =
     (let b = FlushDataBlock b0;
          filter_block = filter_image b;
          filter_offset = length (sfile b);
          crc1 = Crc32 filter_block (scrc b);
          file1 = sfile b @ filter_block;
          (index, ib) = BlockBuilder_Finish (index_block b);
          index_offset = length file1;
          crc2 = Crc32 index crc1;
          file2 = file1 @ index
      in b\<lparr>scrc := crc2, index_block := ib,
           sfile := file2 @ footer filter_offset (length filter_block) index_offset (length index) (num_entries b) crc2\<rparr>)"

definition fill_meta :: "Builder \<Rightarrow> FileMeta \<Rightarrow> FileMeta" where
  "fill_meta b mt = mt\<lparr>smallest_seq := b_smallest_seq b, largest_seq := b_largest_seq b,
     entry_count := num_entries b, file_size := of_nat (length (sfile b)),
     smallest_key := smallest_user_key b, largest_key := largest_user_key b\<rparr>"

definition Builder_Finish :: "path \<Rightarrow> FileMeta \<Rightarrow> Builder \<Rightarrow> World \<Rightarrow> Status \<times> FileMeta \<times> Builder \<times> World" where
  "Builder_Finish p mt b0 w =
     (let b = Finish_image b0;
          mt' = fill_meta b mt;
          (s, w') = WriteFileDurable p (sfile b) w
      in (s, mt', b, w'))"

subsection \<open>Table\<close>

record IndexEntry =
  ie_key :: bytes
  ie_offset :: u64
  ie_size :: u32

record Table =
  t_file_number :: u64
  file_data :: bytes
  index :: "IndexEntry list"
  filter_block :: bytes
  t_smallest_user_key :: bytes
  t_largest_user_key :: bytes
  t_num_entries :: u64

text \<open>
  The bounds checks of \<^verbatim>\<open>Open\<close> add in 64 bits. \<open>handle_ok\<close> is the check on an offset and a
  size against the start of the footer.
\<close>

definition handle_ok :: "u64 \<Rightarrow> u32 \<Rightarrow> nat \<Rightarrow> bool" where
  "handle_ok off sz footer_start \<longleftrightarrow>
     \<not> (footer_start < unat off \<or> footer_start < unat (off + ucast sz))"

lemma Block_Next_advance:
  "bvalid b \<Longrightarrow> bvalid (Block_Next b) \<Longrightarrow> entry_end b < entry_end (Block_Next b)
     \<and> entry_end (Block_Next b) \<le> restart_array_offset b \<and> restart_array_offset (Block_Next b) = restart_array_offset b"
  using ParseEntry_advance [of "entry_end b" b]
  by (cases "ParseEntry (entry_end b) b") (auto simp: Block_Next_def split: if_splits)

text \<open>The loop over the index block: the entries, or the message of the failure, and the block at the end.\<close>

function index_scan :: "nat \<Rightarrow> Block \<Rightarrow> IndexEntry list \<Rightarrow> (bytes + IndexEntry list) \<times> Block" where
  "index_scan footer_start b acc =
     (if \<not> bvalid b then (Inr acc, b)
      else
        let handle = cur_value b
        in if length handle \<noteq> 12 then (Inl (str ''index handle has wrong size''), b)
           else
             let e = \<lparr>ie_key = cur_key b, ie_offset = GetFixed64 handle, ie_size = GetFixed32 (drop 8 handle)\<rparr>
             in if \<not> handle_ok (ie_offset e) (ie_size e) footer_start
                then (Inl (str ''data block handle out of range''), b)
                else index_scan footer_start (Block_Next b) (acc @ [e]))"
  by pat_completeness auto
termination
proof (relation "measure (\<lambda>(f, b, acc). if bvalid b then Suc (restart_array_offset b - entry_end b) else 0)", goal_cases)
  case (2 f b acc h e)
  then show ?case using Block_Next_advance [of b] by auto
qed simp

declare index_scan.simps [simp del]

text \<open>The body of \<^verbatim>\<open>Table::Open\<close> once the file is read.\<close>

definition parse_table :: "u64 \<Rightarrow> bytes \<Rightarrow> bytes + Table" where
  "parse_table fnum data =
     (if length data < kFooterSize then Inl (str ''file smaller than a footer'')
      else
        let footer_start = length data - kFooterSize;
            f = drop footer_start data
        in if drop 36 f \<noteq> kMagic then Inl (str ''bad magic'')
           else
             let filter_offset = GetFixed64 f;
                 filter_size = GetFixed32 (drop 8 f);
                 index_offset = GetFixed64 (drop 12 f);
                 index_size = GetFixed32 (drop 20 f);
                 n = GetFixed64 (drop 24 f);
                 stored_crc = GetFixed32 (drop 32 f)
             in if \<not> handle_ok filter_offset filter_size footer_start \<or> \<not> handle_ok index_offset index_size footer_start
                then Inl (str ''block handle out of range'')
                else if Crc32 (take footer_start data) 0 \<noteq> stored_crc then Inl (str ''whole-file CRC mismatch'')
                else
                  let ib = NewBlock (sub data (unat index_offset) (unat index_size))
                  in if bcorrupted ib then Inl (str ''index block corrupt'')
                     else case index_scan footer_start (Block_SeekToFirst ib) [] of
                       (Inl msg, _) \<Rightarrow> Inl msg
                     | (Inr idx, ib') \<Rightarrow>
                         if bcorrupted ib' then Inl (str ''index block corrupt mid-scan'')
                         else if idx = [] then Inl (str ''no data blocks'')
                         else
                           let fb = NewBlock (sub data (unat (ie_offset (hd idx))) (unat (ie_size (hd idx))))
                           in if bcorrupted fb then Inl (str ''first data block corrupt'')
                              else
                                let fb' = Block_SeekToFirst fb
                                in if \<not> bvalid fb' then Inl (str ''first data block empty'')
                                   else Inr \<lparr>t_file_number = fnum, file_data = data, index = idx,
                                             filter_block = sub data (unat filter_offset) (unat filter_size),
                                             t_smallest_user_key = UserKeyOf (cur_key fb'),
                                             t_largest_user_key = UserKeyOf (ie_key (last idx)),
                                             t_num_entries = n\<rparr>)"

definition Table_Open :: "u64 \<Rightarrow> path \<Rightarrow> World \<Rightarrow> (Status + Table) \<times> World" where
  "Table_Open fnum p w = (case ReadFileToString p w of
      (s, data, w') \<Rightarrow>
        if \<not> ok s then (Inl s, w')
        else case parse_table fnum data of
            Inl msg \<Rightarrow> (Inl (Corruption (str ''sstable '' @ p @ str '': '' @ msg)), w')
          | Inr t \<Rightarrow> (Inr t, w'))"

text \<open>
  The per-block filter. \<^verbatim>\<open>array_start + 4\<close> is a 32-bit sum, the subtraction for the number of
  offsets is done in \<^verbatim>\<open>size_t\<close>; \<open>None\<close> is a read outside the filter block.
\<close>

definition read32_at :: "bytes \<Rightarrow> nat \<Rightarrow> u32 option" where
  "read32_at d off = (if off + 4 \<le> length d then Some (GetFixed32 (drop off d)) else None)"

definition KeyMayMatchInBlock :: "Table \<Rightarrow> nat \<Rightarrow> bytes \<Rightarrow> bool option" where
  "KeyMayMatchInBlock t block_index user_key =
     (let fb = filter_block t; sz = length fb
      in if sz < 4 then Some True
         else
           let array_start = GetFixed32 (drop (sz - 4) fb)
           in if sz < unat (array_start + 4) then Some True
              else
                let n = unat ((of_nat sz :: u64) - 4 - ucast array_start) div 4
                in if n \<le> block_index then Some True
                   else case read32_at fb (unat array_start + block_index * 4) of
                     None \<Rightarrow> None
                   | Some start \<Rightarrow>
                       (case (if block_index + 1 < n then read32_at fb (unat array_start + (block_index + 1) * 4)
                              else Some array_start) of
                          None \<Rightarrow> None
                        | Some stop \<Rightarrow>
                            if stop < start \<or> array_start < stop then Some True
                            else Some (KeyMayMatch (sub fb (unat start) (unat (stop - start))) user_key)))"

definition index_lower_bound :: "Table \<Rightarrow> bytes \<Rightarrow> nat" where
  "index_lower_bound t target = lower_bound (\<lambda>e t. InternalKeyComparator (ie_key e) t) (index t) target"

definition table_block :: "Table \<Rightarrow> nat \<Rightarrow> Block" where
  "table_block t i = NewBlock (sub (file_data t) (unat (ie_offset (index t ! i))) (unat (ie_size (index t ! i))))"

text \<open>
  The result and the status the caller passed in. The text names the file by its number;
  \<open>to_string\<close> is \<^verbatim>\<open>std::to_string\<close>.
\<close>

fun to_string_nat :: "nat \<Rightarrow> bytes" where
  "to_string_nat n = (if n < 10 then [0x30 + of_nat n] else to_string_nat (n div 10) @ [0x30 + of_nat (n mod 10)])"

declare to_string_nat.simps [simp del]

definition table_corrupt :: "Table \<Rightarrow> string \<Rightarrow> Status" where
  "table_corrupt t what = Corruption (str ''sstable '' @ to_string_nat (unat (t_file_number t)) @ str '': '' @ str what)"

definition Table_Get :: "Table \<Rightarrow> bytes \<Rightarrow> u64 \<Rightarrow> (Lookup \<times> Status) option" where
  "Table_Get t user_key max_seq =
     (let target = user_key @ PutFixed64 (target_tag max_seq);
          block_index = index_lower_bound t target
      in if block_index = length (index t) then Some (kMissing, Ok)
         else case KeyMayMatchInBlock t block_index user_key of
           None \<Rightarrow> None
         | Some False \<Rightarrow> Some (kMissing, Ok)
         | Some True \<Rightarrow>
             let block = table_block t block_index
             in if bcorrupted block then Some (kMissing, table_corrupt t ''data block corrupt'')
                else
                  let b = Block_Seek target block
                  in if bcorrupted b then Some (kMissing, table_corrupt t ''data block corrupt at seek'')
                     else if \<not> bvalid b then Some (kMissing, Ok)
                     else
                       let found = cur_key b
                       in if kTagSize \<le> length found \<and> sub found 0 (length found - kTagSize) = user_key
                          then
                            let tag = GetFixed64 (drop (length found - kTagSize) found)
                            in if tag_type tag = ucast kTypeValue then Some (kFound (cur_value b), Ok)
                               else Some (kDeleted, Ok)
                          else Some (kMissing, Ok))"

subsection \<open>TableIterator\<close>

record TableIterator =
  ti_table :: Table
  block_index :: nat
  ti_block :: Block
  ti_valid :: bool
  ti_corrupted :: bool

definition NewTableIterator :: "Table \<Rightarrow> TableIterator" where
  "NewTableIterator t = \<lparr>ti_table = t, block_index = 0, ti_block = NewBlock [], ti_valid = False, ti_corrupted = False\<rparr>"

definition EnterBlock :: "nat \<Rightarrow> bool \<Rightarrow> TableIterator \<Rightarrow> TableIterator" where
  "EnterBlock i seek_first ti =
     (let ti1 = ti\<lparr>block_index := i, ti_block := table_block (ti_table ti) i\<rparr>
      in if bcorrupted (ti_block ti1) then ti1\<lparr>ti_corrupted := True, ti_valid := False\<rparr>
         else
           let ti2 = (if seek_first then ti1\<lparr>ti_block := Block_SeekToFirst (ti_block ti1)\<rparr> else ti1)
           in ti2\<lparr>ti_valid := bvalid (ti_block ti2)\<rparr>)"

definition ti_SeekToFirst :: "TableIterator \<Rightarrow> TableIterator" where
  "ti_SeekToFirst ti =
     (let ti1 = ti\<lparr>ti_corrupted := False\<rparr>
      in if index (ti_table ti1) = [] then ti1\<lparr>ti_valid := False\<rparr> else EnterBlock 0 True ti1)"

definition ti_Seek :: "bytes \<Rightarrow> TableIterator \<Rightarrow> TableIterator" where
  "ti_Seek target ti =
     (let ti1 = ti\<lparr>ti_corrupted := False\<rparr>;
          i = index_lower_bound (ti_table ti1) target
      in if i = length (index (ti_table ti1)) then ti1\<lparr>ti_valid := False\<rparr>
         else
           let ti2 = EnterBlock i False ti1
           in if ti_corrupted ti2 then ti2
              else
                let b = Block_Seek target (ti_block ti2)
                in ti2\<lparr>ti_block := b, ti_valid := bvalid b\<rparr>)"

definition ti_Next :: "TableIterator \<Rightarrow> TableIterator" where
  "ti_Next ti =
     (if \<not> ti_valid ti then ti
      else
        let ti1 = ti\<lparr>ti_block := Block_Next (ti_block ti)\<rparr>
        in if bcorrupted (ti_block ti1) then ti1\<lparr>ti_corrupted := True, ti_valid := False\<rparr>
           else if bvalid (ti_block ti1) then ti1
           else if length (index (ti_table ti1)) \<le> block_index ti1 + 1 then ti1\<lparr>ti_valid := False\<rparr>
           else EnterBlock (block_index ti1 + 1) True ti1)"

end
