(* ===== verification/VLog.thy ===== *)
theory VLog
  imports Fs FileNames
begin

text \<open>
  The value log (\<^verbatim>\<open>include/bedrockkv/vlog.h\<close>, \<^verbatim>\<open>src/vlog.cpp\<close>) over the file
  system of \<open>Fs\<close>: value pointers, appending, reading the value of a pointer,
  and the scan of a generation. File offsets are natural numbers; a pointer carries one as a
  64-bit word. \<^verbatim>\<open>lseek\<close> to the end of a regular file succeeds.
\<close>

definition kEntryHeaderSize :: nat where "kEntryHeaderSize = 12"
definition kValuePointerSize :: nat where "kValuePointerSize = 21"
definition kValuePointerTag :: byte where "kValuePointerTag = 0xff"

lemmas vlog_consts = kEntryHeaderSize_def kValuePointerSize_def kValuePointerTag_def

record ValuePointer =
  vlog_number :: u64
  vp_offset :: u64
  value_size :: u32

definition EncodeValuePointer :: "ValuePointer \<Rightarrow> bytes" where
  "EncodeValuePointer p =
     [kValuePointerTag] @ PutFixed64 (vlog_number p) @ PutFixed64 (vp_offset p) @ PutFixed32 (value_size p)"

definition DecodeValuePointer :: "bytes \<Rightarrow> ValuePointer option" where
  "DecodeValuePointer stored =
     (if length stored \<noteq> kValuePointerSize \<or> stored ! 0 \<noteq> kValuePointerTag then None
      else let d = drop 1 stored
           in Some \<lparr>vlog_number = GetFixed64 d, vp_offset = GetFixed64 (drop 8 d), value_size = GetFixed32 (drop 16 d)\<rparr>)"

record VLog =
  vl_fd :: nat
  vl_number :: u64
  vl_end :: nat

definition VLog_Open :: "path \<Rightarrow> u64 \<Rightarrow> World \<Rightarrow> (Status + VLog) \<times> World" where
  "VLog_Open dir number w =
     (let p = dir @ str ''/'' @ VLog_FileName number
      in case open_creat p w of
           (Inl e, w') \<Rightarrow> (Inl (IOError (str ''cannot open '' @ p @ str '': '' @ e)), w')
         | (Inr fd, w') \<Rightarrow> (Inr \<lparr>vl_fd = fd, vl_number = number, vl_end = length (inodes w' fd)\<rparr>, w'))"

text \<open>The buffer of \<^verbatim>\<open>Append\<close>: the checksum covers everything after its own field.\<close>

definition vlog_body :: "bytes \<Rightarrow> bytes \<Rightarrow> bytes" where
  "vlog_body key value = PutFixed32 (of_nat (length key)) @ PutFixed32 (of_nat (length value)) @ key @ value"

definition vlog_entry :: "bytes \<Rightarrow> bytes \<Rightarrow> bytes" where
  "vlog_entry key value = PutFixed32 (Crc32 (vlog_body key value) 0) @ vlog_body key value"

definition VLog_Append :: "bytes \<Rightarrow> bytes \<Rightarrow> VLog \<Rightarrow> World \<Rightarrow> Status \<times> nat \<times> nat \<times> VLog \<times> World" where
  "VLog_Append key value vl w =
     (let off = vl_end vl; buf = vlog_entry key value
      in case write_loop (vl_fd vl) buf w of
           (Some e, w') \<Rightarrow> (IOError (str ''vlog append failed: '' @ e), off, 0, vl\<lparr>vl_end := length (inodes w' (vl_fd vl))\<rparr>, w')
         | (None, w') \<Rightarrow> (Ok, off, length buf, vl\<lparr>vl_end := vl_end vl + length buf\<rparr>, w'))"

text \<open>\<^verbatim>\<open>::pread\<close>: an error, or up to \<open>n\<close> bytes from the offset on.\<close>

definition pread :: "nat \<Rightarrow> nat \<Rightarrow> nat \<Rightarrow> World \<Rightarrow> (bytes + bytes) \<times> World" where
  "pread fd n off w = (case ask w of
      (Fail e, w') \<Rightarrow> (Inl e, w')
    | (Eintr, w') \<Rightarrow> (Inl eintr_text, w')
    | (Partial k, w') \<Rightarrow> (Inr (take (min n k) (drop off (inodes w' fd))), w')
    | (_, w') \<Rightarrow> (Inr (take n (drop off (inodes w' fd))), w'))"

definition torn_tail :: "u64 \<Rightarrow> Status" where
  "torn_tail number = NotFound (str ''torn vlog tail in '' @ VLog_FileName number)"

definition ReadValue :: "u64 \<Rightarrow> u32 \<Rightarrow> VLog \<Rightarrow> World \<Rightarrow> (Status + bytes) \<times> World" where
  "ReadValue offset expected_size vl w =
     (let off = unat offset; fin = vl_end vl
      in if off > fin \<or> fin - off < kEntryHeaderSize
         then (Inl (NotFound (str ''value pointer past end of vlog '' @ VLog_FileName (vl_number vl))), w)
         else case pread (vl_fd vl) kEntryHeaderSize off w of
           (Inl e, w1) \<Rightarrow> (Inl (IOError (str ''vlog pread header failed: '' @ e)), w1)
         | (Inr header, w1) \<Rightarrow>
             if length header < kEntryHeaderSize then (Inl (torn_tail (vl_number vl)), w1)
             else let klen = GetFixed32 (drop 4 header); vsize = GetFixed32 (drop 8 header);
                      payload_size = unat klen + unat vsize
                  in if unat klen > fin \<or> unat vsize > fin \<or> payload_size > fin - off - kEntryHeaderSize
                     then (Inl (torn_tail (vl_number vl)), w1)
                     else if vsize \<noteq> expected_size
                     then (Inl (Corruption (str ''vlog entry size '' @ to_string (unat vsize) @ str '' != pointer size '' @
                                  to_string (unat expected_size))), w1)
                     else case pread (vl_fd vl) payload_size (off + kEntryHeaderSize) w1 of
                       (Inl e, w2) \<Rightarrow> (Inl (torn_tail (vl_number vl)), w2)
                     | (Inr payload, w2) \<Rightarrow>
                         if length payload < payload_size then (Inl (torn_tail (vl_number vl)), w2)
                         else if Crc32 payload (Crc32 (sub header 4 8) 0) \<noteq> GetFixed32 header
                         then (Inl (Corruption (str ''vlog entry CRC mismatch in '' @ VLog_FileName (vl_number vl))), w2)
                         else (Inr (sub payload (unat klen) (unat vsize)), w2))"

definition VLog_Sync :: "VLog \<Rightarrow> World \<Rightarrow> Status \<times> World" where
  "VLog_Sync vl w = (case fsync (vl_fd vl) w of
      (Inl e, w') \<Rightarrow> (IOError (str ''vlog fsync failed: '' @ e), w')
    | (Inr _, w') \<Rightarrow> (Ok, w'))"

text \<open>
  The loop of \<^verbatim>\<open>ScanEntries\<close>, as the list of calls of \<^verbatim>\<open>fn\<close>. The payload is sized
  by a 32-bit sum, as in the source; \<open>None\<close> when the key or value handed to \<^verbatim>\<open>fn\<close> reaches
  outside the payload buffer.
\<close>

type_synonym scanned = "bytes \<times> bytes \<times> nat"

function scan_loop :: "nat \<Rightarrow> nat \<Rightarrow> nat \<Rightarrow> World \<Rightarrow> (Status \<times> scanned list) option \<times> World" where
  "scan_loop fd file_end off w =
     (if off + kEntryHeaderSize \<le> file_end then
        case pread fd kEntryHeaderSize off w of
          (Inl e, w1) \<Rightarrow> (Some (IOError (str ''vlog scan pread failed: '' @ e), []), w1)
        | (Inr header, w1) \<Rightarrow>
            if length header < kEntryHeaderSize then (Some (Ok, []), w1)
            else let klen = GetFixed32 (drop 4 header); vsize = GetFixed32 (drop 8 header);
                     tot = kEntryHeaderSize + unat klen + unat vsize; n = unat (klen + vsize)
                 in if off + tot > file_end then (Some (Ok, []), w1)
                    else case pread fd n (off + kEntryHeaderSize) w1 of
                      (Inl e, w2) \<Rightarrow> (Some (Ok, []), w2)
                    | (Inr payload, w2) \<Rightarrow>
                        if length payload < n then (Some (Ok, []), w2)
                        else if Crc32 payload (Crc32 (sub header 4 8) 0) \<noteq> GetFixed32 header then (Some (Ok, []), w2)
                        else if n < unat klen + unat vsize then (None, w2)
                        else case scan_loop fd file_end (off + tot) w2 of
                          (None, w3) \<Rightarrow> (None, w3)
                        | (Some (s, xs), w3) \<Rightarrow> (Some (s, (take (unat klen) payload, sub payload (unat klen) (unat vsize), off) # xs), w3)
      else (Some (Ok, []), w))"
  by pat_completeness auto
termination by (relation "measure (\<lambda>(fd, file_end, off, w). file_end - off)") (auto simp: kEntryHeaderSize_def)

declare scan_loop.simps [simp del]

definition ScanEntries :: "nat \<Rightarrow> VLog \<Rightarrow> World \<Rightarrow> (Status \<times> scanned list) option \<times> World" where
  "ScanEntries limit vl w = scan_loop (vl_fd vl) (min limit (vl_end vl)) 0 w"

subsection \<open>Value pointers\<close>

lemma length_EncodeValuePointer [simp]: "length (EncodeValuePointer p) = 21"
  by (simp add: EncodeValuePointer_def)

lemma Decode_Encode_pointer: "DecodeValuePointer (EncodeValuePointer p) = Some p"
  using GetFixed32_PutFixed32 [of "value_size p" "[]"]
  by (simp add: DecodeValuePointer_def EncodeValuePointer_def vlog_consts Let_def drop_append_len)

lemma pointer_split:
  assumes "length d = 20"
  shows "d = take 8 d @ take 8 (drop 8 d) @ drop 16 d"
  by (metis append_take_drop_id drop_drop numeral_Bit0)

lemma Encode_Decode_pointer:
  assumes "DecodeValuePointer s = Some p"
  shows "s = EncodeValuePointer p"
proof -
  have l: "length s = 21" "s ! 0 = kValuePointerTag" using assms by (auto simp: DecodeValuePointer_def vlog_consts split: if_splits)
  then obtain d where s: "s = kValuePointerTag # d" "length d = 20" by (cases s) auto
  have "PutFixed64 (GetFixed64 d) = take 8 d" "PutFixed64 (GetFixed64 (drop 8 d)) = take 8 (drop 8 d)"
    "PutFixed32 (GetFixed32 (drop 16 d)) = drop 16 d"
    using s(2) PutFixed64_GetFixed64 [of d] PutFixed64_GetFixed64 [of "drop 8 d"] PutFixed32_GetFixed32 [of "drop 16 d"] by simp_all
  then show ?thesis using assms l s pointer_split [OF s(2)]
    by (auto simp: DecodeValuePointer_def EncodeValuePointer_def vlog_consts Let_def)
qed

subsection \<open>Reading back what was appended\<close>

definition vlog_ok :: "VLog \<Rightarrow> World \<Rightarrow> bool" where
  "vlog_ok vl w \<longleftrightarrow> vl_end vl = length (inodes w (vl_fd vl))"

text \<open>The entry of a key and a value lies at an offset of the file.\<close>

definition entry_at_off :: "bytes \<Rightarrow> nat \<Rightarrow> bytes \<Rightarrow> bytes \<Rightarrow> bool" where
  "entry_at_off f off k v \<longleftrightarrow> (\<exists>xs ys. f = xs @ vlog_entry k v @ ys \<and> length xs = off)"

lemma entry_grows: "entry_at_off f off k v \<Longrightarrow> entry_at_off (f @ ys) off k v"
  unfolding entry_at_off_def by (metis append.assoc)

lemma length_vlog_body [simp]: "length (vlog_body k v) = 8 + length k + length v"
  by (simp add: vlog_body_def)

lemma length_vlog_entry [simp]: "length (vlog_entry k v) = 12 + length k + length v"
  by (simp add: vlog_entry_def)

lemma vlog_entry_nonempty [simp]: "vlog_entry k v \<noteq> []"
  by (simp add: vlog_entry_def PutFixed32_def)

lemma Append_grows:
  assumes "VLog_Append k v vl w = (s, off, n, vl', w')" and "vlog_ok vl w"
  shows "vlog_ok vl' w' \<and> vl_fd vl' = vl_fd vl \<and> vl_number vl' = vl_number vl \<and> off = vl_end vl \<and> touch (vl_fd vl) w w'
    \<and> (\<exists>j. inodes w' (vl_fd vl) = inodes w (vl_fd vl) @ take j (vlog_entry k v))
    \<and> (ok s \<longrightarrow> inodes w' (vl_fd vl) = inodes w (vl_fd vl) @ vlog_entry k v \<and> n = length (vlog_entry k v))"
proof -
  obtain r w1 where wl: "write_loop (vl_fd vl) (vlog_entry k v) w = (r, w1)" by fastforce
  note t = write_loop_touch [OF wl]
  have "\<exists>j. vlog_entry k v = take j (vlog_entry k v)" by (intro exI [of _ "length (vlog_entry k v)"]) simp
  then show ?thesis using assms t by (cases r) (auto simp: VLog_Append_def Let_def wl vlog_ok_def)
qed

text \<open>A kernel that answers every read in full.\<close>

definition quiet :: "World \<Rightarrow> bool" where
  "quiet w \<longleftrightarrow> \<not> dead w \<and> set (sys w) \<subseteq> {Done}"

lemma quiet_ask: "quiet w \<Longrightarrow> ask w = (a, w') \<Longrightarrow> a = Done \<and> quiet w' \<and> same w w'"
  using ask_same [of w a w'] by (cases "sys w") (auto simp: quiet_def ask_def)

lemma pread_cases:
  assumes "pread fd n off w = (r, w')"
  shows "same w w' \<and> (quiet w \<longrightarrow> quiet w' \<and> r = Inr (take n (drop off (inodes w fd))))
    \<and> (\<forall>b. r = Inr b \<longrightarrow> (\<exists>m. b = take m (take n (drop off (inodes w fd)))))"
proof -
  obtain a w1 where a: "ask w = (a, w1)" by fastforce
  note s = ask_same [OF a] and q = quiet_ask [OF _ a]
  show ?thesis using assms a s q by (cases a) (auto simp: pread_def same_simps [OF s] min.commute intro: exI [of _ n])
qed

text \<open>The header and the payload of an entry, and what the readers compute from them.\<close>

definition vlog_header :: "bytes \<Rightarrow> bytes \<Rightarrow> bytes" where
  "vlog_header k v = PutFixed32 (Crc32 (vlog_body k v) 0) @ PutFixed32 (of_nat (length k)) @ PutFixed32 (of_nat (length v))"

lemma vlog_header_fields:
  "length (vlog_header k v) = 12" "GetFixed32 (vlog_header k v) = Crc32 (vlog_body k v) 0"
  "GetFixed32 (drop 4 (vlog_header k v)) = of_nat (length k)" "GetFixed32 (drop 8 (vlog_header k v)) = of_nat (length v)"
  "Crc32 (k @ v) (Crc32 (sub (vlog_header k v) 4 8) 0) = Crc32 (vlog_body k v) 0"
  by (simp_all add: vlog_header_def sub_def vlog_body_def Crc32_append [symmetric])

lemma entry_parts:
  assumes "entry_at_off f off k v"
  shows "take 12 (drop off f) = vlog_header k v" "take (length k + length v) (drop (off + 12) f) = k @ v"
    "off + 12 + length k + length v \<le> length f"
proof -
  obtain xs ys where f: "f = xs @ vlog_entry k v @ ys" "length xs = off" using assms by (auto simp: entry_at_off_def)
  have e: "vlog_entry k v = vlog_header k v @ k @ v" by (simp add: vlog_entry_def vlog_header_def vlog_body_def)
  show "take 12 (drop off f) = vlog_header k v" using f by (simp add: e vlog_header_fields)
  have "drop (off + 12) f = (k @ v) @ ys" using f by (simp add: e vlog_header_fields add.commute)
  then show "take (length k + length v) (drop (off + 12) f) = k @ v" by simp
  show "off + 12 + length k + length v \<le> length f" using f by simp
qed

text \<open>Reading \<open>n\<close> bytes that are there gives them, or fewer, or an error.\<close>

lemma pread_full:
  assumes "pread fd n off w = (Inr b, w')" and "\<not> length b < n"
  shows "b = take n (drop off (inodes w fd))"
proof -
  let ?Y = "take n (drop off (inodes w fd))"
  obtain m where m: "b = take m ?Y" using pread_cases [OF assms(1)] by blast
  have "length b \<le> length ?Y" "length ?Y \<le> n" by (simp_all add: m)
  then have "length ?Y \<le> m" using assms(2) m by (metis length_take min.bounded_iff not_less order_trans)
  then show ?thesis unfolding m by (rule take_all)
qed

lemma ReadValue_entry:
  assumes e: "entry_at_off (inodes w (vl_fd vl)) off k v" and sz: "length k < 2 ^ 32" "length v < 2 ^ 32" "off < 2 ^ 64"
    and fin: "vl_end vl = length (inodes w (vl_fd vl))" and r: "ReadValue (of_nat off) (of_nat (length v)) vl w = (r, w')"
  shows "same w w' \<and> (quiet w \<longrightarrow> quiet w' \<and> r = Inr v) \<and> (\<forall>x. r = Inr x \<longrightarrow> x = v)"
proof -
  note ep = entry_parts [OF e] and hf = vlog_header_fields
  let ?n = "length k + length v"
  have nums: "unat (of_nat off :: u64) = off" "unat (of_nat (length k) :: u32) = length k" "unat (of_nat (length v) :: u32) = length v"
    using sz by (simp_all add: unat_of_nat_u64 unat_of_nat_u32)
  obtain r1 w1 where p1: "pread (vl_fd vl) 12 off w = (r1, w1)" by fastforce
  note c1 = pread_cases [OF p1]
  have s1: "same w w1" using c1 by blast
  obtain r2 w2 where p2: "pread (vl_fd vl) ?n (off + 12) w1 = (r2, w2)" by fastforce
  note c2 = pread_cases [OF p2]
  have s2: "same w w2" using c2 s1 same_trans by blast
  have len: "\<not> (off > vl_end vl \<or> vl_end vl - off < 12)"
    "\<not> (length k > vl_end vl \<or> length v > vl_end vl \<or> ?n > vl_end vl - off - 12)" using ep(3) fin by auto
  show ?thesis
  proof (cases r1)
    case (Inl x)
    then show ?thesis using r s1 c1 len(1) by (auto simp: ReadValue_def nums p1 kEntryHeaderSize_def Let_def)
  next
    case (Inr h)
    show ?thesis
    proof (cases "length h < 12")
      case True
      then show ?thesis using r s1 c1 len(1) Inr ep(1) hf(1) by (auto simp: ReadValue_def nums p1 kEntryHeaderSize_def Let_def)
    next
      case False
      have h: "h = vlog_header k v" using pread_full [OF p1 [unfolded Inr] False] ep(1) by simp
      have eq: "ReadValue (of_nat off) (of_nat (length v)) vl w =
        (case r2 of Inl e \<Rightarrow> (Inl (torn_tail (vl_number vl)), w2)
         | Inr payload \<Rightarrow> if length payload < ?n then (Inl (torn_tail (vl_number vl)), w2)
             else if Crc32 payload (Crc32 (sub h 4 8) 0) \<noteq> GetFixed32 h
             then (Inl (Corruption (str ''vlog entry CRC mismatch in '' @ VLog_FileName (vl_number vl))), w2)
             else (Inr (sub payload (length k) (length v)), w2))"
        unfolding ReadValue_def Let_def kEntryHeaderSize_def nums if_not_P [OF len(1)] p1 Inr prod.case sum.case if_not_P [OF False]
        unfolding h hf nums using len(2) by (simp add: p2)
      show ?thesis
      proof (cases r2)
        case Inl2: (Inl x)
        then show ?thesis using r s2 c1 c2 unfolding eq by (auto simp: same_simps [OF s1])
      next
        case Inr2: (Inr b)
        show ?thesis
        proof (cases "length b < ?n")
          case True
          then show ?thesis using r s2 c1 c2 Inr2 ep(2,3) unfolding eq by (auto simp: same_simps [OF s1])
        next
          case False2: False
          have "b = k @ v" using pread_full [OF p2 [unfolded Inr2] False2] ep(2) by (simp add: same_simps [OF s1])
          then show ?thesis using r s2 c1 c2 Inr2 hf unfolding eq h by (auto simp: sub_def)
        qed
      qed
    qed
  qed
qed

fun vlog_appends :: "(bytes \<times> bytes) list \<Rightarrow> VLog \<Rightarrow> World \<Rightarrow> VLog \<times> World" where
  "vlog_appends [] vl w = (vl, w)"
| "vlog_appends ((k, v) # xs) vl w = (let (s, off, n, vl', w') = VLog_Append k v vl w in vlog_appends xs vl' w')"

lemma appends_grow:
  assumes "vlog_appends xs vl w = (vl', w')" and "vlog_ok vl w"
  shows "vlog_ok vl' w' \<and> vl_fd vl' = vl_fd vl \<and> (\<exists>ys. inodes w' (vl_fd vl) = inodes w (vl_fd vl) @ ys)"
  using assms
proof (induction xs arbitrary: vl w)
  case (Cons x xs)
  obtain k v where x: "x = (k, v)" by (cases x)
  obtain s off n vl1 w1 where a: "VLog_Append k v vl w = (s, off, n, vl1, w1)" by (metis prod_cases5)
  note g = Append_grows [OF a Cons.prems(2)]
  have "vlog_appends xs vl1 w1 = (vl', w')" using Cons.prems(1) by (simp add: x a)
  from Cons.IH [OF this] g show ?case by auto
qed auto

text \<open>
  C13: a value that was appended successfully is what \<^verbatim>\<open>ReadValue\<close> returns for its
  pointer, however many appends of other entries follow and whether they succeed or fail
  part way; a read that the kernel cuts short never returns other bytes.
\<close>

theorem vlog_append_read:
  assumes "vlog_ok vl w" and "VLog_Append k v vl w = (s, off, n, vl1, w1)" and "ok s"
    and "length k < 2 ^ 32" and "length v < 2 ^ 32" and "off < 2 ^ 64"
    and "vlog_appends rest vl1 w1 = (vl2, w2)" and "ReadValue (of_nat off) (of_nat (length v)) vl2 w2 = (r, w3)"
  shows "(quiet w2 \<longrightarrow> r = Inr v) \<and> (\<forall>x. r = Inr x \<longrightarrow> x = v)"
proof -
  note a = Append_grows [OF assms(2,1)]
  have e: "entry_at_off (inodes w1 (vl_fd vl)) off k v"
    using a assms(1,3) unfolding entry_at_off_def vlog_ok_def by (intro exI [of _ "inodes w (vl_fd vl)"] exI [of _ "[]"]) simp
  from appends_grow [OF assms(7)] a obtain ys where
    b: "vlog_ok vl2 w2" "vl_fd vl2 = vl_fd vl" "inodes w2 (vl_fd vl) = inodes w1 (vl_fd vl) @ ys" by auto
  have "entry_at_off (inodes w2 (vl_fd vl2)) off k v" unfolding b by (rule entry_grows [OF e])
  from ReadValue_entry [OF this assms(4-6) b(1) [unfolded vlog_ok_def] assms(8)] show ?thesis by blast
qed

theorem vlog_append_read_witness:
  "let w = empty_world [Partial 5, Partial 100, Fail []]; vl = \<lparr>vl_fd = 3, vl_number = 1, vl_end = 0\<rparr>;
       (s, off, n, vl1, w1) = VLog_Append [1] [7, 8] vl w; (vl2, w2) = vlog_appends [([2], [9])] vl1 w1
   in ok s \<and> length (inodes w2 3) = 15 \<and> fst (ReadValue (of_nat off) 2 vl2 w2) = Inr [7, 8]"
proof -
  let ?w = "empty_world [Partial 5, Partial 100, Fail []]" and ?vl = "\<lparr>vl_fd = 3, vl_number = 1, vl_end = 0\<rparr>"
  obtain s off n vl1 w1 where a: "VLog_Append [1] [7, 8] ?vl ?w = (s, off, n, vl1, w1)" by (metis prod_cases5)
  have a': "ok s" "off = 0" "sys w1 = [Fail []]" "\<not> dead w1" "vl1 = ?vl\<lparr>vl_end := 15\<rparr>" "length (inodes w1 3) = 15"
    using a by (auto simp: VLog_Append_def Let_def write_loop.simps ask_def empty_world_def set_inode_def)
  obtain vl2 w2 where b: "vlog_appends [([2], [9])] vl1 w1 = (vl2, w2)" by fastforce
  have b': "quiet w2" "length (inodes w2 3) = 15"
    using b a' by (auto simp: VLog_Append_def Let_def write_loop.simps ask_def quiet_def)
  have h: "vlog_ok ?vl ?w" "length [1 :: u8] < 2 ^ 32" "length [7, 8 :: u8] < 2 ^ 32" "off < 2 ^ 64"
    using a'(2) by (simp_all add: vlog_ok_def empty_world_def)
  note r = vlog_append_read [OF h(1) a a'(1) h(2-4) b surjective_pairing]
  have "fst (ReadValue (of_nat off) (of_nat (length [7, 8 :: u8])) vl2 w2) = Inr [7, 8]" using r b'(1) by blast
  then show ?thesis unfolding Let_def a b prod.case using a'(1) b'(2) by simp
qed

subsection \<open>Scanning a generation\<close>

fun scan_list :: "nat \<Rightarrow> (bytes \<times> bytes) list \<Rightarrow> scanned list" where
  "scan_list off [] = []"
| "scan_list off ((k, v) # es) = (k, v, off) # scan_list (off + length (vlog_entry k v)) es"

abbreviation vlog_image :: "(bytes \<times> bytes) list \<Rightarrow> bytes" where
  "vlog_image es \<equiv> concat (map (\<lambda>(k, v). vlog_entry k v) es)"

lemma scan_entry:
  assumes e: "entry_at_off (inodes w fd) off k v" and sz: "length k + length v < 2 ^ 32" and q: "quiet w"
    and fin: "off + length (vlog_entry k v) \<le> file_end"
  shows "\<exists>w'. quiet w' \<and> same w w' \<and> scan_loop fd file_end off w =
    (case scan_loop fd file_end (off + length (vlog_entry k v)) w' of
       (None, w3) \<Rightarrow> (None, w3) | (Some (s, xs), w3) \<Rightarrow> (Some (s, (k, v, off) # xs), w3))"
proof -
  note ep = entry_parts [OF e] and hf = vlog_header_fields
  have nums: "unat (of_nat (length k) :: u32) = length k" "unat (of_nat (length v) :: u32) = length v"
    "unat (of_nat (length k) + of_nat (length v) :: u32) = length k + length v"
    using sz unat_of_nat_u32 [of "length k + length v"] by (simp_all add: unat_of_nat_u32)
  obtain r1 w1 where p1: "pread fd 12 off w = (r1, w1)" by fastforce
  have c1: "same w w1" "quiet w1" "r1 = Inr (vlog_header k v)" using pread_cases [OF p1] q ep(1) by auto
  obtain r2 w2 where p2: "pread fd (length k + length v) (off + 12) w1 = (r2, w2)" by fastforce
  have c2: "same w w2" "quiet w2" "r2 = Inr (k @ v)"
    using pread_cases [OF p2] c1 ep(2) same_trans by (auto simp: same_simps [OF c1(1)])
  have kv: "take (length k) (k @ v) = k" "sub (k @ v) (length k) (length v) = v" by (simp_all add: sub_def)
  have "scan_loop fd file_end off w = (case scan_loop fd file_end (off + (12 + length k + length v)) w2 of
       (None, w3) \<Rightarrow> (None, w3) | (Some (s, xs), w3) \<Rightarrow> (Some (s, (k, v, off) # xs), w3))"
    unfolding scan_loop.simps [of fd file_end off w] kEntryHeaderSize_def p1 c1(3) prod.case sum.case Let_def hf nums
      p2 c2(3) kv using fin by simp
  then show ?thesis using c2 by auto
qed

text \<open>A generation that consists of whole entries.\<close>

definition vlog_holds :: "(bytes \<times> bytes) list \<Rightarrow> VLog \<Rightarrow> World \<Rightarrow> bool" where
  "vlog_holds es vl w \<longleftrightarrow> inodes w (vl_fd vl) = vlog_image es \<and> vl_end vl = length (vlog_image es)"

fun appends_ok :: "(bytes \<times> bytes) list \<Rightarrow> VLog \<Rightarrow> World \<Rightarrow> (VLog \<times> World) option" where
  "appends_ok [] vl w = Some (vl, w)"
| "appends_ok ((k, v) # es) vl w = (case VLog_Append k v vl w of
      (s, off, n, vl', w') \<Rightarrow> if ok s then appends_ok es vl' w' else None)"

lemma appends_ok_holds:
  assumes "appends_ok es vl w = Some (vl', w')" and "vlog_holds es0 vl w"
  shows "vlog_holds (es0 @ es) vl' w'"
  using assms
proof (induction es arbitrary: es0 vl w)
  case (Cons x es)
  obtain k v where x: "x = (k, v)" by (cases x)
  obtain s off n vl1 w1 where a: "VLog_Append k v vl w = (s, off, n, vl1, w1)" by (metis prod_cases5)
  have "vlog_ok vl w" using Cons.prems(2) by (simp add: vlog_holds_def vlog_ok_def)
  note g = Append_grows [OF a this]
  have s: "ok s" "appends_ok es vl1 w1 = Some (vl', w')" using Cons.prems(1) by (auto simp: x a split: if_splits)
  have "vlog_holds (es0 @ [x]) vl1 w1" using g s(1) Cons.prems(2) by (simp add: vlog_holds_def vlog_ok_def x)
  from Cons.IH [OF s(2) this] show ?case by simp
qed simp

text \<open>The scan ends at an entry that reaches behind the end it was given.\<close>

lemma scan_stop:
  assumes "quiet w" and "fe < off + length (vlog_entry k v)" and "length k < 2 ^ 32" "length v < 2 ^ 32"
    and "off + 12 \<le> fe \<longrightarrow> take 12 (drop off (inodes w fd)) = vlog_header k v"
  shows "\<exists>w'. scan_loop fd fe off w = (Some (Ok, []), w')"
proof (cases "off + 12 \<le> fe")
  case True
  have nums: "unat (of_nat (length k) :: u32) = length k" "unat (of_nat (length v) :: u32) = length v"
    using assms(3,4) by (simp_all add: unat_of_nat_u32)
  obtain r w1 where p: "pread fd 12 off w = (r, w1)" by fastforce
  have "r = Inr (vlog_header k v)" using pread_cases [OF p] assms(1,5) True by auto
  then show ?thesis using assms(2) True
    by (simp add: scan_loop.simps [of fd fe off w] kEntryHeaderSize_def p vlog_header_fields nums Let_def)
next
  case False
  then show ?thesis by (simp add: scan_loop.simps [of fd fe off w] kEntryHeaderSize_def)
qed

lemma scan_list_ends:
  "(k, v, off) \<in> set (scan_list n es) \<Longrightarrow> off + length (vlog_entry k v) \<le> n + length (vlog_image es)"
  by (induction n es rule: scan_list.induct) (auto simp del: length_vlog_entry)

abbreviation below :: "nat \<Rightarrow> scanned \<Rightarrow> bool" where
  "below fe \<equiv> (\<lambda>(k, v, off). off + length (vlog_entry k v) \<le> fe)"

text \<open>
  Whole entries are reported as far as they lie below the end; \<open>stop\<close> says that what comes
  behind the last of them ends the scan.
\<close>

lemma scan_whole:
  assumes "inodes w fd = pre @ vlog_image es @ Y" and "\<forall>(k, v)\<in>set es. length k + length v < 2 ^ 32" and "quiet w"
    and stop: "\<And>w. quiet w \<Longrightarrow> inodes w fd = pre @ vlog_image es @ Y \<Longrightarrow> length pre + length (vlog_image es) \<le> fe \<Longrightarrow>
      \<exists>w'. scan_loop fd fe (length pre + length (vlog_image es)) w = (Some (Ok, []), w')"
  shows "\<exists>w'. scan_loop fd fe (length pre) w = (Some (Ok, takeWhile (below fe) (scan_list (length pre) es)), w')"
  using assms
proof (induction es arbitrary: pre w)
  case Nil
  show ?case
  proof (cases "length pre \<le> fe")
    case True
    then show ?thesis using Nil.prems(4) [OF Nil.prems(3,1)] by simp
  qed (simp add: scan_loop.simps [of fd fe "length pre"])
next
  case (Cons x es)
  obtain k v where x: "x = (k, v)" by (cases x)
  let ?e = "vlog_entry k v"
  have e: "entry_at_off (inodes w fd) (length pre) k v" using Cons.prems(1) x by (auto simp: entry_at_off_def)
  have sz: "length k + length v < 2 ^ 32" using Cons.prems(2) x by auto
  show ?case
  proof (cases "length pre + length ?e \<le> fe")
    case True
    obtain w1 where w1: "quiet w1" "same w w1" and eq: "scan_loop fd fe (length pre) w =
      (case scan_loop fd fe (length pre + length ?e) w1 of
         (None, w3) \<Rightarrow> (None, w3) | (Some (s, xs), w3) \<Rightarrow> (Some (s, (k, v, length pre) # xs), w3))"
      using scan_entry [OF e sz Cons.prems(3) True] by blast
    have i: "inodes w1 fd = (pre @ ?e) @ vlog_image es @ Y" using Cons.prems(1) x by (simp add: same_simps [OF w1(2)])
    have "\<exists>w'. scan_loop fd fe (length (pre @ ?e)) w1 = (Some (Ok, takeWhile (below fe) (scan_list (length (pre @ ?e)) es)), w')"
    proof (rule Cons.IH [OF i _ w1(1)])
      fix w2 assume q: "quiet w2" "inodes w2 fd = (pre @ ?e) @ vlog_image es @ Y" "length (pre @ ?e) + length (vlog_image es) \<le> fe"
      have "inodes w2 fd = pre @ vlog_image (x # es) @ Y" using q(2) by (simp add: x)
      moreover have "length pre + length (vlog_image (x # es)) \<le> fe" using q(3) by (simp add: x)
      ultimately show "\<exists>w'. scan_loop fd fe (length (pre @ ?e) + length (vlog_image es)) w2 = (Some (Ok, []), w')"
        using Cons.prems(4) [OF q(1)] by (simp add: x add.assoc)
    qed (use Cons.prems(2) in auto)
    then show ?thesis using True by (auto simp: eq x simp del: length_vlog_entry)
  next
    case False
    have "\<exists>w'. scan_loop fd fe (length pre) w = (Some (Ok, []), w')"
      using scan_stop [OF Cons.prems(3), of fe "length pre" k v fd] False sz entry_parts(1) [OF e] by auto
    then show ?thesis using False by (simp add: x del: length_vlog_entry)
  qed
qed

text \<open>
  C22: a generation of whole entries, extended by appends that all return Ok, however
  short or interrupted their writes are, and then read by a kernel that answers reads in
  full. \<^verbatim>\<open>ScanEntries\<close> up to any limit reports the key, the value and the offset of exactly the
  entries, old and new, that end at or before the limit, in their order, and ends without an
  error.
\<close>

theorem vlog_scan:
  assumes "vlog_holds es0 vl w" and "appends_ok es vl w = Some (vl', w')" and "quiet w'"
    and "\<forall>(k, v)\<in>set (es0 @ es). length k + length v < 2 ^ 32"
  shows "fst (ScanEntries limit vl' w') =
    Some (Ok, takeWhile (\<lambda>(k, v, off). off + length (vlog_entry k v) \<le> limit) (scan_list 0 (es0 @ es)))"
proof -
  have h: "vlog_holds (es0 @ es) vl' w'" by (rule appends_ok_holds [OF assms(2,1)])
  then have i: "inodes w' (vl_fd vl') = [] @ vlog_image (es0 @ es) @ []" "vl_end vl' = length (vlog_image (es0 @ es))"
    by (simp_all add: vlog_holds_def)
  let ?fe = "min limit (vl_end vl')"
  have "\<exists>w2. scan_loop (vl_fd vl') ?fe (length ([] :: bytes)) w' = (Some (Ok, takeWhile (below ?fe) (scan_list (length ([] :: bytes)) (es0 @ es))), w2)"
    by (rule scan_whole [OF i(1) assms(4,3)]) (simp add: scan_loop.simps kEntryHeaderSize_def i(2))
  then obtain w2 where s: "scan_loop (vl_fd vl') ?fe 0 w' = (Some (Ok, takeWhile (below ?fe) (scan_list 0 (es0 @ es))), w2)" by auto
  have "takeWhile (below ?fe) (scan_list 0 (es0 @ es)) = takeWhile (below limit) (scan_list 0 (es0 @ es))"
    by (rule takeWhile_cong) (use scan_list_ends [of _ _ _ 0 "es0 @ es"] i(2) in \<open>auto simp del: length_vlog_entry\<close>)
  then show ?thesis using s by (simp add: ScanEntries_def del: length_vlog_entry)
qed

theorem vlog_scan_witness:
  "\<exists>vl w. appends_ok [([1], [7, 8]), ([2], [9])] \<lparr>vl_fd = 3, vl_number = 1, vl_end = 0\<rparr> (empty_world [Partial 5, Eintr]) = Some (vl, w)
     \<and> fst (ScanEntries 20 vl w) = Some (Ok, [([1], [7, 8], 0)])"
proof -
  let ?w = "empty_world [Partial 5, Eintr]" and ?vl = "\<lparr>vl_fd = 3, vl_number = 1, vl_end = 0\<rparr>" and ?es = "[([1], [7, 8]), ([2], [9])]"
  obtain vl1 w1 where a: "appends_ok ?es ?vl ?w = Some (vl1, w1)" "quiet w1"
    by (simp add: VLog_Append_def Let_def write_loop.simps ask_def empty_world_def set_inode_def quiet_def)
  have h: "vlog_holds [] ?vl ?w" "\<forall>(k, v)\<in>set ([] @ ?es). length k + length v < 2 ^ 32" by (simp_all add: vlog_holds_def empty_world_def)
  from vlog_scan [OF h(1) a h(2), of 20] a(1) show ?thesis by simp
qed

text \<open>
  C23: the scan stops at a torn entry for good. The generation consists of whole
  entries \<open>es0\<close>; an append fails after at least the 12 bytes of its header reached the file;
  the next append succeeds, and any others follow, succeeding or failing, while the file
  stays shorter than the end the torn header announces. Then the value appended after the
  tear is still readable through its pointer, but a scan of the whole generation reports
  \<open>es0\<close> and nothing behind it, without an error.
\<close>

theorem vlog_scan_stops_at_tear:
  assumes "vlog_holds es0 vl w" and "\<forall>(k, v)\<in>set es0. length k + length v < 2 ^ 32"
    and "VLog_Append k1 v1 vl w = (s1, off1, n1, vl1, w1)" and "\<not> ok s1" and "vl_end vl + 12 \<le> vl_end vl1"
    and "VLog_Append k2 v2 vl1 w1 = (s2, off2, n2, vl2, w2)" and "ok s2" and "vlog_appends rest vl2 w2 = (vl3, w3)"
    and "vl_end vl3 < vl_end vl + length (vlog_entry k1 v1)" and "vl_end vl3 < 2 ^ 64" and "quiet w3"
    and "length k1 < 2 ^ 32" and "length v1 < 2 ^ 32" and "length k2 < 2 ^ 32" and "length v2 < 2 ^ 32"
  shows "fst (ReadValue (of_nat off2) (of_nat (length v2)) vl3 w3) = Inr v2 \<and>
    fst (ScanEntries (vl_end vl3) vl3 w3) = Some (Ok, scan_list 0 es0)"
proof
  have ok0: "vlog_ok vl w" using assms(1) by (simp add: vlog_holds_def vlog_ok_def)
  note a = Append_grows [OF assms(3) ok0]
  then have ok1: "vlog_ok vl1 w1" and fd: "vl_fd vl1 = vl_fd vl" by simp_all
  obtain j where j: "inodes w1 (vl_fd vl) = vlog_image es0 @ take j (vlog_entry k1 v1)" using a assms(1) by (auto simp: vlog_holds_def)
  have jl: "12 \<le> length (take j (vlog_entry k1 v1))" using assms(1,5) ok1 fd j by (simp add: vlog_ok_def vlog_holds_def)
  note b = Append_grows [OF assms(6) ok1]
  then have ok2: "vlog_ok vl2 w2" by simp
  from appends_grow [OF assms(8) ok2] b fd obtain ys where
    c: "vlog_ok vl3 w3" "vl_fd vl3 = vl_fd vl" "inodes w3 (vl_fd vl) = inodes w2 (vl_fd vl) @ ys" by auto
  let ?f = "inodes w3 (vl_fd vl)" and ?t = "take j (vlog_entry k1 v1)"
  have f: "?f = vlog_image es0 @ ?t @ vlog_entry k2 v2 @ ys" "vl_end vl3 = length ?f" "off2 = length (vlog_image es0 @ ?t)"
    using b c assms(7) fd j ok1 by (simp_all add: vlog_ok_def)
  have e: "entry_at_off ?f off2 k2 v2" unfolding entry_at_off_def f(1,3) by (intro exI [of _ "vlog_image es0 @ ?t"] exI [of _ ys]) simp
  have sz: "off2 < 2 ^ 64" using assms(10) f by simp
  show "fst (ReadValue (of_nat off2) (of_nat (length v2)) vl3 w3) = Inr v2"
    using ReadValue_entry [OF e [folded c(2)] assms(14,15) sz f(2) [folded c(2)] surjective_pairing] assms(11) by blast
  have "vlog_entry k1 v1 = vlog_header k1 v1 @ k1 @ v1" by (simp add: vlog_entry_def vlog_header_def vlog_body_def)
  then have h: "take 12 (?t @ Y) = vlog_header k1 v1" for Y using jl by (simp add: vlog_header_fields)
  have i: "inodes w3 (vl_fd vl3) = [] @ vlog_image es0 @ ?t @ vlog_entry k2 v2 @ ys" using f(1) c(2) by simp
  have short: "vl_end vl3 < length (vlog_image es0) + length (vlog_entry k1 v1)" using assms(1,9) by (simp add: vlog_holds_def)
  have "\<exists>w2. scan_loop (vl_fd vl3) (vl_end vl3) (length ([] :: bytes)) w3 = (Some (Ok, takeWhile (below (vl_end vl3)) (scan_list (length ([] :: bytes)) es0)), w2)"
  proof (rule scan_whole [OF i assms(2,11)])
    fix w' assume q: "quiet w'" "inodes w' (vl_fd vl3) = [] @ vlog_image es0 @ ?t @ vlog_entry k2 v2 @ ys"
    show "\<exists>w2. scan_loop (vl_fd vl3) (vl_end vl3) (length ([] :: bytes) + length (vlog_image es0)) w' = (Some (Ok, []), w2)"
      by (rule scan_stop [OF q(1) _ assms(12,13)]) (use short q(2) h in simp_all)
  qed
  then obtain w4 where s: "scan_loop (vl_fd vl3) (vl_end vl3) 0 w3 = (Some (Ok, takeWhile (below (vl_end vl3)) (scan_list 0 es0)), w4)" by auto
  have le: "0 + length (vlog_image es0) \<le> vl_end vl3" using f by simp
  have "takeWhile (below (vl_end vl3)) (scan_list 0 es0) = scan_list 0 es0"
    unfolding takeWhile_eq_all_conv using order_trans [OF scan_list_ends [of _ _ _ 0 es0]] le by (auto simp del: length_vlog_entry)
  then show "fst (ScanEntries (vl_end vl3) vl3 w3) = Some (Ok, scan_list 0 es0)" using s by (simp add: ScanEntries_def)
qed

theorem vlog_scan_stops_at_tear_witness:
  "\<exists>s1 off1 n1 vl1 w1 s2 off2 n2 vl2 w2.
     VLog_Append [1] (replicate 64 0) \<lparr>vl_fd = 3, vl_number = 1, vl_end = 0\<rparr> (empty_world [Partial 12, Fail []]) = (s1, off1, n1, vl1, w1) \<and> \<not> ok s1 \<and>
     VLog_Append [2] [9] vl1 w1 = (s2, off2, n2, vl2, w2) \<and> ok s2 \<and>
     fst (ReadValue (of_nat off2) 1 vl2 w2) = Inr [9] \<and> fst (ScanEntries (vl_end vl2) vl2 w2) = Some (Ok, [])"
proof -
  let ?w = "empty_world [Partial 12, Fail []]" and ?vl = "\<lparr>vl_fd = 3, vl_number = 1, vl_end = 0\<rparr>" and ?v = "replicate 64 (0 :: u8)"
  have ne: "drop 12 (vlog_entry [1] ?v) \<noteq> []" by (simp flip: length_0_conv)
  obtain s1 off1 n1 vl1 w1 where a: "VLog_Append [1] ?v ?vl ?w = (s1, off1, n1, vl1, w1)" by (metis prod_cases5)
  have a': "\<not> ok s1" "vl1 = ?vl\<lparr>vl_end := 12\<rparr>" "sys w1 = []" "\<not> dead w1"
    using a ne by (auto simp: VLog_Append_def Let_def write_loop.simps ask_def empty_world_def set_inode_def)
  obtain s2 off2 n2 vl2 w2 where b: "VLog_Append [2] [9] vl1 w1 = (s2, off2, n2, vl2, w2)" by (metis prod_cases5)
  have b': "ok s2" "vl_end vl2 = 26" "quiet w2"
    using b a' by (auto simp: VLog_Append_def Let_def write_loop.simps ask_def quiet_def set_inode_def)
  have h: "vlog_holds [] ?vl ?w" "vl_end ?vl + 12 \<le> vl_end vl1" "vl_end vl2 < vl_end ?vl + length (vlog_entry [1] ?v)" "vl_end vl2 < 2 ^ 64"
    "length [1 :: u8] < 2 ^ 32" "length ?v < 2 ^ 32" "length [2 :: u8] < 2 ^ 32" "length [9 :: u8] < 2 ^ 32"
    "\<forall>(k, v)\<in>set []. length k + length v < 2 ^ 32" "vlog_appends [] vl2 w2 = (vl2, w2)"
    using a' b' by (simp_all add: vlog_holds_def empty_world_def)
  note t = vlog_scan_stops_at_tear [OF h(1,9) a a'(1) h(2) b b'(1) h(10,3,4) b'(3) h(5-8)]
  show ?thesis using a b a'(1) b'(1) t by (intro exI conjI) (assumption | simp)+
qed

text \<open>
  C31: the 21-byte encoding of value pointers is exact in both directions: decoding
  gives back the pointer that was encoded, and the only strings that decode are encodings.
\<close>

theorem value_pointer_exact:
  "DecodeValuePointer s = Some p \<longleftrightarrow> s = EncodeValuePointer p"
  using Decode_Encode_pointer Encode_Decode_pointer by blast

end
