(* ===== verification/Manifest.thy ===== *)
theory Manifest
  imports WalCorrect SSTable VLog
begin

text \<open>
  The MANIFEST (\<^verbatim>\<open>ParseFileMetaRecord\<close>, \<^verbatim>\<open>ParseManifest\<close> and
  \<^verbatim>\<open>DB::WriteManifest\<close> in \<^verbatim>\<open>src/db.cpp\<close>): its records, the parser over the log
  reader, and the write to a temporary file, fsync, rename and directory fsync that publishes
  it. Reading inverts writing, and whatever the kernel answers, a power cut at any moment
  leaves the old or the new MANIFEST.
\<close>

subsection \<open>The log over a descriptor\<close>

text \<open>\<^verbatim>\<open>log::Writer::AddRecord\<close> on a descriptor of the file system.\<close>

definition fd_AddRecord :: "nat \<Rightarrow> bytes \<Rightarrow> nat \<Rightarrow> World \<Rightarrow> Status \<times> nat \<times> World" where
  "fd_AddRecord fd payload off w =
     (let buf = EncodeRecord payload off
      in case write_loop fd buf w of
           (Some e, w') \<Rightarrow> (IOError (str ''WAL write failed: '' @ e), off, w')
         | (None, w') \<Rightarrow> (Ok, off + length buf, w'))"

text \<open>The answers of the kernel as the reader of the log sees them, and what is left of them.\<close>

fun rd_of :: "ans \<Rightarrow> rd" where
  "rd_of Done = Got kBlockSize"
| "rd_of (Partial k) = Got k"
| "rd_of Eintr = REintr"
| "rd_of (Fail e) = RErr"
| "rd_of Cut = RErr"

definition fd_reader :: "nat \<Rightarrow> World \<Rightarrow> Reader" where
  "fd_reader fd w = open_reader (if dead w then [RErr] else map rd_of (sys w)) (inodes w fd)"

definition reader_done :: "Reader \<Rightarrow> World \<Rightarrow> World" where
  "reader_done r w = (if dead w then w
     else let n = length (sys w) - length (answers r)
          in w\<lparr>sys := drop n (sys w), dead := Cut \<in> set (take n (sys w))\<rparr>)"

subsection \<open>Records\<close>

definition kMaxLevels :: nat where "kMaxLevels = 7"
definition kManifestTagSstFile :: u8 where "kManifestTagSstFile = 1"
definition kManifestTagLogNumber :: u8 where "kManifestTagLogNumber = 2"
definition kManifestTagVlogFile :: u8 where "kManifestTagVlogFile = 3"

lemmas manifest_tags = kManifestTagSstFile_def kManifestTagLogNumber_def kManifestTagVlogFile_def

record ManifestState =
  ms_files :: "FileMeta list"
  ms_vlogs :: "u64 list"
  ms_log_number :: u64
  has_log_number :: bool

definition NewManifestState :: ManifestState where
  "NewManifestState = \<lparr>ms_files = [], ms_vlogs = [], ms_log_number = 0, has_log_number = False\<rparr>"

definition ParseFileMetaRecord :: "bytes \<Rightarrow> FileMeta option" where
  "ParseFileMetaRecord r =
     (let kFixed = 1 + 8 + 4 + 8 + 8 + 8 + 8 + 4
      in if length r < kFixed + 4 then None
         else let slen = unat (GetFixed32 (drop 45 r)); pos = 49
              in if length r < pos + slen + 4 then None
                 else let skey = sub r pos slen; pos2 = pos + slen;
                          llen = unat (GetFixed32 (drop pos2 r)); pos3 = pos2 + 4
                      in if pos3 + llen \<noteq> length r then None
                         else Some \<lparr>file_number = GetFixed64 (drop 1 r), flevel = GetFixed32 (drop 9 r),
                                smallest_seq = GetFixed64 (drop 13 r), largest_seq = GetFixed64 (drop 21 r),
                                entry_count = GetFixed64 (drop 29 r), file_size = GetFixed64 (drop 37 r),
                                smallest_key = skey, largest_key = sub r pos3 llen\<rparr>)"

text \<open>One record of the loop of \<^verbatim>\<open>ParseManifest\<close>, with the last file and vLog numbers seen.\<close>

definition manifest_record :: "bytes \<Rightarrow> ManifestState \<times> u64 \<times> u64 \<Rightarrow> (ManifestState \<times> u64 \<times> u64) option" where
  "manifest_record rec = (\<lambda>(st, last_file, last_vlog).
     if rec = [] then None
     else if rec ! 0 = kManifestTagSstFile then
       (case ParseFileMetaRecord rec of
          None \<Rightarrow> None
        | Some m \<Rightarrow>
            if file_number m \<le> last_file \<or> unat (flevel m) \<ge> kMaxLevels then None
            else Some (st\<lparr>ms_files := ms_files st @ [m]\<rparr>, file_number m, last_vlog))
     else if rec ! 0 = kManifestTagLogNumber then
       (if length rec \<noteq> 9 then None
        else Some (st\<lparr>ms_log_number := GetFixed64 (drop 1 rec), has_log_number := True\<rparr>, last_file, last_vlog))
     else if rec ! 0 = kManifestTagVlogFile then
       (if length rec \<noteq> 9 then None
        else let n = GetFixed64 (drop 1 rec)
             in if n \<le> last_vlog then None
                else Some (st\<lparr>ms_vlogs := ms_vlogs st @ [n]\<rparr>, last_file, n))
     else None)"

function manifest_loop :: "Reader \<Rightarrow> ManifestState \<times> u64 \<times> u64 \<Rightarrow> ManifestState option \<times> Reader" where
  "manifest_loop r st = (case ReadRecord r of
      (RecEof, r1) \<Rightarrow> (Some (fst st), r1)
    | (RecCorrupt off, r1) \<Rightarrow> (None, r1)
    | (RecOk rec, r1) \<Rightarrow>
        (case manifest_record rec st of
           None \<Rightarrow> (None, r1)
         | Some st' \<Rightarrow> manifest_loop r1 st'))"
  by pat_completeness auto
termination by (relation "measure (\<lambda>(r, st). reader_left r)") (auto dest!: ReadRecord_left [OF sym])

declare manifest_loop.simps [simp del]

text \<open>\<open>None\<close> when the source returns false.\<close>

definition ParseManifest :: "path \<Rightarrow> World \<Rightarrow> ManifestState option \<times> World" where
  "ParseManifest p w = (case names w p of
      None \<Rightarrow> (None, w)
    | Some fd \<Rightarrow>
        (case call w (\<lambda>w. ((), w)) of
           (Inl e, w1) \<Rightarrow> (None, w1)
         | (Inr _, w1) \<Rightarrow>
             (case manifest_loop (fd_reader fd w1) (NewManifestState, 0, 0) of
                (res, r) \<Rightarrow> (res, reader_done r w1))))"

subsection \<open>Writing\<close>

definition file_meta_record :: "FileMeta \<Rightarrow> bytes" where
  "file_meta_record m =
     [kManifestTagSstFile] @ PutFixed64 (file_number m) @ PutFixed32 (flevel m) @ PutFixed64 (smallest_seq m) @
     PutFixed64 (largest_seq m) @ PutFixed64 (entry_count m) @ PutFixed64 (file_size m) @
     PutFixed32 (of_nat (length (smallest_key m))) @ smallest_key m @
     PutFixed32 (of_nat (length (largest_key m))) @ largest_key m"

text \<open>The records in the order they are added: tables by file number, vLogs ascending, the log number.\<close>

definition manifest_payloads :: "FileMeta list \<Rightarrow> u64 list \<Rightarrow> u64 \<Rightarrow> bytes list" where
  "manifest_payloads refs vlogs log_number =
     map file_meta_record (sort_key file_number refs) @
     map (\<lambda>n. [kManifestTagVlogFile] @ PutFixed64 n) vlogs @
     [[kManifestTagLogNumber] @ PutFixed64 log_number]"

fun add_payloads :: "nat \<Rightarrow> bytes list \<Rightarrow> nat \<Rightarrow> World \<Rightarrow> Status \<times> World" where
  "add_payloads fd [] off w = (Ok, w)"
| "add_payloads fd (p # ps) off w = (case fd_AddRecord fd p off w of
      (s, off', w') \<Rightarrow> if ok s then add_payloads fd ps off' w' else (s, w'))"

definition kManifestFileName :: bytes where "kManifestFileName = str ''MANIFEST''"
definition kManifestTmpFileName :: bytes where "kManifestTmpFileName = str ''MANIFEST.tmp''"

definition ManifestPath :: "path \<Rightarrow> path" where
  "ManifestPath dir = dir @ str ''/'' @ kManifestFileName"

definition publish_manifest :: "path \<Rightarrow> FileMeta list \<Rightarrow> u64 list \<Rightarrow> u64 \<Rightarrow> World \<Rightarrow> Status \<times> World" where
  "publish_manifest dir refs vlogs log_number w =
     (let tmp = dir @ str ''/'' @ kManifestTmpFileName
      in case open_trunc tmp w of
           (Inl e, w1) \<Rightarrow> (IOError (str ''cannot create '' @ tmp @ str '': '' @ e), w1)
         | (Inr fd, w1) \<Rightarrow>
             (case add_payloads fd (manifest_payloads refs vlogs log_number) 0 w1 of
                (s, w2) \<Rightarrow>
                  (case (if ok s
                         then (case fsync fd w2 of
                                 (Inl e, w') \<Rightarrow> (IOError (str ''fsync MANIFEST.tmp failed: '' @ e), w')
                               | (Inr _, w') \<Rightarrow> (Ok, w'))
                         else (s, w2)) of
                     (result, w3) \<Rightarrow>
                       if \<not> ok result then (result, unlink tmp w3)
                       else (case rename tmp (ManifestPath dir) w3 of
                               (Inl e, w4) \<Rightarrow> (IOError (str ''rename MANIFEST failed: '' @ e), w4)
                             | (Inr _, w4) \<Rightarrow> SyncDir dir w4))))"

subsection \<open>Reading what was written\<close>

definition meta_fits :: "FileMeta \<Rightarrow> bool" where
  "meta_fits m \<longleftrightarrow> unat (flevel m) < kMaxLevels \<and> length (smallest_key m) < 2 ^ 32 \<and> length (largest_key m) < 2 ^ 32"

text \<open>
  What the database keeps of its file list: file numbers are positive and distinct, vLog
  numbers positive and ascending, levels in range and keys short enough for their length field.
\<close>

definition manifest_fits :: "FileMeta list \<Rightarrow> u64 list \<Rightarrow> bool" where
  "manifest_fits refs vlogs \<longleftrightarrow> list_all meta_fits refs \<and> distinct (map file_number refs)
     \<and> 0 \<notin> set (map file_number refs) \<and> sorted_wrt (<) (0 # vlogs)"

lemma ParseFileMetaRecord_file_meta_record:
  assumes "meta_fits m"
  shows "ParseFileMetaRecord (file_meta_record m) = Some m"
proof -
  have n: "unat (of_nat (length (smallest_key m)) :: u32) = length (smallest_key m)"
    "unat (of_nat (length (largest_key m)) :: u32) = length (largest_key m)"
    using assms by (simp_all add: meta_fits_def unat_of_nat_u32)
  have d: "drop 49 (file_meta_record m) = smallest_key m @ PutFixed32 (of_nat (length (largest_key m))) @ largest_key m"
    by (simp add: file_meta_record_def)
  have d1: "drop (49 + length (smallest_key m)) (file_meta_record m) = PutFixed32 (of_nat (length (largest_key m))) @ largest_key m"
    by (simp only: add.commute [of 49] drop_drop [symmetric] d) simp
  have d2: "drop (53 + length (smallest_key m)) (file_meta_record m) = largest_key m"
    using arg_cong [OF d1, of "drop 4"] by (simp add: add.commute)
  have l: "length (file_meta_record m) = 53 + length (smallest_key m) + length (largest_key m)"
    by (simp add: file_meta_record_def)
  have g: "GetFixed64 (drop 1 (file_meta_record m)) = file_number m" "GetFixed32 (drop 9 (file_meta_record m)) = flevel m"
    "GetFixed64 (drop 13 (file_meta_record m)) = smallest_seq m" "GetFixed64 (drop 21 (file_meta_record m)) = largest_seq m"
    "GetFixed64 (drop 29 (file_meta_record m)) = entry_count m" "GetFixed64 (drop 37 (file_meta_record m)) = file_size m"
    "GetFixed32 (drop 45 (file_meta_record m)) = of_nat (length (smallest_key m))"
    by (simp_all add: file_meta_record_def)
  show ?thesis
    by (simp add: ParseFileMetaRecord_def Let_def n sub_def g g(1) [unfolded One_nat_def] d d1 d2 l)
qed

fun manifest_records :: "bytes list \<Rightarrow> ManifestState \<times> u64 \<times> u64 \<Rightarrow> (ManifestState \<times> u64 \<times> u64) option" where
  "manifest_records [] st = Some st"
| "manifest_records (p # ps) st = (case manifest_record p st of None \<Rightarrow> None | Some st' \<Rightarrow> manifest_records ps st')"

lemma manifest_records_append:
  "manifest_records (ps @ qs) st = (case manifest_records ps st of None \<Rightarrow> None | Some st' \<Rightarrow> manifest_records qs st')"
  by (induction ps arbitrary: st) (simp_all split: option.splits)

lemma manifest_loop_read_all:
  "read_all r = (ps, RecEof, r') \<Longrightarrow>
     (case manifest_records ps st of
        Some st' \<Rightarrow> manifest_loop r st = (Some (fst st'), r')
      | None \<Rightarrow> fst (manifest_loop r st) = None)"
proof (induction r st arbitrary: ps rule: manifest_loop.induct)
  case (1 r st)
  obtain x r1 where rr: "ReadRecord r = (x, r1)" by (metis surj_pair)
  show ?case
  proof (cases x)
    case (RecOk p)
    obtain qs y r2 where ra: "read_all r1 = (qs, y, r2)" by (metis prod_cases3)
    with "1.prems" rr RecOk have ps: "ps = p # qs" "read_all r1 = (qs, RecEof, r')"
      by (auto simp: read_all.simps [of r])
    show ?thesis
    proof (cases "manifest_record p st")
      case (Some st')
      then have "manifest_loop r st = manifest_loop r1 st'" using rr RecOk by (simp add: manifest_loop.simps [of r])
      with "1.IH" [OF rr [symmetric] RecOk Some ps(2)] show ?thesis by (simp only: ps manifest_records.simps Some option.case)
    qed (use rr RecOk ps in \<open>simp add: manifest_loop.simps [of r]\<close>)
  qed (use "1.prems" rr in \<open>auto simp: read_all.simps [of r] manifest_loop.simps [of r]\<close>)
qed

lemma manifest_records_files:
  assumes "list_all meta_fits ms" and "sorted_wrt (<) (last_file # map file_number ms)"
  shows "\<exists>lf. manifest_records (map file_meta_record ms) (st, last_file, last_vlog) =
           Some (st\<lparr>ms_files := ms_files st @ ms\<rparr>, lf, last_vlog)"
  using assms
proof (induction ms arbitrary: st last_file)
  case (Cons m ms)
  have "manifest_record (file_meta_record m) (st, last_file, last_vlog) =
      Some (st\<lparr>ms_files := ms_files st @ [m]\<rparr>, file_number m, last_vlog)"
    using Cons.prems ParseFileMetaRecord_file_meta_record [of m]
    by (auto simp: manifest_record_def file_meta_record_def meta_fits_def)
  with Cons.IH [of "file_number m" "st\<lparr>ms_files := ms_files st @ [m]\<rparr>"] Cons.prems show ?case by simp
qed simp

lemma manifest_records_vlogs:
  assumes "sorted_wrt (<) (last_vlog # vs)"
  shows "\<exists>lv. manifest_records (map (\<lambda>n. [kManifestTagVlogFile] @ PutFixed64 n) vs) (st, last_file, last_vlog) =
           Some (st\<lparr>ms_vlogs := ms_vlogs st @ vs\<rparr>, last_file, lv)"
  using assms
proof (induction vs arbitrary: st last_vlog)
  case (Cons n vs)
  have "manifest_record ([kManifestTagVlogFile] @ PutFixed64 n) (st, last_file, last_vlog) =
      Some (st\<lparr>ms_vlogs := ms_vlogs st @ [n]\<rparr>, last_file, n)"
    using Cons.prems by (auto simp: manifest_record_def manifest_tags Let_def)
  with Cons.IH [of n "st\<lparr>ms_vlogs := ms_vlogs st @ [n]\<rparr>"] Cons.prems show ?case by simp
qed simp

definition manifest_of :: "FileMeta list \<Rightarrow> u64 list \<Rightarrow> u64 \<Rightarrow> ManifestState" where
  "manifest_of refs vlogs log_number =
     \<lparr>ms_files = sort_key file_number refs, ms_vlogs = vlogs, ms_log_number = log_number, has_log_number = True\<rparr>"

lemma sorted_distinct_less:
  fixes x :: "'a :: linorder"
  assumes "distinct xs" and "\<forall>y\<in>set xs. x < y" and "sorted xs"
  shows "sorted_wrt (<) (x # xs)"
  using assms by (simp add: strict_sorted_iff)

lemma manifest_records_payloads:
  assumes "manifest_fits refs vlogs"
  shows "\<exists>lf lv. manifest_records (manifest_payloads refs vlogs log_number) (NewManifestState, 0, 0) =
           Some (manifest_of refs vlogs log_number, lf, lv)"
proof -
  let ?ms = "sort_key file_number refs"
  have "list_all meta_fits ?ms" using assms by (simp add: manifest_fits_def list_all_iff)
  moreover have "sorted_wrt (<) (0 # map file_number ?ms)"
  proof (rule sorted_distinct_less)
    show "distinct (map file_number ?ms)" using assms by (simp add: manifest_fits_def distinct_map)
    show "\<forall>y\<in>set (map file_number ?ms). 0 < y" using assms by (auto simp: manifest_fits_def word_gt_0)
  qed simp
  ultimately obtain lf where f: "manifest_records (map file_meta_record ?ms) (NewManifestState, 0, 0) =
      Some (NewManifestState\<lparr>ms_files := ?ms\<rparr>, lf, 0)"
    using manifest_records_files [of ?ms 0 NewManifestState 0] by (auto simp: NewManifestState_def)
  have "sorted_wrt (<) (0 # vlogs)" using assms by (simp add: manifest_fits_def)
  from manifest_records_vlogs [OF this, of "NewManifestState\<lparr>ms_files := ?ms\<rparr>" lf]
  obtain lv where v: "manifest_records (map (\<lambda>n. [kManifestTagVlogFile] @ PutFixed64 n) vlogs)
      (NewManifestState\<lparr>ms_files := ?ms\<rparr>, lf, 0) = Some (NewManifestState\<lparr>ms_files := ?ms, ms_vlogs := vlogs\<rparr>, lf, lv)"
    by (auto simp: NewManifestState_def)
  show ?thesis unfolding manifest_payloads_def manifest_records_append f option.case v
    by (simp add: manifest_record_def manifest_tags manifest_of_def NewManifestState_def)
qed

lemma no_read_error_rd_of: "no_fail w \<Longrightarrow> no_read_error (map rd_of (sys w))"
proof -
  have "(case a of Done \<Rightarrow> True | Partial _ \<Rightarrow> True | _ \<Rightarrow> False) \<Longrightarrow> rd_of a \<noteq> RErr" for a by (cases a) auto
  then show "no_fail w \<Longrightarrow> ?thesis" by (fastforce simp: no_fail_def no_read_error_def list_all_iff)
qed

lemma ParseManifest_written:
  assumes "content w p = Some (enc_log 0 (manifest_payloads refs vlogs n))" and "no_fail w" and "manifest_fits refs vlogs"
  shows "fst (ParseManifest p w) = Some (manifest_of refs vlogs n)"
proof -
  obtain fd where fd: "names w p = Some fd" "inodes w fd = enc_log 0 (manifest_payloads refs vlogs n)"
    using assms(1) by (auto simp: content_def)
  obtain a w1 where a: "ask w = (a, w1)" by (metis surj_pair)
  note r = no_fail_ask [OF assms(2) a] and s = same_simps [OF ask_same [OF a]]
  have c: "call w (\<lambda>w. ((), w)) = (Inr (), w1)" using r a by (auto simp: call_def)
  have "fd_reader fd w1 = open_reader (map rd_of (sys w1)) (enc_log 0 (manifest_payloads refs vlogs n))"
    using r fd by (simp add: fd_reader_def no_fail_def s)
  with read_all_open_ex [OF no_read_error_rd_of log_at_enc_log] r obtain r'
    where "read_all (fd_reader fd w1) = (manifest_payloads refs vlogs n, RecEof, r')" by fastforce
  from manifest_loop_read_all [OF this, of "(NewManifestState, 0, 0)"] manifest_records_payloads [OF assms(3), of n]
  have "manifest_loop (fd_reader fd w1) (NewManifestState, 0, 0) = (Some (manifest_of refs vlogs n), r')" by auto
  then show ?thesis using fd c by (simp add: ParseManifest_def)
qed

subsection \<open>What publishing keeps\<close>

lemma fd_AddRecord_touch:
  assumes "fd_AddRecord fd p off w = (s, off', w')"
  shows "touch fd w w' \<and> (\<exists>k. inodes w' fd = inodes w fd @ take k (EncodeRecord p off))
    \<and> (ok s \<longrightarrow> inodes w' fd = inodes w fd @ EncodeRecord p off \<and> off' = off + length (EncodeRecord p off))"
proof -
  obtain r w1 where r: "write_loop fd (EncodeRecord p off) w = (r, w1)" by (metis surj_pair)
  with assms write_loop_touch [OF r] show ?thesis
    by (cases r) (auto simp: fd_AddRecord_def Let_def intro: exI [of _ "length (EncodeRecord p off)"])
qed

lemma add_payloads_touch:
  "add_payloads fd ps off w = (s, w') \<Longrightarrow>
     touch fd w w' \<and> (ok s \<longrightarrow> inodes w' fd = inodes w fd @ enc_log off ps)"
proof (induction ps arbitrary: off w)
  case (Cons p ps)
  obtain s1 off1 w1 where a: "fd_AddRecord fd p off w = (s1, off1, w1)" by (metis prod_cases3)
  note t = fd_AddRecord_touch [OF a]
  show ?case
  proof (cases "ok s1")
    case True
    with Cons.prems a have "add_payloads fd ps off1 w1 = (s, w')" by simp
    from Cons.IH [OF this] t True show ?thesis by (auto intro: touch_trans)
  qed (use Cons.prems a t in auto)
qed (simp add: touch_def)

lemma unlink_keeps:
  assumes "world_ok w" and "unlink p w = w'"
  shows "world_ok w' \<and> (q \<noteq> p \<longrightarrow> durable w q D \<longrightarrow> durable w' q D)
    \<and> (not_named w q i \<longrightarrow> not_named w' q i) \<and> (\<forall>i. names w' p = Some i \<longrightarrow> names w p = Some i)
    \<and> (\<forall>q. q \<noteq> p \<longrightarrow> names w' q = names w q)"
proof -
  have step: "world_ok v \<and> (q \<noteq> p \<longrightarrow> durable w q D \<longrightarrow> durable v q D) \<and> (not_named w q i \<longrightarrow> not_named v q i)"
    if "v = set_names ((names u)(p := None)) u" and "same w u" for u v
  proof -
    note s = same_simps [OF \<open>same w u\<close>]
    have nm: "names w \<in> set (pend w)" using assms(1) by (simp add: world_ok_def)
    have v: "pend v = pend w @ [names v]" "names v = (names w)(p := None)" "inodes v = inodes w" "clean v = clean w"
      "fresh_ino v = fresh_ino w" using that(1) s by (simp_all add: set_names_def)
    have "world_ok v" using assms(1) nm by (fastforce simp: world_ok_def v split: if_splits)
    moreover have "durable v q D" if "q \<noteq> p" "durable w q D"
      using that nm by (auto simp: durable_def v)
    moreover have "not_named v q i" if "not_named w q i"
      using that nm by (auto simp: not_named_def v)
    ultimately show ?thesis by blast
  qed
  show ?thesis
  proof (cases rule: call_cases [of w "\<lambda>w. ((), if names w p = None then w else set_names ((names w)(p := None)) w)"])
    case (1 e u)
    then show ?thesis using assms by (auto simp: unlink_def same_pred same_simps not_named_def)
  next
    case (2 u)
    then have w': "w' = (if names u p = None then u else set_names ((names u)(p := None)) u)"
      using assms(2) by (simp add: unlink_def)
    show ?thesis
    proof (cases "names u p = None")
      case True
      then show ?thesis using w' 2(2) assms(1) by (auto simp: same_pred same_simps not_named_def)
    next
      case False
      then have w2: "w' = set_names ((names u)(p := None)) u" unfolding w' by (rule if_not_P)
      from step [OF this 2(2)] w2 same_simps [OF 2(2)] show ?thesis by (simp add: set_names_def)
    qed
  qed
qed

lemma rename_keeps:
  assumes "rename a b w = (r, w')" and "world_ok w" and "names w a = Some i" and "a \<noteq> b"
  shows "world_ok w' \<and> inodes w' = inodes w \<and> clean w' = clean w \<and> (durable w b D \<longrightarrow> clean w i \<longrightarrow> durable w' b (insert (inodes w i) D))
    \<and> (r = Inr u \<longrightarrow> names w' b = Some i \<and> names w' a = None) \<and> ((\<forall>u. r \<noteq> Inr u) \<longrightarrow> same w w')
    \<and> (q \<noteq> a \<longrightarrow> q \<noteq> b \<longrightarrow> (durable w q E \<longrightarrow> durable w' q E) \<and> names w' q = names w q)"
proof (cases rule: call_cases [of w "\<lambda>w. ((), set_names ((names w)(a := None, b \<mapsto> i)) w)"])
  case (1 e w1)
  then show ?thesis using assms durable_mono [of w b D "insert (inodes w i) D"]
    by (auto simp: rename_def same_pred same_simps)
next
  case (2 u1)
  note s = same_simps [OF 2(2)]
  have nm: "names w \<in> set (pend w)" using assms(2) by (simp add: world_ok_def)
  have v: "r = Inr ()" "pend w' = pend w @ [names w']" "names w' = (names w)(a := None, b \<mapsto> i)" "inodes w' = inodes w" "clean w' = clean w"
      "fresh_ino w' = fresh_ino w" using assms(1,3) 2 s by (auto simp: rename_def set_names_def)
  have inj: "p = a" if "names w p = Some i" for p using that assms(2,3) by (auto simp: world_ok_def)
  have "names w' p = Some j \<Longrightarrow> j < fresh_ino w" for p j
    using assms(2,3) nm by (auto simp: world_ok_def v split: if_splits)
  moreover have "names w' p = Some j \<Longrightarrow> names w' p2 = Some j \<Longrightarrow> p = p2" for p p2 j
    using assms(2) inj by (auto simp: world_ok_def v split: if_splits)
  ultimately have "world_ok w'" using assms(2) unfolding world_ok_def v(2,6) by auto
  moreover have "durable w' b (insert (inodes w i) D)" if "durable w b D" "clean w i"
    using that assms(4) by (auto simp: durable_def v)
  moreover have "durable w' q E" if "q \<noteq> a" "q \<noteq> b" "durable w q E"
    using that nm by (auto simp: durable_def v)
  ultimately show ?thesis using v assms(4) by auto
qed

lemma ParentDir_join:
  assumes "dir \<noteq> []" and "0x2F \<notin> set name"
  shows "ParentDir (dir @ 0x2F # name) = dir"
proof -
  have n: "rfind 0x2F name = None" using assms(2) by (induction name) auto
  have "rfind 0x2F (dir @ 0x2F # name) = Some (length dir)" by (induction dir) (simp_all add: n)
  then show ?thesis using assms(1) by (simp add: ParentDir_def sub_def)
qed

text \<open>
  The state of the directory between two calls: the temporary name, if it is left over from
  an earlier failure, is not an inode that any directory the disk may come back with calls
  the MANIFEST.
\<close>

definition tmp_apart :: "path \<Rightarrow> World \<Rightarrow> bool" where
  "tmp_apart dir w \<longleftrightarrow> world_ok w \<and>
     (\<forall>i. names w (dir @ str ''/'' @ kManifestTmpFileName) = Some i \<longrightarrow> not_named w (ManifestPath dir) i)"

lemma SyncDir_tmp_apart:
  assumes "SyncDir dir w = (s, w')" and "world_ok w" and "names w (dir @ str ''/'' @ kManifestTmpFileName) = None"
  shows "tmp_apart dir w'"
  using SyncDir_keeps [OF assms(1,2)] assms(3) by (simp add: tmp_apart_def)

lemma manifest_paths:
  "dir @ str ''/'' @ kManifestTmpFileName \<noteq> ManifestPath dir"
  "dir \<noteq> [] \<Longrightarrow> ParentDir (ManifestPath dir) = dir"
  using ParentDir_join [of dir kManifestFileName]
  by (simp_all add: ManifestPath_def kManifestFileName_def kManifestTmpFileName_def)

text \<open>The temporary file written and synced.\<close>

lemma write_tmp:
  assumes "open_trunc tmp w = (Inr fd, w1)" and "add_payloads fd ps 0 w1 = (s, w2)"
    and "world_ok w" and nn: "\<And>i. names w tmp = Some i \<Longrightarrow> not_named w q i" and "q \<noteq> tmp" and "durable w q D"
  shows "world_ok w2 \<and> names w2 tmp = Some fd \<and> durable w2 q D \<and> not_named w2 q fd \<and> (ok s \<longrightarrow> inodes w2 fd = enc_log 0 ps)"
proof -
  note o = open_trunc_named [OF assms(1,3)] and k = open_trunc_keeps [OF assms(1,3) nn assms(5,6)]
    and t = add_payloads_touch [OF assms(2)]
  then show ?thesis using touch_ok touch_durable [of fd w1 w2 q D] touch_not_named [of fd w1 w2]
    by (auto simp: touch_def)
qed

lemma publish_cases:
  assumes p: "publish_manifest dir refs vlogs n w = (s, w')" and t: "tmp_apart dir w" and d: "durable w (ManifestPath dir) D"
    and ne: "dir \<noteq> []"
  defines "new \<equiv> enc_log 0 (manifest_payloads refs vlogs n)"
  shows "tmp_apart dir w' \<and> durable w' (ManifestPath dir) (insert new D)
    \<and> (ok s \<longrightarrow> durable w' (ManifestPath dir) {new} \<and> content w' (ManifestPath dir) = Some new)"
proof -
  define tmp where "tmp = dir @ str ''/'' @ kManifestTmpFileName"
  let ?m = "ManifestPath dir"
  note pt = manifest_paths [of dir, folded tmp_def] and pd = manifest_paths(2) [OF ne]
  have w: "world_ok w" "\<And>i. names w tmp = Some i \<Longrightarrow> not_named w ?m i" using t by (simp_all add: tmp_apart_def tmp_def)
  obtain r1 w1 where 1: "open_trunc tmp w = (r1, w1)" by (metis surj_pair)
  show ?thesis
  proof (cases r1)
    case (Inl e)
    have "same w w1" using 1 Inl by (cases rule: open_trunc_cases) auto
    moreover have "w' = w1" "\<not> ok s" using p 1 Inl by (auto simp: publish_manifest_def tmp_def)
    ultimately show ?thesis using t d durable_mono [OF d, of "insert new D"]
      by (auto simp: tmp_apart_def same_pred same_simps not_named_def)
  next
    case (Inr fd)
    obtain s2 w2 where 2: "add_payloads fd (manifest_payloads refs vlogs n) 0 w1 = (s2, w2)" by (metis surj_pair)
    note t2 = write_tmp [OF 1 [unfolded Inr] 2 w pt(1) [symmetric] d, folded new_def]
    obtain r3 w3 where 3: "fsync fd w2 = (r3, w3)" by (metis surj_pair)
    note f3 = fsync_touch [OF 3]
    have t3: "world_ok w3" "names w3 tmp = Some fd" "durable w3 ?m D" "not_named w3 ?m fd"
      using t2 f3 touch_ok touch_durable [of fd w2 w3 ?m D] touch_not_named [of fd w2 w3] by (auto simp: touch_def)
    have unl: ?thesis if "w' = unlink tmp v" "\<not> ok s" "world_ok v" "names v tmp = Some fd" "durable v ?m D" "not_named v ?m fd" for v
      using unlink_keeps [OF that(3) that(1) [symmetric], of ?m D fd] that(2-6) pt(1) durable_mono [of w' ?m D "insert new D"]
      by (auto simp: tmp_apart_def tmp_def)
    show ?thesis
    proof (cases "ok s2 \<and> (\<exists>x. r3 = Inr x)")
      case False
      then have "(w' = unlink tmp w2 \<or> w' = unlink tmp w3) \<and> \<not> ok s" using p 1 Inr 2 3
        by (auto simp: publish_manifest_def tmp_def Let_def split: sum.splits if_splits)
      then show ?thesis using unl t2 t3 by blast
    next
      case True
      then have c: "clean w3 fd" "inodes w3 fd = new" using t2 f3 by auto
      obtain r4 w4 where 4: "rename tmp ?m w3 = (r4, w4)" by (metis surj_pair)
      note k4 = rename_keeps [OF 4 t3(1,2) pt(1), where D = D, unfolded c(2)]
      show ?thesis
      proof (cases r4)
        case (Inl e)
        then have "w' = w4" "\<not> ok s" using p 1 \<open>r1 = Inr fd\<close> 2 3 4 True by (auto simp: publish_manifest_def tmp_def)
        moreover have "same w3 w4" using k4 Inl by blast
        ultimately show ?thesis using k4 c t3 by (auto simp: tmp_apart_def tmp_def same_simps not_named_def)
      next
        case (Inr u)
        then have sd: "SyncDir dir w4 = (s, w')" using p 1 \<open>r1 = Inr fd\<close> 2 3 4 True by (auto simp: publish_manifest_def tmp_def)
        have n4: "world_ok w4" "names w4 ?m = Some fd" "names w4 tmp = None" "clean w4 fd" "inodes w4 fd = new" "durable w4 ?m (insert new D)"
          using k4 Inr c t3 by auto
        show ?thesis using SyncDir_keeps [OF sd n4(1), where p = ?m and i = fd and q = ?m and D = "insert new D"] pd n4
          SyncDir_tmp_apart [OF sd n4(1) n4(3) [unfolded tmp_def]] by (auto simp: content_def)
      qed
    qed
  qed
qed

lemma no_fail_publish:
  assumes "no_fail w" and "world_ok w" and "publish_manifest dir refs vlogs n w = (s, w')"
  shows "ok s \<and> no_fail w'"
proof -
  define tmp where "tmp = dir @ str ''/'' @ kManifestTmpFileName"
  have add: "add_payloads fd ps off u = (s, u') \<Longrightarrow> no_fail u \<Longrightarrow> ok s \<and> no_fail u'" for fd ps off u s u'
  proof (induction ps arbitrary: off u)
    case (Cons p ps)
    obtain r u1 where "write_loop fd (EncodeRecord p off) u = (r, u1)" by (metis surj_pair)
    with no_fail_write_loop [OF Cons.prems(2) this] Cons show ?case by (auto simp: fd_AddRecord_def Let_def)
  qed simp
  obtain w1 fd where 1: "open_trunc tmp w = (Inr fd, w1)" "no_fail w1"
    using no_fail_call [OF assms(1), of "\<lambda>w. case names w tmp of Some i \<Rightarrow> (i, set_inode i [] w) | None \<Rightarrow> create_file tmp w"]
    by (auto simp: open_trunc_def create_file_def set_names_def no_fail_def set_inode_def split: option.splits)
  obtain s2 w2 where 2: "add_payloads fd (manifest_payloads refs vlogs n) 0 w1 = (s2, w2)" by (metis surj_pair)
  note a2 = add [OF 2 1(2)] and t2 = add_payloads_touch [OF 2] and o = open_trunc_named [OF 1(1) assms(2)]
  obtain w3 where 3: "fsync fd w2 = (Inr (), w3)" "no_fail w3"
    using no_fail_call [of w2 "\<lambda>w. ((), w\<lparr>clean := (clean w)(fd := True)\<rparr>)"] a2 by (auto simp: fsync_def no_fail_def)
  have n3: "names w3 tmp = Some fd" using o t2 fsync_touch [OF 3(1)] by (auto simp: touch_def)
  obtain w4 where 4: "rename tmp (ManifestPath dir) w3 = (Inr (), w4)" "no_fail w4"
    using no_fail_call [OF 3(2), of "\<lambda>w. ((), set_names ((names w)(tmp := None, ManifestPath dir \<mapsto> fd)) w)"] n3
    by (auto simp: rename_def no_fail_def set_names_def)
  obtain w5 where 5: "call w4 (\<lambda>w. ((), w)) = (Inr (), w5)" "no_fail w5" using no_fail_call [OF 4(2), of "\<lambda>w. ((), w)"] by auto
  have "publish_manifest dir refs vlogs n w = SyncDir dir w4"
    using 1 2 3 4 a2 by (simp add: publish_manifest_def tmp_def)
  then show ?thesis using assms(3) no_fail_call [OF 5(2), of "\<lambda>w. ((), sync_entries dir w)"] 5
    by (auto simp: SyncDir_def sync_entries_def no_fail_def)
qed

subsection \<open>Properties\<close>

text \<open>
  C8: whatever the kernel answers while the MANIFEST is rewritten (short writes, errors, a power
  cut at any call), after a power cut at the end of it the MANIFEST holds the old bytes or
  the complete new ones, and parses to the new file list, vLogs and log number in the
  latter case; once the write has reported success it is the new one; it does report
  success when no call fails; and the directory is fit for the next rewrite.
\<close>

theorem manifest_atomic:
  assumes "tmp_apart dir w" and "dir \<noteq> []" and "durable w (ManifestPath dir) {old}"
    and "publish_manifest dir refs vlogs n w = (s, w')" and "manifest_fits refs vlogs"
    and "crash w' v" and "no_fail v"
  shows "(content v (ManifestPath dir) = Some old \<and> \<not> ok s
        \<or> fst (ParseManifest (ManifestPath dir) v) = Some (manifest_of refs vlogs n))
    \<and> (no_fail w \<longrightarrow> ok s) \<and> tmp_apart dir w'"
proof -
  let ?new = "enc_log 0 (manifest_payloads refs vlogs n)"
  note c = publish_cases [OF assms(4,1,3,2)]
  have "content v (ManifestPath dir) = Some old \<and> \<not> ok s \<or> content v (ManifestPath dir) = Some ?new"
    using c durable_crash [of w' "ManifestPath dir" _ v] assms(6) by blast
  then show ?thesis using c ParseManifest_written [OF _ assms(7,5)] no_fail_publish [OF _ _ assms(4)] assms(1)
    by (auto simp: tmp_apart_def)
qed

definition manifest_world :: "ans list \<Rightarrow> World" where
  "manifest_world as = (empty_world as)\<lparr>inodes := (\<lambda>_. [7]), names := [ManifestPath (str ''d'') \<mapsto> 0],
     pend := [[ManifestPath (str ''d'') \<mapsto> 0]], fresh_ino := 1\<rparr>"

theorem manifest_atomic_witness:
  "let dir = str ''d''; m = NewFileMeta\<lparr>file_number := 5, smallest_key := [1], largest_key := [2, 3]\<rparr>;
       (s, w') = publish_manifest dir [m] [2, 4] 9 (manifest_world [Done, Partial 3, Cut]);
       v = w'\<lparr>dead := False, sys := [Partial 1]\<rparr>
   in (content v (ManifestPath dir) = Some [7] \<and> \<not> ok s
       \<or> fst (ParseManifest (ManifestPath dir) v) = Some (manifest_of [m] [2, 4] 9)) \<and> tmp_apart dir w'"
proof -
  let ?dir = "str ''d''" and ?w = "manifest_world [Done, Partial 3, Cut]"
  let ?m = "NewFileMeta\<lparr>file_number := 5, smallest_key := [1], largest_key := [2, 3]\<rparr>"
  obtain s w' where p: "publish_manifest ?dir [?m] [2, 4] 9 ?w = (s, w')" by (metis surj_pair)
  let ?v = "w'\<lparr>dead := False, sys := [Partial 1]\<rparr>"
  have h: "tmp_apart ?dir ?w" "?dir \<noteq> []" "durable ?w (ManifestPath ?dir) {[7]}"
    using manifest_paths(1) [of ?dir]
    by (auto simp: tmp_apart_def world_ok_def manifest_world_def empty_world_def durable_def split: if_splits)
  have f: "manifest_fits [?m] [2, 4]"
    by (simp add: manifest_fits_def meta_fits_def NewFileMeta_def kMaxLevels_def)
  have c: "crash w' ?v" "no_fail ?v"
    using publish_cases [OF p h(1,3,2)] by (simp_all add: crash_def tmp_apart_def world_ok_def no_fail_def)
  show ?thesis using manifest_atomic [OF h p f c] unfolding p Let_def prod.case by blast
qed

end
