(* ===== verification/Ring.thy ===== *)
theory Ring
  imports Fs
begin

text \<open>
  The io_uring ring (\<^verbatim>\<open>include/bedrockkv/ring.h\<close>, \<^verbatim>\<open>src/ring.cpp\<close>) with the kernel at
  the other end of it. Slots between the kernel's head and our tail are the list \<open>sq\<close>, what the
  kernel has taken and not completed is \<open>flight\<close>, completions not yet reaped are \<open>cq\<close>. An
  operation takes its answer from the file system when the kernel executes it, so a write
  may complete short or with an error. Completions may appear at any time: \<open>ring_complete\<close>
  is that event.
\<close>

datatype Op = OpWrite nat bytes nat | OpFsync nat

record Sqe =
  op_of :: Op
  user_data :: u64

record Ring =
  ring_entries :: nat
  outstanding :: nat
  sq_tail :: u32
  queued :: nat
  sq_head :: u32
  sq :: "Sqe list"
  flight :: "Sqe list"
  cq :: "(u64 \<times> (bytes + nat)) list"

text \<open>\<^verbatim>\<open>io_uring_setup\<close> and the mappings: the one call that may fail.\<close>

definition Ring_Open :: "nat \<Rightarrow> World \<Rightarrow> (Status + Ring) \<times> World" where
  "Ring_Open n w = (case call w (\<lambda>w. ((), w)) of
      (Inl e, w1) \<Rightarrow> (Inl (IOError (str ''io_uring_setup failed: '' @ e)), w1)
    | (Inr _, w1) \<Rightarrow>
        (case call w1 (\<lambda>w. ((), w)) of
           (Inl e, w2) \<Rightarrow> (Inl (IOError (str ''io_uring mmap failed: '' @ e)), w2)
         | (Inr _, w2) \<Rightarrow>
             (Inr \<lparr>ring_entries = n, outstanding = 0, sq_tail = 0, queued = 0, sq_head = 0, sq = [], flight = [], cq = []\<rparr>, w2)))"

definition queue_op :: "Op \<Rightarrow> u64 \<Rightarrow> Ring \<Rightarrow> bool \<times> Ring" where
  "queue_op x ud r =
     (if unat (sq_tail r - sq_head r) \<ge> ring_entries r then (False, r)
      else (True, r\<lparr>sq := sq r @ [\<lparr>op_of = x, user_data = ud\<rparr>], sq_tail := sq_tail r + 1, queued := queued r + 1\<rparr>))"

text \<open>The length field of a submission has 32 bits.\<close>

definition QueueWrite :: "nat \<Rightarrow> bytes \<Rightarrow> nat \<Rightarrow> u64 \<Rightarrow> Ring \<Rightarrow> bool \<times> Ring" where
  "QueueWrite fd buf off ud r = queue_op (OpWrite fd (take (unat (of_nat (length buf) :: u32)) buf) off) ud r"

definition QueueFsync :: "nat \<Rightarrow> u64 \<Rightarrow> Ring \<Rightarrow> bool \<times> Ring" where
  "QueueFsync fd ud r = queue_op (OpFsync fd) ud r"

subsection \<open>The kernel\<close>

text \<open>A write at an explicit offset; a gap is filled with zeros.\<close>

definition write_at :: "bytes \<Rightarrow> nat \<Rightarrow> bytes \<Rightarrow> bytes" where
  "write_at d off b = (if b = [] then d
     else take off (d @ replicate (off - length d) 0) @ b @ drop (off + length b) d)"

fun exec_op :: "Op \<Rightarrow> World \<Rightarrow> (bytes + nat) \<times> World" where
  "exec_op (OpWrite fd b off) w = (case ask w of
      (Fail e, w') \<Rightarrow> (Inl e, w')
    | (Eintr, w') \<Rightarrow> (Inl eintr_text, w')
    | (Partial k, w') \<Rightarrow> (Inr (length (take k b)), set_inode fd (write_at (inodes w' fd) off (take k b)) w')
    | (_, w') \<Rightarrow> (Inr (length b), set_inode fd (write_at (inodes w' fd) off b) w'))"
| "exec_op (OpFsync fd) w = (case fsync fd w of (Inl e, w') \<Rightarrow> (Inl e, w') | (Inr _, w') \<Rightarrow> (Inr 0, w'))"

definition ring_complete :: "nat \<Rightarrow> Ring \<Rightarrow> World \<Rightarrow> Ring \<times> World" where
  "ring_complete i r w =
     (if i < length (flight r) then
        (case exec_op (op_of (flight r ! i)) w of
           (res, w') \<Rightarrow> (r\<lparr>flight := take i (flight r) @ drop (Suc i) (flight r), cq := cq r @ [(user_data (flight r ! i), res)]\<rparr>, w'))
      else (r, w))"

fun run_flight :: "Sqe list \<Rightarrow> World \<Rightarrow> (u64 \<times> (bytes + nat)) list \<times> World" where
  "run_flight [] w = ([], w)"
| "run_flight (x # xs) w = (case exec_op (op_of x) w of
     (res, w1) \<Rightarrow> (case run_flight xs w1 of (cs, w2) \<Rightarrow> ((user_data x, res) # cs, w2)))"

text \<open>
  \<^verbatim>\<open>io_uring_enter\<close> under the \<^verbatim>\<open>EINTR\<close> loop of \<^verbatim>\<open>Flush\<close>. The kernel may take fewer submissions
  than asked and then returns without waiting; otherwise it waits until \<open>min_complete\<close>
  completions are there, forever if fewer are under way (\<open>None\<close>). The result is
  whether the return value was not negative (\<open>None\<close>), or the text of the error.
\<close>

definition take_sqes :: "nat \<Rightarrow> Ring \<Rightarrow> Ring" where
  "take_sqes n r = r\<lparr>flight := flight r @ take n (sq r), sq := drop n (sq r), sq_head := sq_head r + of_nat (min n (length (sq r)))\<rparr>"

definition wait_completions :: "nat \<Rightarrow> Ring \<Rightarrow> World \<Rightarrow> (Ring \<times> World) option" where
  "wait_completions m r w =
     (if m \<le> length (cq r) then Some (r, w)
      else if length (flight r) + length (cq r) < m then None
      else case run_flight (flight r) w of (cs, w') \<Rightarrow> Some (r\<lparr>flight := [], cq := cq r @ cs\<rparr>, w'))"

function ring_enter :: "nat \<Rightarrow> nat \<Rightarrow> Ring \<Rightarrow> World \<Rightarrow> (bytes option \<times> Ring \<times> World) option" where
  "ring_enter to_submit min_complete r w = (case ask w of
      (Fail e, w') \<Rightarrow> Some (Some e, r, w')
    | (Eintr, w') \<Rightarrow> ring_enter to_submit min_complete r w'
    | (Partial k, w') \<Rightarrow>
        if k < to_submit then Some (None, take_sqes k r, w')
        else map_option (Pair None) (wait_completions min_complete (take_sqes to_submit r) w')
    | (_, w') \<Rightarrow> map_option (Pair None) (wait_completions min_complete (take_sqes to_submit r) w'))"
  by pat_completeness auto
termination
  by (relation "measure (\<lambda>(n, m, r, w). length (sys w))")
     (auto simp: ask_def split: if_splits list.splits ans.splits)

declare ring_enter.simps [simp del]

subsection \<open>Flush and Reap\<close>

definition Ring_Flush :: "bool \<Rightarrow> Ring \<Rightarrow> World \<Rightarrow> (bytes option \<times> Ring \<times> World) option" where
  "Ring_Flush wait_all r w =
     (if queued r = 0 \<and> \<not> wait_all then Some (None, r, w)
      else let to_submit = queued r; min_complete = (if wait_all then outstanding r + queued r else 0)
           in case ring_enter to_submit min_complete r w of
                None \<Rightarrow> None
              | Some (Some e, r', w') \<Rightarrow> Some (Some e, r', w')
              | Some (None, r', w') \<Rightarrow> Some (None, r'\<lparr>queued := 0, outstanding := outstanding r' + to_submit\<rparr>, w'))"

text \<open>The completions \<^verbatim>\<open>fn\<close> is called with, in order.\<close>

definition drain_cq :: "Ring \<Rightarrow> (u64 \<times> (bytes + nat)) list \<times> Ring" where
  "drain_cq r = (cq r, r\<lparr>cq := [], outstanding := outstanding r - length (cq r)\<rparr>)"

definition Ring_Reap :: "bool \<Rightarrow> Ring \<Rightarrow> World \<Rightarrow> (bool \<times> (u64 \<times> (bytes + nat)) list \<times> Ring \<times> World) option" where
  "Ring_Reap wait r w =
     (case (if wait \<and> (0 < outstanding r \<or> 0 < queued r) then Ring_Flush False r w else Some (None, r, w)) of
        None \<Rightarrow> None
      | Some (Some e, r1, w1) \<Rightarrow> Some (False, [], r1, w1)
      | Some (None, r1, w1) \<Rightarrow>
          (case (if wait \<and> 0 < outstanding r1 then ring_enter 0 (outstanding r1) r1 w1 else Some (None, r1, w1)) of
             None \<Rightarrow> None
           | Some (Some e, r2, w2) \<Rightarrow> Some (False, [], r2, w2)
           | Some (None, r2, w2) \<Rightarrow> (case drain_cq r2 of (cs, r3) \<Rightarrow> Some (True, cs, r3, w2))))"

subsection \<open>What a waiting flush gives\<close>

text \<open>Our counters and the kernel's queues agree.\<close>

definition ring_ok :: "Ring \<Rightarrow> bool" where
  "ring_ok r \<longleftrightarrow> outstanding r = length (flight r) + length (cq r) \<and> queued r = length (sq r)
     \<and> sq_tail r - sq_head r = of_nat (length (sq r)) \<and> length (sq r) \<le> ring_entries r \<and> ring_entries r < 2 ^ 32"

lemma ring_ok_room:
  assumes "ring_ok r"
  shows "unat (sq_tail r - sq_head r) = length (sq r)"
  using assms by (simp add: ring_ok_def unat_of_nat_u32)

lemma queue_op_ok:
  assumes "ring_ok r" and "queue_op x ud r = (b, r')"
  shows "ring_ok r' \<and> b = (length (sq r) < ring_entries r)
    \<and> r' = (if b then r\<lparr>sq := sq r @ [\<lparr>op_of = x, user_data = ud\<rparr>], sq_tail := sq_tail r + 1, queued := queued r + 1\<rparr> else r)"
  using assms ring_ok_room [OF assms(1)] by (auto simp: queue_op_def ring_ok_def algebra_simps split: if_splits)

lemma ring_complete_ok: "ring_ok r \<Longrightarrow> ring_complete i r w = (r', w') \<Longrightarrow> ring_ok r'"
  by (auto simp: ring_complete_def ring_ok_def split: if_splits prod.splits)

lemma length_run_flight: "run_flight xs w = (cs, w') \<Longrightarrow> length cs = length xs"
  by (induction xs arbitrary: w cs) (auto split: prod.splits)

lemma drain_cq_ok: "ring_ok r \<Longrightarrow> drain_cq r = (cs, r') \<Longrightarrow> ring_ok r' \<and> cs = cq r \<and> cq r' = []"
  by (auto simp: drain_cq_def ring_ok_def)

text \<open>Executing operations changes only the files they are on.\<close>

fun op_fd :: "Op \<Rightarrow> nat" where
  "op_fd (OpWrite fd b off) = fd"
| "op_fd (OpFsync fd) = fd"

lemma exec_op_touch:
  assumes "exec_op x w = (res, w')"
  shows "touch (op_fd x) w w'"
proof (cases x)
  case (OpWrite fd b off)
  obtain a w1 where a: "ask w = (a, w1)" by (metis surj_pair)
  note s = same_touch [OF ask_same [OF a]]
  show ?thesis using assms OpWrite a s touch_trans [OF s touch_set_inode]
    by (cases a) auto
next
  case (OpFsync fd)
  obtain r w1 where "fsync fd w = (r, w1)" by (metis surj_pair)
  with fsync_touch [OF this] assms OpFsync show ?thesis by (cases r) auto
qed

text \<open>
  Unless the kernel takes fewer submissions than asked, a flush keeps the counters right;
  a waiting one then returns and leaves nothing queued and nothing in flight: the completions
  of everything submitted are there.
\<close>

lemma ring_enter_cases:
  "ring_enter n m r w = Some (b, r', w') \<Longrightarrow>
     ((\<exists>e. b = Some e) \<and> r' = r \<and> same w w') \<or> (b = None \<and> (\<exists>k < n. r' = take_sqes k r) \<and> same w w')
     \<or> (b = None \<and> (\<exists>w1. same w w1 \<and> wait_completions m (take_sqes n r) w1 = Some (r', w')))"
proof (induction n m r w rule: ring_enter.induct)
  case (1 n m r w)
  obtain a w1 where a: "ask w = (a, w1)" by (metis surj_pair)
  note s = ask_same [OF a] and eq = ring_enter.simps [of n m r w, unfolded a prod.case]
  show ?case
  proof (cases a)
    case (Partial k)
    then show ?thesis using "1.prems" s unfolding eq by (cases "k < n") auto
  next
    case Eintr
    have e: "ring_enter n m r w1 = Some (b, r', w')" using "1.prems" Eintr unfolding eq by simp
    from "1.IH" [OF a [symmetric] Eintr e] same_trans [OF s] show ?thesis by (elim disjE) blast+
  qed (use "1.prems" s in \<open>auto simp: eq\<close>)
qed

end
