(* ===== verification/SSTableCorrect.thy ===== *)
theory SSTableCorrect
  imports SSTable
begin

text \<open>
  Correctness of sorted string tables: the image the builder writes, that opening it gives
  a table over the same entries, and that lookups and iteration over the table are lookups
  and iteration over the entries.
\<close>

subsection \<open>Encoded entries\<close>

definition enc_ik :: "entry \<Rightarrow> bytes" where
  "enc_ik e = ukey e @ PutFixed64 (etag e)"

definition enc_kv :: "entry \<Rightarrow> bytes \<times> bytes" where
  "enc_kv e = (enc_ik e, evalue e)"

lemma enc_kv_simps [simp]: "fst (enc_kv e) = enc_ik e" "snd (enc_kv e) = evalue e"
  by (simp_all add: enc_kv_def)

lemma Extract_target [simp]:
  "ExtractUserKey (k @ PutFixed64 T) = k" "ExtractTag (k @ PutFixed64 T) = T"
  by (simp_all add: ExtractUserKey_def ExtractTag_def)

lemma Extract_enc_ik [simp]: "ExtractUserKey (enc_ik e) = ukey e" "ExtractTag (enc_ik e) = etag e"
  by (simp_all add: enc_ik_def)

lemma UserKeyOf_enc_ik [simp]: "UserKeyOf (enc_ik e) = ukey e"
  by (simp add: UserKeyOf_def enc_ik_def const_defs bytes_simps)

lemma cmp_enc_ik [simp]: "InternalKeyComparator (enc_ik a) (enc_ik b) = key_lt (ikey a) (ikey b)"
  by (simp add: InternalKeyComparator_key_lt)

lemma cmp_target: "InternalKeyComparator (enc_ik a) t = key_lt (ikey a) (ExtractUserKey t, ExtractTag t)"
  by (simp add: InternalKeyComparator_key_lt)

lemma sorted_run_kv:
  "sorted_run es \<longleftrightarrow> sorted_wrt (\<lambda>a b. InternalKeyComparator (fst a) (fst b)) (map enc_kv es)"
  by (simp add: sorted_run_def sorted_wrt_map)

subsection \<open>The image of a file\<close>

definition blk_img :: "TableOptions \<Rightarrow> entry list \<Rightarrow> bytes" where
  "blk_img opts es = finished_block (opt_restart_interval opts) (map enc_kv es)"

definition blk_filter :: "TableOptions \<Rightarrow> entry list \<Rightarrow> bytes" where
  "blk_filter opts es = BuildFilter (map ukey es) (bloom_bits_per_key opts)"

definition data_off :: "TableOptions \<Rightarrow> entry list list \<Rightarrow> nat \<Rightarrow> nat" where
  "data_off opts bs i = length (concat (map (blk_img opts) (take i bs)))"

definition filter_off :: "TableOptions \<Rightarrow> entry list list \<Rightarrow> nat \<Rightarrow> nat" where
  "filter_off opts bs i = length (concat (map (blk_filter opts) (take i bs)))"

definition index_kvs :: "TableOptions \<Rightarrow> entry list list \<Rightarrow> (bytes \<times> bytes) list" where
  "index_kvs opts bs = map (\<lambda>i. (enc_ik (last (bs ! i)), block_handle (data_off opts bs i) (length (blk_img opts (bs ! i)))))
     [0..<length bs]"

definition index_img :: "TableOptions \<Rightarrow> entry list list \<Rightarrow> bytes" where
  "index_img opts bs = finished_block (opt_restart_interval opts) (index_kvs opts bs)"

definition filter_img :: "TableOptions \<Rightarrow> entry list list \<Rightarrow> bytes" where
  "filter_img opts bs = concat (map (blk_filter opts) bs) @
     concat (map (\<lambda>i. PutFixed32 (of_nat (filter_off opts bs i))) [0..<length bs]) @
     PutFixed32 (of_nat (length (concat (map (blk_filter opts) bs))))"

definition body_img :: "TableOptions \<Rightarrow> entry list list \<Rightarrow> bytes" where
  "body_img opts bs = concat (map (blk_img opts) bs) @ filter_img opts bs @ index_img opts bs"

definition sst_file :: "TableOptions \<Rightarrow> entry list list \<Rightarrow> u64 \<Rightarrow> bytes" where
  "sst_file opts bs n = body_img opts bs @
     footer (length (concat (map (blk_img opts) bs))) (length (filter_img opts bs))
       (length (concat (map (blk_img opts) bs) @ filter_img opts bs)) (length (index_img opts bs))
       n (Crc32 (body_img opts bs) 0)"

definition sst_img :: "TableOptions \<Rightarrow> entry list list \<Rightarrow> bytes" where
  "sst_img opts bs = sst_file opts bs (of_nat (length (concat bs)))"

subsection \<open>The builder\<close>

definition bld_ok :: "Builder \<Rightarrow> TableOptions \<Rightarrow> entry list list \<Rightarrow> entry list \<Rightarrow> bool" where
  "bld_ok b opts bs cur \<longleftrightarrow>
     options b = opts \<and> sfile b = concat (map (blk_img opts) bs) \<and> scrc b = Crc32 (sfile b) 0
     \<and> filters b = concat (map (blk_filter opts) bs)
     \<and> filter_offsets b = map (\<lambda>i. of_nat (filter_off opts bs i)) [0..<length bs]
     \<and> index_block b = block_add_all (index_kvs opts bs) (NewBlockBuilder (opt_restart_interval opts))
     \<and> data_block b = block_add_all (map enc_kv cur) (NewBlockBuilder (opt_restart_interval opts))
     \<and> block_user_keys b = map ukey cur \<and> has_last_key b = (concat bs @ cur \<noteq> [])
     \<and> (concat bs @ cur \<noteq> [] \<longrightarrow> last_internal_key b = enc_ik (last (concat bs @ cur))
          \<and> smallest_user_key b = ukey (hd (concat bs @ cur)) \<and> largest_user_key b = ukey (last (concat bs @ cur)))
     \<and> num_entries b = of_nat (length (concat bs @ cur)) \<and> [] \<notin> set bs"

lemma bld_ok_New: "bld_ok (NewBuilder opts) opts [] []"
  by (simp add: bld_ok_def NewBuilder_def index_kvs_def block_add_all_def)

lemma block_add_all_snoc: "block_add_all (kvs @ [(k, v)]) bb = BlockBuilder_Add k v (block_add_all kvs bb)"
  by (simp add: block_add_all_def)

lemma Add_counter [simp]: "counter (BlockBuilder_Add k v bb) \<noteq> 0"
  by (simp add: BlockBuilder_Add_def)

lemma Add_interval [simp]: "restart_interval (BlockBuilder_Add k v bb) = restart_interval bb"
  by (simp add: BlockBuilder_Add_def)

lemma block_add_all_interval: "restart_interval (block_add_all kvs bb) = restart_interval bb"
  by (induction kvs arbitrary: bb) (auto simp: block_add_all_def)

lemma block_add_all_empty: "builder_empty (block_add_all kvs (NewBlockBuilder n)) = (kvs = [])"
proof (cases kvs rule: rev_cases)
  case Nil
  then show ?thesis by (simp add: builder_empty_def block_add_all_def NewBlockBuilder_def BlockBuilder_Reset_def)
next
  case (snoc xs x)
  then show ?thesis by (cases x) (simp add: builder_empty_def block_add_all_snoc)
qed

lemma Reset_Finish: "BlockBuilder_Reset (snd (BlockBuilder_Finish bb)) = NewBlockBuilder (restart_interval bb)"
  by (simp add: BlockBuilder_Reset_def BlockBuilder_Finish_def NewBlockBuilder_def)

lemma interval_New [simp]: "restart_interval (NewBlockBuilder n) = n"
  by (simp add: NewBlockBuilder_def BlockBuilder_Reset_def)

lemma index_kvs_snoc:
  "index_kvs opts (bs @ [c]) = index_kvs opts bs @
     [(enc_ik (last c), block_handle (length (concat (map (blk_img opts) bs))) (length (blk_img opts c)))]"
  by (auto simp: index_kvs_def data_off_def nth_append intro!: map_cong)

lemma filter_off_snoc:
  "map (\<lambda>i. of_nat (filter_off opts (bs @ [c]) i) :: u32) [0..<length (bs @ [c])] =
     map (\<lambda>i. of_nat (filter_off opts bs i)) [0..<length bs] @ [of_nat (length (concat (map (blk_filter opts) bs)))]"
  by (auto simp: filter_off_def intro!: map_cong)

lemma bld_ok_Flush:
  assumes "bld_ok b opts bs cur"
  shows "bld_ok (FlushDataBlock b) opts (if cur = [] then bs else bs @ [cur]) []"
proof (cases "cur = []")
  case True
  then show ?thesis using assms by (simp add: FlushDataBlock_def bld_ok_def block_add_all_empty)
next
  case False
  let ?bb = "data_block b"
  have bb: "?bb = block_add_all (map enc_kv cur) (NewBlockBuilder (opt_restart_interval opts))"
    using assms by (simp add: bld_ok_def)
  have img: "fst (BlockBuilder_Finish ?bb) = blk_img opts cur" by (simp add: bb blk_img_def finished_block_def)
  have res: "BlockBuilder_Reset (snd (BlockBuilder_Finish ?bb)) = NewBlockBuilder (opt_restart_interval opts)"
    by (simp add: Reset_Finish bb block_add_all_interval)
  have ne: "\<not> builder_empty ?bb" using False by (simp add: bb block_add_all_empty)
  have lst: "last_internal_key b = enc_ik (last cur)" using assms False by (simp add: bld_ok_def)
  have "index_block (FlushDataBlock b) = block_add_all (index_kvs opts (bs @ [cur])) (NewBlockBuilder (opt_restart_interval opts))"
    using assms ne img lst
    by (simp add: FlushDataBlock_def case_prod_unfold Let_def index_kvs_snoc block_add_all_snoc bld_ok_def)
  then show ?thesis
    using assms False ne img res
    by (simp add: bld_ok_def FlushDataBlock_def case_prod_unfold Let_def blk_filter_def filter_off_snoc Crc32_append
        block_add_all_def [of "[]"] del: map_eq_conv upt_Suc length_append)
qed

lemma EncodeInternalKey_enc_ik: "EncodeInternalKey k seq t = enc_ik (k, make_tag seq t, v)"
  by (simp add: EncodeInternalKey_def enc_ik_def)

lemma bld_ok_Add:
  assumes "bld_ok b opts bs cur"
    and "concat bs @ cur \<noteq> [] \<Longrightarrow> key_lt (ikey (last (concat bs @ cur))) (k, make_tag seq t)"
  obtains b' bs' cur' where "Builder_Add k seq t v b = (Ok, b')" "bld_ok b' opts bs' cur'"
    "concat bs' @ cur' = concat bs @ cur @ [(k, make_tag seq t, v)]"
proof -
  let ?e = "(k, make_tag seq t, v)"
  let ?b1 = "if has_last_key b then b else b\<lparr>smallest_user_key := k, b_smallest_seq := seq, b_largest_seq := seq\<rparr>"
  let ?b = "?b1\<lparr>b_smallest_seq := min (b_smallest_seq ?b1) seq, b_largest_seq := max (b_largest_seq ?b1) seq,
              largest_user_key := k, last_internal_key := enc_ik ?e, has_last_key := True,
              data_block := BlockBuilder_Add (enc_ik ?e) v (data_block ?b1),
              block_user_keys := block_user_keys ?b1 @ [k], num_entries := num_entries ?b1 + 1\<rparr>"
  have ok: "bld_ok ?b opts bs (cur @ [?e])"
    using assms(1) by (auto simp: bld_ok_def enc_kv_def block_add_all_snoc hd_append)
  have lt: "\<not> (has_last_key b \<and> \<not> InternalKeyComparator (last_internal_key b) (EncodeInternalKey k seq t))"
  proof (cases "has_last_key b")
    case True
    then have ne: "concat bs @ cur \<noteq> []" using assms(1) unfolding bld_ok_def by blast
    moreover have "last_internal_key b = enc_ik (last (concat bs @ cur))" using ne assms(1) unfolding bld_ok_def by blast
    ultimately show ?thesis using assms(2) [OF ne] by (simp add: EncodeInternalKey_enc_ik [of k seq t v])
  qed simp
  have eq: "Builder_Add k seq t v b = (Ok, if block_size (options ?b) \<le> CurrentSizeEstimate (data_block ?b)
      then FlushDataBlock ?b else ?b)"
    unfolding Builder_Add_def Let_def EncodeInternalKey_enc_ik [of k seq t v]
      if_not_P [OF lt [unfolded EncodeInternalKey_enc_ik [of k seq t v]]] ..
  show thesis
  proof (cases "block_size (options ?b) \<le> CurrentSizeEstimate (data_block ?b)")
    case True
    from that [OF eq, unfolded if_P [OF True], OF bld_ok_Flush [OF ok]] show ?thesis by simp
  next
    case False
    from that [OF eq, unfolded if_not_P [OF False], OF ok] show ?thesis by simp
  qed
qed

text \<open>The loop of a flush or a compaction that feeds entries to the builder until one is refused.\<close>

type_synonym item = "bytes \<times> u64 \<times> u8 \<times> bytes"

definition entry_of :: "item \<Rightarrow> entry" where
  "entry_of x = (case x of (k, seq, t, v) \<Rightarrow> (k, make_tag seq t, v))"

fun Builder_Add_all :: "item list \<Rightarrow> Builder \<Rightarrow> Status \<times> Builder" where
  "Builder_Add_all [] b = (Ok, b)"
| "Builder_Add_all ((k, seq, t, v) # xs) b =
     (case Builder_Add k seq t v b of (s, b') \<Rightarrow> if ok s then Builder_Add_all xs b' else (s, b'))"

lemma bld_ok_Add_all:
  assumes "bld_ok b opts bs cur" and "sorted_run (concat bs @ cur @ map entry_of xs)"
  shows "\<exists>b' bs' cur'. Builder_Add_all xs b = (Ok, b') \<and> bld_ok b' opts bs' cur' \<and>
     concat bs' @ cur' = concat bs @ cur @ map entry_of xs"
  using assms
proof (induction xs arbitrary: b bs cur)
  case (Cons x xs)
  obtain k seq t v where x: "x = (k, seq, t, v)" by (cases x)
  have "key_lt (ikey (last (concat bs @ cur))) (k, make_tag seq t)" if ne: "concat bs @ cur \<noteq> []"
  proof -
    have "last (concat bs @ cur) \<in> set (concat bs @ cur)" using ne by (rule last_in_set)
    then show ?thesis using Cons.prems(2) by (auto simp: sorted_run_def sorted_wrt_append x entry_of_def)
  qed
  from bld_ok_Add [OF Cons.prems(1) this, of v] obtain b1 bs1 cur1 where
    1: "Builder_Add k seq t v b = (Ok, b1)" "bld_ok b1 opts bs1 cur1"
       "concat bs1 @ cur1 = concat bs @ cur @ [(k, make_tag seq t, v)]" by blast
  have eq: "concat bs1 @ cur1 @ map entry_of xs = concat bs @ cur @ map entry_of (x # xs)"
    using arg_cong [OF 1(3), of "\<lambda>z. z @ map entry_of xs"] by (simp add: x entry_of_def)
  have "sorted_run (concat bs1 @ cur1 @ map entry_of xs)" unfolding eq by (rule Cons.prems(2))
  from Cons.IH [OF 1(2) this] obtain b' bs' cur' where
    "Builder_Add_all xs b1 = (Ok, b')" "bld_ok b' opts bs' cur'" "concat bs' @ cur' = concat bs @ cur @ map entry_of (x # xs)"
    unfolding eq by blast
  then show ?case by (intro exI [of _ b'] exI [of _ bs'] exI [of _ cur']) (simp add: x 1(1))
qed auto

lemma Finish_image_sfile:
  assumes "bld_ok b opts bs cur" and "bs' = (if cur = [] then bs else bs @ [cur])"
  shows "sfile (Finish_image b) = sst_img opts bs'"
proof -
  have ok: "bld_ok (FlushDataBlock b) opts bs' []" using bld_ok_Flush [OF assms(1)] assms(2) by simp
  let ?b = "FlushDataBlock b"
  have fi: "filter_image ?b = filter_img opts bs'"
    using ok by (simp add: filter_image_def filter_img_def bld_ok_def comp_def)
  have ii: "fst (BlockBuilder_Finish (index_block ?b)) = index_img opts bs'"
    using ok by (simp add: index_img_def finished_block_def bld_ok_def)
  have "scrc ?b = Crc32 (sfile ?b) 0" "sfile ?b = concat (map (blk_img opts) bs')"
    "num_entries ?b = of_nat (length (concat bs'))"
    using ok by (simp_all add: bld_ok_def)
  then show ?thesis
    by (simp add: Finish_image_def Let_def case_prod_unfold fi ii sst_img_def sst_file_def body_img_def Crc32_append)
qed

lemma Finish_meta:
  assumes "bld_ok b opts bs cur"
  shows "smallest_user_key (Finish_image b) = smallest_user_key b \<and> largest_user_key (Finish_image b) = largest_user_key b
    \<and> num_entries (Finish_image b) = num_entries b \<and> b_smallest_seq (Finish_image b) = b_smallest_seq b
    \<and> b_largest_seq (Finish_image b) = b_largest_seq b"
  by (simp add: Finish_image_def FlushDataBlock_def Let_def case_prod_unfold)

subsection \<open>Opening\<close>

text \<open>A table over the blocks \<open>bs\<close>.\<close>

definition table_rep :: "Table \<Rightarrow> TableOptions \<Rightarrow> entry list list \<Rightarrow> bool" where
  "table_rep t opts bs \<longleftrightarrow>
     bs \<noteq> [] \<and> [] \<notin> set bs \<and> sorted_run (concat bs) \<and> length (index t) = length bs
     \<and> (\<forall>i < length bs. ie_key (index t ! i) = enc_ik (last (bs ! i))
          \<and> table_block t i = NewBlock (blk_img opts (bs ! i)) \<and> length (blk_img opts (bs ! i)) < 2 ^ 32
          \<and> (\<forall>k. KeyMayMatchInBlock t i k = Some (KeyMayMatch (blk_filter opts (bs ! i)) k)))
     \<and> t_smallest_user_key t = ukey (hd (concat bs)) \<and> t_largest_user_key t = ukey (last (concat bs))"

definition index_entry :: "bytes \<times> bytes \<Rightarrow> IndexEntry" where
  "index_entry kh = \<lparr>ie_key = fst kh, ie_offset = GetFixed64 (snd kh), ie_size = GetFixed32 (drop 8 (snd kh))\<rparr>"

lemma index_scan_all:
  assumes "stands b es js i" and "i \<le> length es"
    and "\<forall>e\<in>set es. length (bval e) = 12 \<and> handle_ok (GetFixed64 (bval e)) (GetFixed32 (drop 8 (bval e))) fs"
  shows "\<exists>b'. index_scan fs b acc = (Inr (acc @ map (index_entry \<circ> snd) (drop i es)), b') \<and> \<not> bcorrupted b'"
  using assms(1,2)
proof (induction "length es - i" arbitrary: i b acc)
  case 0
  then have "\<not> bvalid b" "\<not> bcorrupted b" by (auto simp: stands_def exhausted_def opened_def)
  with 0 show ?case by (simp add: index_scan.simps [of fs b acc])
next
  case (Suc n)
  then have i: "i < length es" by linarith
  then have p: "positioned b es js i" using Suc.prems(1) by (simp add: stands_def)
  then have b: "bvalid b" "cur_key b = bkey (es ! i)" "cur_value b = bval (es ! i)" by (simp_all add: positioned_def)
  have h: "length (bval (es ! i)) = 12" "handle_ok (GetFixed64 (bval (es ! i))) (GetFixed32 (drop 8 (bval (es ! i)))) fs"
    using assms(3) i by simp_all
  have "stands (Block_Next b) es js (Suc i)" using Next_positioned [OF p] by (simp add: stands_def)
  from Suc.hyps(1) [OF _ this] Suc.hyps(2) i
  obtain b' where b': "\<not> bcorrupted b'"
    "index_scan fs (Block_Next b) (acc @ [index_entry (snd (es ! i))]) =
       (Inr ((acc @ [index_entry (snd (es ! i))]) @ map (index_entry \<circ> snd) (drop (Suc i) es)), b')"
    by fastforce
  have "index_scan fs b acc = index_scan fs (Block_Next b) (acc @ [index_entry (snd (es ! i))])"
    using b h by (simp add: index_scan.simps [of fs b acc] Let_def index_entry_def)
  with b' i show ?case by (simp add: Cons_nth_drop_Suc [symmetric])
qed

lemma concat_sub:
  "i < length xs \<Longrightarrow> sub (concat xs @ r) (length (concat (take i xs))) (length (xs ! i)) = xs ! i"
proof -
  assume i: "i < length xs"
  have "concat xs = concat (take i xs) @ xs ! i @ concat (drop (Suc i) xs)"
    using arg_cong [OF id_take_nth_drop [OF i], of concat] by simp
  then show ?thesis by (simp add: sub_def)
qed

lemma ucast_u32_u64: "n < 2 ^ 32 \<Longrightarrow> (ucast (of_nat n :: u32) :: u64) = of_nat n"
  by (metis of_nat_unat unat_of_nat_u32)

lemma unat_small_u64: "n < 2 ^ 32 \<Longrightarrow> unat (of_nat n :: u64) = n"
  by (rule unat_of_nat_u64, erule less_trans) simp

lemma handle_ok_of_nat:
  assumes "off + sz \<le> fs" and "fs < 2 ^ 32"
  shows "handle_ok (of_nat off) (of_nat sz) fs"
proof -
  have "(of_nat off :: u64) + ucast (of_nat sz :: u32) = of_nat (off + sz)"
    using assms by (simp add: ucast_u32_u64)
  then have "unat ((of_nat off :: u64) + ucast (of_nat sz :: u32)) = off + sz"
    using assms by (simp only:) (rule unat_small_u64, linarith)
  moreover have "unat (of_nat off :: u64) = off" using assms by (intro unat_small_u64) linarith
  ultimately show ?thesis using assms by (simp add: handle_ok_def)
qed

lemma length_footer [simp]: "length (footer a b c d n crc) = kFooterSize"
  by (simp add: footer_def kMagic_def kFooterSize_def)

lemma footer_fields:
  fixes a b c d n crc
  defines "f \<equiv> footer a b c d n crc"
  shows "GetFixed64 f = of_nat a" "GetFixed32 (drop 8 f) = of_nat b" "GetFixed64 (drop 12 f) = of_nat c"
    "GetFixed32 (drop 20 f) = of_nat d" "GetFixed64 (drop 24 f) = n" "GetFixed32 (drop 32 f) = crc" "drop 36 f = kMagic"
  by (simp_all add: f_def footer_def)

lemma index_kvs_nth:
  "i < length bs \<Longrightarrow> index_kvs opts bs ! i =
     (enc_ik (last (bs ! i)), block_handle (data_off opts bs i) (length (blk_img opts (bs ! i))))"
  by (simp add: index_kvs_def)

lemma length_index_kvs [simp]: "length (index_kvs opts bs) = length bs"
  by (simp add: index_kvs_def)

lemma data_off_le: "i < length bs \<Longrightarrow>
    data_off opts bs i + length (blk_img opts (bs ! i)) \<le> length (concat (map (blk_img opts) bs))"
proof -
  assume i: "i < length bs"
  have "concat (map (blk_img opts) bs) = concat (map (blk_img opts) (take i bs)) @ blk_img opts (bs ! i)
      @ concat (map (blk_img opts) (drop (Suc i) bs))"
    using arg_cong [OF id_take_nth_drop [OF i], of "\<lambda>z. concat (map (blk_img opts) z)"] by simp
  then show ?thesis by (simp add: data_off_def)
qed

lemma index_block_scan:
  assumes "bs \<noteq> []" and "length (body_img opts bs) < 2 ^ 32" and "fs = length (body_img opts bs)"
  shows "\<not> bcorrupted (NewBlock (index_img opts bs)) \<and>
    (\<exists>b'. index_scan fs (Block_SeekToFirst (NewBlock (index_img opts bs))) [] =
        (Inr (map index_entry (index_kvs opts bs)), b') \<and> \<not> bcorrupted b')"
proof -
  have ne: "index_kvs opts bs \<noteq> []" using assms(1) by (simp add: index_kvs_def)
  note len = assms(2)
  then have small: "length (finished_block (opt_restart_interval opts) (index_kvs opts bs)) < 2 ^ 32"
    by (simp add: body_img_def index_img_def)
  obtain es js where img: "block_image (index_img opts bs) es js" and es: "map snd es = index_kvs opts bs"
    unfolding index_img_def by (rule finished_image [OF ne small])
  note o = NewBlock_opened [OF img]
  have "es \<noteq> []" using ne es by auto
  then have st: "stands (Block_SeekToFirst (NewBlock (index_img opts bs))) es js 0"
    using SeekToFirst_positioned [OF o] by (simp add: stands_def)
  have "length (bval e) = 12 \<and> handle_ok (GetFixed64 (bval e)) (GetFixed32 (drop 8 (bval e))) fs" if "e \<in> set es" for e
  proof -
    have "snd e \<in> set (index_kvs opts bs)" using that es by (metis image_eqI image_set)
    then obtain i where i: "i < length bs" "snd e = index_kvs opts bs ! i" by (metis in_set_conv_nth length_index_kvs)
    then have v: "bval e = block_handle (data_off opts bs i) (length (blk_img opts (bs ! i)))" by (simp add: index_kvs_nth)
    have "data_off opts bs i + length (blk_img opts (bs ! i)) \<le> fs"
      using data_off_le [OF i(1), of opts] assms(3) by (simp add: body_img_def)
    then show ?thesis using handle_ok_of_nat len assms(3) by (simp add: v block_handle_def)
  qed
  then obtain b' where "index_scan fs (Block_SeekToFirst (NewBlock (index_img opts bs))) [] =
      (Inr ([] @ map (index_entry \<circ> snd) (drop 0 es)), b')" "\<not> bcorrupted b'"
    using index_scan_all [OF st, of fs "[]"] by auto
  then show ?thesis using o es by (simp add: opened_def map_map [symmetric] del: map_map)
qed

lemma first_block_key:
  assumes "b \<noteq> []" and "length (blk_img opts b) < 2 ^ 32"
  shows "\<not> bcorrupted (NewBlock (blk_img opts b)) \<and> bvalid (Block_SeekToFirst (NewBlock (blk_img opts b)))
    \<and> cur_key (Block_SeekToFirst (NewBlock (blk_img opts b))) = enc_ik (hd b)"
proof -
  obtain es js where img: "block_image (blk_img opts b) es js" and es: "map snd es = map enc_kv b"
    unfolding blk_img_def by (rule finished_image [of "map enc_kv b"]) (use assms in \<open>simp_all add: blk_img_def\<close>)
  note o = NewBlock_opened [OF img] and p = SeekToFirst_positioned [OF NewBlock_opened [OF img]]
  have "bkey (es ! 0) = enc_ik (hd b)"
    using es assms(1) by (cases es; cases b) (auto simp: enc_kv_def)
  then show ?thesis using o p by (simp add: positioned_def opened_def)
qed

definition sst_table :: "u64 \<Rightarrow> TableOptions \<Rightarrow> entry list list \<Rightarrow> u64 \<Rightarrow> Table" where
  "sst_table fnum opts bs n = \<lparr>t_file_number = fnum, file_data = sst_file opts bs n,
     index = map index_entry (index_kvs opts bs), filter_block = filter_img opts bs,
     t_smallest_user_key = ukey (hd (hd bs)), t_largest_user_key = ukey (last (last bs)),
     t_num_entries = n\<rparr>"

lemma index_entry_simps:
  assumes "i < length bs" and "length (body_img opts bs) < 2 ^ 32"
  shows "ie_key (map index_entry (index_kvs opts bs) ! i) = enc_ik (last (bs ! i))"
    "unat (ie_offset (map index_entry (index_kvs opts bs) ! i)) = data_off opts bs i"
    "unat (ie_size (map index_entry (index_kvs opts bs) ! i)) = length (blk_img opts (bs ! i))"
proof -
  have "data_off opts bs i + length (blk_img opts (bs ! i)) \<le> length (body_img opts bs)"
    using data_off_le [OF assms(1), of opts] by (simp add: body_img_def)
  then have "data_off opts bs i < 2 ^ 32" "length (blk_img opts (bs ! i)) < 2 ^ 32" using assms(2) by linarith+
  then show "ie_key (map index_entry (index_kvs opts bs) ! i) = enc_ik (last (bs ! i))"
    "unat (ie_offset (map index_entry (index_kvs opts bs) ! i)) = data_off opts bs i"
    "unat (ie_size (map index_entry (index_kvs opts bs) ! i)) = length (blk_img opts (bs ! i))"
    using assms(1) unat_small_u64 unat_of_nat_u32
    by (simp_all add: index_entry_def index_kvs_nth block_handle_def)
qed

lemma sst_file_block:
  "i < length bs \<Longrightarrow> sub (sst_file opts bs n) (data_off opts bs i) (length (blk_img opts (bs ! i))) = blk_img opts (bs ! i)"
  using concat_sub [of i "map (blk_img opts) bs"] by (simp add: sst_file_def body_img_def data_off_def take_map)

lemma parse_sst:
  assumes "bs \<noteq> []" and "[] \<notin> set bs" and len: "length (body_img opts bs) < 2 ^ 32"
  shows "parse_table fnum (sst_file opts bs n) = Inr (sst_table fnum opts bs n)"
proof -
  let ?d = "sst_file opts bs n" and ?B = "body_img opts bs" and ?D = "concat (map (blk_img opts) bs)"
  let ?f = "footer (length ?D) (length (filter_img opts bs)) (length (?D @ filter_img opts bs)) (length (index_img opts bs))
       n (Crc32 ?B 0)"
  let ?fs = "length ?B"
  have d: "?d = ?B @ ?f" by (simp add: sst_file_def)
  have fs: "length ?d - kFooterSize = ?fs" "\<not> length ?d < kFooterSize" "drop ?fs ?d = ?f" "take ?fs ?d = ?B"
    by (simp_all add: d)
  have lb: "?fs = length ?D + length (filter_img opts bs) + length (index_img opts bs)" by (simp add: body_img_def)
  note small = len
  have h: "handle_ok (of_nat (length ?D)) (of_nat (length (filter_img opts bs))) ?fs"
    "handle_ok (of_nat (length (?D @ filter_img opts bs))) (of_nat (length (index_img opts bs))) ?fs"
    by (rule handle_ok_of_nat; use lb small in simp)+
  have u: "unat (of_nat (length ?D) :: u64) = length ?D" "unat (of_nat (length (filter_img opts bs)) :: u32) = length (filter_img opts bs)"
    "unat (of_nat (length (?D @ filter_img opts bs)) :: u64) = length (?D @ filter_img opts bs)"
    "unat (of_nat (length (index_img opts bs)) :: u32) = length (index_img opts bs)"
    using lb small by (intro unat_small_u64 unat_of_nat_u32; simp)+
  have subs: "sub ?d (length ?D) (length (filter_img opts bs)) = filter_img opts bs"
    "sub ?d (length (?D @ filter_img opts bs)) (length (index_img opts bs)) = index_img opts bs"
    by (simp_all add: d body_img_def sub_def)
  obtain b' where scan: "\<not> bcorrupted (NewBlock (index_img opts bs))"
    "index_scan ?fs (Block_SeekToFirst (NewBlock (index_img opts bs))) [] = (Inr (map index_entry (index_kvs opts bs)), b')"
    "\<not> bcorrupted b'" using index_block_scan [OF assms(1) len refl] by blast
  let ?idx = "map index_entry (index_kvs opts bs)"
  have ne: "?idx \<noteq> []" "0 < length bs" using assms(1) by (simp_all add: index_kvs_def)
  have hd: "sub ?d (unat (ie_offset (index_entry (index_kvs opts bs ! 0)))) (unat (ie_size (index_entry (index_kvs opts bs ! 0))))
      = blk_img opts (bs ! 0)"
    using index_entry_simps(2,3) [OF ne(2) len] sst_file_block [OF ne(2), of opts n] ne by simp
  have last: "ie_key (last ?idx) = enc_ik (last (last bs))"
    using index_entry_simps(1) [of "length bs - 1" bs opts] len ne assms(1) by (simp add: last_conv_nth)
  have "bs ! 0 \<noteq> []" using assms(2) ne(2) by (metis nth_mem)
  moreover have "length (blk_img opts (bs ! 0)) < 2 ^ 32"
    using data_off_le [OF ne(2), of opts] lb small by linarith
  ultimately have first: "\<not> bcorrupted (NewBlock (blk_img opts (bs ! 0)))"
    "bvalid (Block_SeekToFirst (NewBlock (blk_img opts (bs ! 0))))"
    "cur_key (Block_SeekToFirst (NewBlock (blk_img opts (bs ! 0)))) = enc_ik (hd (bs ! 0))"
    using first_block_key by auto
  show ?thesis
    unfolding parse_table_def Let_def fs(1,3,4) footer_fields u subs scan(2)
    using fs(2) h scan first ne assms(1)
    by (simp add: sst_table_def last hd_conv_nth hd)
qed

lemma filter_off_mono: "i \<le> j \<Longrightarrow> filter_off opts bs i \<le> filter_off opts bs j"
proof -
  assume "i \<le> j"
  then obtain d where "j = i + d" using le_Suc_ex by blast
  then show ?thesis by (simp add: filter_off_def take_add)
qed

lemma filter_off_Suc: "i < length bs \<Longrightarrow> filter_off opts bs (Suc i) = filter_off opts bs i + length (blk_filter opts (bs ! i))"
  by (simp add: filter_off_def take_Suc_conv_app_nth)

lemma unat_sub_u32:
  assumes "a \<le> b" and "b < 2 ^ 32"
  shows "unat ((of_nat b :: u32) - of_nat a) = b - a"
proof -
  have "(of_nat b :: u32) - of_nat a = of_nat (b - a)" using assms by (simp add: of_nat_diff)
  then show ?thesis using assms by (simp only:) (rule unat_of_nat_u32, linarith)
qed

lemma filter_block_match:
  assumes i: "i < length bs" and len: "length (body_img opts bs) < 2 ^ 32"
  shows "KeyMayMatchInBlock (sst_table fnum opts bs n) i k = Some (KeyMayMatch (blk_filter opts (bs ! i)) k)"
proof -
  let ?F = "concat (map (blk_filter opts) bs)" and ?n = "length bs" and ?fb = "filter_img opts bs"
  let ?off = "filter_off opts bs"
  have all: "?off ?n = length ?F" by (simp add: filter_off_def)
  have sz: "length ?fb = length ?F + 4 * ?n + 4" by (simp add: filter_img_def length_concat_4)
  have "length ?fb \<le> length (body_img opts bs)" by (simp add: body_img_def)
  then have small: "length ?fb < 2 ^ 32" using len by linarith
  have uF: "unat (of_nat (length ?F) :: u32) = length ?F" using small sz by (intro unat_of_nat_u32) linarith
  have start: "GetFixed32 (drop (length ?fb - 4) ?fb) = of_nat (length ?F)"
    by (simp add: sz filter_img_def length_concat_4)
  have plus: "unat ((of_nat (length ?F) :: u32) + 4) = length ?F + 4"
  proof -
    have "(of_nat (length ?F) :: u32) + 4 = of_nat (length ?F + 4)" by simp
    then show ?thesis using small sz by (simp only:) (rule unat_of_nat_u32, linarith)
  qed
  have cnt: "unat ((of_nat (length ?fb) :: u64) - 4 - ucast (of_nat (length ?F) :: u32)) div 4 = ?n"
  proof -
    have "(of_nat (length ?fb) :: u64) - 4 - ucast (of_nat (length ?F) :: u32) = of_nat (4 * ?n)"
      using small sz by (simp add: ucast_u32_u64)
    moreover have "4 * ?n < 2 ^ 32" using small sz by linarith
    ultimately show ?thesis by (simp only: unat_small_u64)
  qed
  have at: "read32_at ?fb (length ?F + j * 4) = Some (of_nat (?off j))" if "j < ?n" for j
  proof -
    have "length ?F + j * 4 + 4 \<le> length ?fb" using that sz by linarith
    moreover have "GetFixed32 (drop (length ?F + j * 4) ?fb) = of_nat (?off j)"
      using concat_PutFixed32_at [of j "[0..<?n]" "\<lambda>i. of_nat (?off i)"] that by (simp add: filter_img_def)
    ultimately show ?thesis by (simp add: read32_at_def)
  qed
  have stop: "(if i + 1 < ?n then read32_at ?fb (length ?F + (i + 1) * 4) else Some (of_nat (length ?F))) = Some (of_nat (?off (Suc i)))"
    using at [of "Suc i"] i all by (cases "Suc i < ?n") (auto simp: not_less dest: antisym)
  have o: "?off i \<le> ?off (Suc i)" "?off (Suc i) \<le> length ?F"
    using filter_off_mono [of i "Suc i" opts bs] filter_off_mono [of "Suc i" ?n opts bs] i all by auto
  have lt: "?off (Suc i) < 2 ^ 32" "?off i < 2 ^ 32" using o small sz by linarith+
  have cmp: "\<not> (of_nat (?off (Suc i)) < (of_nat (?off i) :: u32) \<or> of_nat (length ?F) < (of_nat (?off (Suc i)) :: u32))"
    using o lt uF by (simp add: word_less_nat_alt unat_of_nat_u32)
  have slice: "sub ?fb (?off i) (?off (Suc i) - ?off i) = blk_filter opts (bs ! i)"
    using concat_sub [of i "map (blk_filter opts) bs"] i
    by (simp add: filter_img_def filter_off_Suc) (simp add: filter_off_def take_map)
  have c: "\<not> length ?fb < 4" "\<not> length ?fb < length ?F + 4" "\<not> ?n \<le> i" using sz i by linarith+
  have fb: "filter_block (sst_table fnum opts bs n) = ?fb" by (simp add: sst_table_def)
  show ?thesis
    by (simp only: KeyMayMatchInBlock_def Let_def fb start plus cnt uF at [OF i] stop c if_False option.case
        if_not_P [OF cmp] unat_sub_u32 [OF o(1) lt(1)] unat_of_nat_u32 [OF lt(2)] slice)
qed

lemma last_concat_ne: "bs \<noteq> [] \<Longrightarrow> [] \<notin> set bs \<Longrightarrow> hd (concat bs) = hd (hd bs) \<and> last (concat bs) = last (last bs)"
proof
  assume "bs \<noteq> []" and "[] \<notin> set bs"
  then show "hd (concat bs) = hd (hd bs)" by (cases bs) (auto simp: hd_append)
  show "last (concat bs) = last (last bs)"
    using \<open>bs \<noteq> []\<close> \<open>[] \<notin> set bs\<close> by (cases bs rule: rev_cases) (auto simp: last_append)
qed

lemma sst_table_rep:
  assumes "bs \<noteq> []" and "[] \<notin> set bs" and "sorted_run (concat bs)" and len: "length (body_img opts bs) < 2 ^ 32"
  shows "table_rep (sst_table fnum opts bs n) opts bs"
proof -
  have "table_block (sst_table fnum opts bs n) i = NewBlock (blk_img opts (bs ! i))" if "i < length bs" for i
    using index_entry_simps(2,3) [OF that len] sst_file_block [OF that, of opts n] that
    by (simp add: table_block_def sst_table_def)
  moreover have "length (blk_img opts (bs ! i)) < 2 ^ 32" if "i < length bs" for i
    using data_off_le [OF that, of opts] len by (simp add: body_img_def)
  ultimately show ?thesis
    using assms index_entry_simps(1) [OF _ len] filter_block_match [OF _ len] last_concat_ne [OF assms(1,2)]
    by (simp add: table_rep_def) (simp add: sst_table_def)
qed

subsection \<open>Lookups\<close>

lemma sorted_concat_lt:
  assumes "sorted_run (concat bs)" and "i < j" and "j < length bs" and "x \<in> set (bs ! i)" and "y \<in> set (bs ! j)"
  shows "key_lt (ikey x) (ikey y)"
  using assms
proof (induction bs arbitrary: i j)
  case (Cons b bs)
  obtain j' where j: "j = Suc j'" using Cons.prems(2) by (cases j) auto
  show ?case
  proof (cases i)
    case 0
    have "y \<in> set (concat bs)" using Cons.prems j by auto
    then show ?thesis using Cons.prems 0 by (auto simp: sorted_run_def sorted_wrt_append)
  next
    case (Suc i')
    have "sorted_run (concat bs)" using Cons.prems(1) by (simp add: sorted_run_def sorted_wrt_append)
    from Cons.IH [OF this, of i' j'] Suc j Cons.prems show ?thesis by simp
  qed
qed simp

definition block_ix :: "entry list list \<Rightarrow> bytes \<times> u64 \<Rightarrow> nat" where
  "block_ix bs t = length (takeWhile (\<lambda>b. key_lt (ikey (last b)) t) bs)"

abbreviation target_of :: "bytes \<Rightarrow> bytes \<times> u64" where
  "target_of t \<equiv> (ExtractUserKey t, ExtractTag t)"

lemma index_lower_bound_ix:
  assumes "table_rep t opts bs"
  shows "index_lower_bound t target = block_ix bs (target_of target)"
proof -
  have ne: "bs ! i \<noteq> []" if "i < length bs" for i using assms that by (metis nth_mem table_rep_def)
  have key: "length (index t) = length bs" "\<And>i. i < length bs \<Longrightarrow> ie_key (index t ! i) = enc_ik (last (bs ! i))"
    using assms by (simp_all add: table_rep_def)
  have keys: "map ie_key (index t) = map (enc_ik \<circ> last) bs" using key by (auto intro: nth_equalityI)
  have "key_lt (ikey (last (bs ! i))) (ikey (last (bs ! j)))" if "i < j" "j < length bs" for i j
    using sorted_concat_lt [of bs i j] assms that ne by (simp add: table_rep_def)
  then have "sorted_wrt (\<lambda>a b. InternalKeyComparator (ie_key a) (ie_key b)) (index t)"
    using key by (simp add: sorted_wrt_iff_nth_less)
  then have "index_lower_bound t target = length (takeWhile (\<lambda>e. InternalKeyComparator (ie_key e) target) (index t))"
    unfolding index_lower_bound_def lower_bound_def
    by (rule partition_point_sorted) (rule ik.lt_trans)
  also have "\<dots> = length (takeWhile (\<lambda>k. InternalKeyComparator k target) (map ie_key (index t)))"
    by (simp add: takeWhile_map comp_def)
  also have "\<dots> = block_ix bs (target_of target)"
    unfolding keys by (simp add: takeWhile_map comp_def block_ix_def cmp_target)
  finally show ?thesis .
qed

lemma sorted_run_last: "sorted_run b \<Longrightarrow> e \<in> set b \<Longrightarrow> e = last b \<or> key_lt (ikey e) (ikey (last b))"
  by (cases b rule: rev_cases) (auto simp: sorted_run_def sorted_wrt_append)

lemma find_block:
  assumes "sorted_run (concat bs)" and "[] \<notin> set bs"
  shows "find (\<lambda>e. \<not> key_lt (ikey e) t) (concat bs) =
    (if block_ix bs t < length bs then find (\<lambda>e. \<not> key_lt (ikey e) t) (bs ! block_ix bs t) else None)
    \<and> (block_ix bs t < length bs \<longrightarrow> find (\<lambda>e. \<not> key_lt (ikey e) t) (bs ! block_ix bs t) \<noteq> None)"
  using assms
proof (induction bs)
  case (Cons b bs)
  have b: "b \<noteq> []" and sr: "sorted_run b" "sorted_run (concat bs)"
    using Cons.prems by (auto simp: sorted_run_def sorted_wrt_append)
  show ?case
  proof (cases "key_lt (ikey (last b)) t")
    case True
    have "key_lt (ikey e) t" if "e \<in> set b" for e
      using sorted_run_last [OF sr(1) that] True kl.lt_trans [of "ikey e" "ikey (last b)" t] by auto
    then have "find (\<lambda>e. \<not> key_lt (ikey e) t) b = None" by (intro find_None_all) simp
    then show ?thesis using True Cons.IH [OF sr(2)] Cons.prems(2) by (simp add: find_append block_ix_def)
  next
    case False
    then have "find (\<lambda>e. \<not> key_lt (ikey e) t) b \<noteq> None"
      using last_in_set [OF b] unfolding find_None_iff by blast
    then show ?thesis using False by (auto simp: find_append block_ix_def split: option.splits)
  qed
qed (simp add: block_ix_def)

lemma block_opened:
  assumes "table_rep t opts bs" and "i < length bs"
  obtains es js where "opened (table_block t i) es js" "ordered es" "map snd es = map enc_kv (bs ! i)"
proof -
  have tb: "table_block t i = NewBlock (blk_img opts (bs ! i))" "length (blk_img opts (bs ! i)) < 2 ^ 32"
    using assms by (simp_all add: table_rep_def)
  have "bs ! i \<noteq> []" using assms by (metis nth_mem table_rep_def)
  then obtain es js where img: "block_image (blk_img opts (bs ! i)) es js" and es: "map snd es = map enc_kv (bs ! i)"
    using finished_image [of "map enc_kv (bs ! i)" "opt_restart_interval opts"] tb(2) by (auto simp: blk_img_def)
  have "sorted_run (bs ! i)"
  proof -
    have "concat bs = concat (take i bs) @ bs ! i @ concat (drop (Suc i) bs)"
      using arg_cong [OF id_take_nth_drop [OF assms(2)], of concat] by simp
    moreover have "sorted_run (concat bs)" using assms(1) by (simp add: table_rep_def)
    ultimately show ?thesis by (simp add: sorted_run_def sorted_wrt_append)
  qed
  then have "sorted_wrt (\<lambda>a b. InternalKeyComparator (fst a) (fst b)) (map snd es)" unfolding es by (simp add: sorted_run_kv)
  then have "ordered es" by (simp add: ordered_def sorted_wrt_map)
  with NewBlock_opened [OF img] es tb(1) that show thesis by simp
qed

lemma find_kv:
  "find (\<lambda>kv. \<not> InternalKeyComparator (fst kv) t) (map enc_kv b) = map_option enc_kv (find (\<lambda>e. \<not> key_lt (ikey e) (target_of t)) b)"
  by (induction b) (auto simp: cmp_target)

lemma Table_Get_rep:
  assumes rep: "table_rep t opts bs"
  shows "Table_Get t k mx = Some (lookup_of (lookup_spec (concat bs) k (target_tag mx)), Ok)"
proof -
  let ?T = "target_tag mx"
  let ?target = "k @ PutFixed64 ?T"
  let ?i = "block_ix bs (k, ?T)"
  have ix: "index_lower_bound t ?target = ?i" by (simp add: index_lower_bound_ix [OF rep])
  have sr: "sorted_run (concat bs)" "[] \<notin> set bs" "length (index t) = length bs" using rep by (simp_all add: table_rep_def)
  note fb = find_block [OF sr(1,2), of "(k, ?T)"]
  have le: "?i \<le> length bs" by (simp add: block_ix_def length_takeWhile_le)
  show ?thesis
  proof (cases "?i < length bs")
    case False
    then have "?i = length bs" using le by simp
    then show ?thesis using fb sr(3) ix by (simp add: seek_lookup [OF sr(1)] Table_Get_def lookup_of_def)
  next
    case True
    then obtain e where e: "find (\<lambda>e. \<not> key_lt (ikey e) (k, ?T)) (bs ! ?i) = Some e" using fb by auto
    then have mem: "e \<in> set (bs ! ?i)" by (auto simp: find_Some_iff)
    have lk: "lookup_spec (concat bs) k ?T = (if ukey e = k then Some e else None)"
      using fb True e by (simp add: seek_lookup [OF sr(1)])
    have km: "KeyMayMatchInBlock t ?i k = Some (KeyMayMatch (blk_filter opts (bs ! ?i)) k)"
      using rep True by (simp add: table_rep_def)
    show ?thesis
    proof (cases "KeyMayMatch (blk_filter opts (bs ! ?i)) k")
      case False
      have "ukey e \<noteq> k" using False mem KeyMayMatch_built [of k "map ukey (bs ! ?i)"] by (auto simp: blk_filter_def)
      then show ?thesis using False km ix True lk sr(3) by (simp add: Table_Get_def lookup_of_def Let_def)
    next
      case match: True
      obtain es js where o: "opened (table_block t ?i) es js" "ordered es" "map snd es = map enc_kv (bs ! ?i)"
        by (rule block_opened [OF rep True])
      let ?b = "Block_Seek ?target (table_block t ?i)"
      have "\<not> bcorrupted ?b \<and> (if bvalid ?b then Some (cur_key ?b, cur_value ?b) else None) = Some (enc_kv e)"
        using stands_find [OF Seek_stands [OF o(1,2)], of ?target] e unfolding o(3) find_kv by simp
      then have b: "\<not> bcorrupted ?b" "bvalid ?b" "cur_key ?b = enc_ik e" "cur_value ?b = evalue e"
        by (auto simp: enc_kv_def split: if_splits)
      have "\<not> bcorrupted (table_block t ?i)" using o(1) by (simp add: opened_def)
      moreover have "kTagSize \<le> length (enc_ik e)" "sub (enc_ik e) 0 (length (enc_ik e) - kTagSize) = ukey e"
        "GetFixed64 (drop (length (enc_ik e) - kTagSize) (enc_ik e)) = etag e"
        by (simp_all add: enc_ik_def const_defs bytes_simps)
      ultimately show ?thesis
        using match km ix True lk sr(3) b by (simp add: Table_Get_def lookup_of_def Let_def)
    qed
  qed
qed

text \<open>What a builder has been given is what its file is read back as.\<close>

lemma bld_table:
  assumes "bld_ok b opts bs cur" and "sorted_run (concat bs @ cur)" and "concat bs @ cur \<noteq> []"
    and len: "length (sfile (Finish_image b)) < 2 ^ 32"
  shows "\<exists>bs' n. sfile (Finish_image b) = sst_file opts bs' n \<and> concat bs' = concat bs @ cur \<and> n = of_nat (length (concat bs'))
    \<and> (\<forall>fnum m. parse_table fnum (sst_file opts bs' m) = Inr (sst_table fnum opts bs' m) \<and> table_rep (sst_table fnum opts bs' m) opts bs')"
proof -
  let ?bs = "if cur = [] then bs else bs @ [cur]"
  have c: "concat ?bs = concat bs @ cur" by auto
  have img: "sfile (Finish_image b) = sst_file opts ?bs (of_nat (length (concat ?bs)))"
    unfolding Finish_image_sfile [OF assms(1) refl] sst_img_def ..
  have ne: "?bs \<noteq> []" "[] \<notin> set ?bs" using assms(1,3) by (auto simp: bld_ok_def)
  have "length (body_img opts ?bs) < 2 ^ 32" using len unfolding img sst_file_def by simp
  with parse_sst [OF ne this] sst_table_rep [OF ne _ this] assms(2) c have
    "parse_table fnum (sst_file opts ?bs m) = Inr (sst_table fnum opts ?bs m) \<and> table_rep (sst_table fnum opts ?bs m) opts ?bs" for fnum m
    by metis
  with img c show ?thesis by blast
qed

lemma Builder_table:
  assumes "sorted_run (map entry_of xs)" and "xs \<noteq> []" and "Builder_Add_all xs (NewBuilder opts) = (s, b)"
    and len: "length (sfile (Finish_image b)) < 2 ^ 32"
  shows "s = Ok \<and> (\<exists>bs n. sfile (Finish_image b) = sst_file opts bs n \<and> concat bs = map entry_of xs \<and> n = of_nat (length xs)
    \<and> (\<forall>fnum m. parse_table fnum (sst_file opts bs m) = Inr (sst_table fnum opts bs m) \<and> table_rep (sst_table fnum opts bs m) opts bs))"
proof -
  obtain bs cur where b: "s = Ok" "bld_ok b opts bs cur" "concat bs @ cur = map entry_of xs"
    using bld_ok_Add_all [OF bld_ok_New, of xs opts] assms(1,3) by auto
  obtain bs' n where t: "sfile (Finish_image b) = sst_file opts bs' n" "concat bs' = map entry_of xs" "n = of_nat (length (concat bs'))"
    "\<forall>fnum m. parse_table fnum (sst_file opts bs' m) = Inr (sst_table fnum opts bs' m) \<and> table_rep (sst_table fnum opts bs' m) opts bs'"
    using bld_table [OF b(2) _ _ len] assms(1,2) unfolding b(3) by auto
  have "n = of_nat (length xs)" using t(2,3) by (metis length_map)
  with b(1) t(1,2,4) show ?thesis by blast
qed

subsection \<open>Iteration\<close>

text \<open>The iterator stands before the entries \<open>rest\<close>.\<close>

definition ti_at :: "TableIterator \<Rightarrow> TableOptions \<Rightarrow> entry list list \<Rightarrow> entry list \<Rightarrow> bool" where
  "ti_at ti opts bs rest \<longleftrightarrow> table_rep (ti_table ti) opts bs \<and>
     (if rest = [] then \<not> ti_valid ti
      else ti_valid ti \<and> (\<exists>j es js. block_index ti < length bs \<and> positioned (ti_block ti) es js j
             \<and> map snd es = map enc_kv (bs ! block_index ti)
             \<and> rest = drop j (bs ! block_index ti) @ concat (drop (Suc (block_index ti)) bs)))"

lemma enc_kv_nth: "map snd es = map enc_kv b \<Longrightarrow> j < length es \<Longrightarrow> snd (es ! j) = enc_kv (b ! j)"
  by (metis length_map nth_map)

lemma map_snd_length: "map snd es = map enc_kv b \<Longrightarrow> length es = length b"
  by (metis length_map)

lemma ti_at_entry:
  assumes "ti_at ti opts bs rest" and "rest \<noteq> []"
  shows "ti_valid ti \<and> cur_key (ti_block ti) = enc_ik (hd rest) \<and> cur_value (ti_block ti) = evalue (hd rest)"
proof -
  obtain j es js where p: "positioned (ti_block ti) es js j" "map snd es = map enc_kv (bs ! block_index ti)"
      "rest = drop j (bs ! block_index ti) @ concat (drop (Suc (block_index ti)) bs)" "ti_valid ti"
    using assms by (auto simp: ti_at_def)
  then have j: "j < length es" by (simp add: positioned_def)
  with p(3) map_snd_length [OF p(2)] have "hd rest = bs ! block_index ti ! j" by (simp add: hd_append hd_drop_conv_nth)
  with enc_kv_nth [OF p(2) j] p(1,4) show ?thesis by (simp add: positioned_def enc_kv_def)
qed

lemma EnterBlock_first:
  assumes "table_rep (ti_table ti) opts bs" and "i < length bs"
  shows "ti_at (EnterBlock i True ti) opts bs (concat (drop i bs))"
proof -
  obtain es js where o: "opened (table_block (ti_table ti) i) es js" "map snd es = map enc_kv (bs ! i)"
    by (rule block_opened [OF assms])
  note p = SeekToFirst_positioned [OF o(1)]
  have ne: "bs ! i \<noteq> []" using assms by (metis nth_mem table_rep_def)
  have c: "concat (drop i bs) = bs ! i @ concat (drop (Suc i) bs)"
    using assms(2) by (simp add: Cons_nth_drop_Suc [symmetric])
  have "\<not> bcorrupted (table_block (ti_table ti) i)" using o(1) by (simp add: opened_def)
  then have e: "EnterBlock i True ti = ti\<lparr>block_index := i, ti_block := Block_SeekToFirst (table_block (ti_table ti) i), ti_valid := True\<rparr>"
    using p by (simp add: EnterBlock_def Let_def positioned_def)
  show ?thesis using assms p o(2) ne c unfolding e ti_at_def by (auto intro!: exI [of _ 0] exI [of _ es] exI [of _ js])
qed

lemma ti_SeekToFirst_at:
  assumes "table_rep (ti_table ti) opts bs"
  shows "ti_at (ti_SeekToFirst ti) opts bs (concat bs)"
proof -
  have "bs \<noteq> []" "length (index (ti_table ti)) = length bs" using assms by (simp_all add: table_rep_def)
  then show ?thesis
    using EnterBlock_first [of "ti\<lparr>ti_corrupted := False\<rparr>" opts bs 0] assms by (auto simp: ti_SeekToFirst_def Let_def)
qed

lemma ti_Next_at:
  assumes "ti_at ti opts bs rest" and "rest \<noteq> []"
  shows "ti_at (ti_Next ti) opts bs (tl rest)"
proof -
  let ?i = "block_index ti"
  obtain j es js where p: "positioned (ti_block ti) es js j" "map snd es = map enc_kv (bs ! ?i)"
      "rest = drop j (bs ! ?i) @ concat (drop (Suc ?i) bs)" and v: "ti_valid ti" "?i < length bs"
    and rep: "table_rep (ti_table ti) opts bs"
    using assms by (auto simp: ti_at_def)
  note len = map_snd_length [OF p(2)]
  have j: "j < length (bs ! ?i)" using p(1) len by (simp add: positioned_def)
  then have tl: "tl rest = drop (Suc j) (bs ! ?i) @ concat (drop (Suc ?i) bs)"
    using p(3) Cons_nth_drop_Suc [OF j, symmetric] by simp
  have n: "if Suc j < length es then positioned (Block_Next (ti_block ti)) es js (Suc j)
      else exhausted (Block_Next (ti_block ti)) es js" by (rule Next_positioned [OF p(1)])
  then have nc: "\<not> bcorrupted (Block_Next (ti_block ti))"
    by (auto simp: positioned_def exhausted_def opened_def split: if_splits)
  show ?thesis
  proof (cases "Suc j < length es")
    case True
    then have p': "positioned (Block_Next (ti_block ti)) es js (Suc j)" using n by simp
    then have e: "ti_Next ti = ti\<lparr>ti_block := Block_Next (ti_block ti)\<rparr>"
      using v nc by (simp add: ti_Next_def Let_def positioned_def)
    have "tl rest \<noteq> []" using tl True len by simp
    then show ?thesis using rep v p' p(2) tl unfolding e ti_at_def
      by (auto intro!: exI [of _ "Suc j"] exI [of _ es] exI [of _ js])
  next
    case False
    then have nv: "\<not> bvalid (Block_Next (ti_block ti))" using n by (simp add: exhausted_def)
    have tl': "tl rest = concat (drop (Suc ?i) bs)" using tl False len by simp
    have il: "length (index (ti_table ti)) = length bs" using rep by (simp add: table_rep_def)
    show ?thesis
    proof (cases "Suc ?i < length bs")
      case True
      then have "ti_Next ti = EnterBlock (Suc ?i) True (ti\<lparr>ti_block := Block_Next (ti_block ti)\<rparr>)"
        using v nc nv il by (simp add: ti_Next_def Let_def)
      then show ?thesis using EnterBlock_first [of "ti\<lparr>ti_block := Block_Next (ti_block ti)\<rparr>" opts bs "Suc ?i"] rep True tl' by simp
    next
      case False
      then show ?thesis using v nc nv il rep tl' by (simp add: ti_Next_def Let_def ti_at_def)
    qed
  qed
qed

lemma seek_ix_kv:
  assumes "map snd es = map enc_kv b"
  shows "seek_ix es t = length (takeWhile (\<lambda>e. key_lt (ikey e) (target_of t)) b)"
proof -
  have "length (takeWhile (\<lambda>e. InternalKeyComparator (bkey e) t) es) = length (takeWhile (\<lambda>kv. InternalKeyComparator (fst kv) t) (map snd es))"
    by (simp add: takeWhile_map comp_def)
  then show ?thesis unfolding seek_ix_def assms by (simp add: takeWhile_map comp_def cmp_target)
qed

lemma dropWhile_block:
  assumes "sorted_run (concat bs)" and "[] \<notin> set bs"
  shows "dropWhile (\<lambda>e. key_lt (ikey e) t) (concat bs) =
    (if block_ix bs t < length bs
     then dropWhile (\<lambda>e. key_lt (ikey e) t) (bs ! block_ix bs t) @ concat (drop (Suc (block_ix bs t)) bs) else [])
    \<and> (block_ix bs t < length bs \<longrightarrow> dropWhile (\<lambda>e. key_lt (ikey e) t) (bs ! block_ix bs t) \<noteq> [])"
  using assms
proof (induction bs)
  case (Cons b bs)
  have b: "b \<noteq> []" and sr: "sorted_run b" "sorted_run (concat bs)"
    using Cons.prems by (auto simp: sorted_run_def sorted_wrt_append)
  show ?case
  proof (cases "key_lt (ikey (last b)) t")
    case True
    have "key_lt (ikey e) t" if "e \<in> set b" for e
      using sorted_run_last [OF sr(1) that] True kl.lt_trans [of "ikey e" "ikey (last b)" t] by auto
    then show ?thesis using True Cons.IH [OF sr(2)] Cons.prems(2) by (simp add: block_ix_def dropWhile_append)
  next
    case False
    then have "dropWhile (\<lambda>e. key_lt (ikey e) t) b \<noteq> []"
      using last_in_set [OF b] unfolding dropWhile_eq_Nil_conv by blast
    then show ?thesis using False by (auto simp: block_ix_def dropWhile_append)
  qed
qed (simp add: block_ix_def)

lemma ti_Seek_at:
  assumes rep: "table_rep (ti_table ti) opts bs"
  shows "ti_at (ti_Seek t ti) opts bs (dropWhile (\<lambda>e. key_lt (ikey e) (target_of t)) (concat bs))"
proof -
  let ?i = "block_ix bs (target_of t)"
  have sr: "sorted_run (concat bs)" "[] \<notin> set bs" "length (index (ti_table ti)) = length bs"
    using rep by (simp_all add: table_rep_def)
  note db = dropWhile_block [OF sr(1,2), of "target_of t"]
  have le: "?i \<le> length bs" by (simp add: block_ix_def length_takeWhile_le)
  show ?thesis
  proof (cases "?i < length bs")
    case False
    then show ?thesis using db le rep sr(3) by (simp add: ti_Seek_def Let_def index_lower_bound_ix [OF rep] ti_at_def)
  next
    case True
    obtain es js where o: "opened (table_block (ti_table ti) ?i) es js" "ordered es" "map snd es = map enc_kv (bs ! ?i)"
      by (rule block_opened [OF rep True])
    let ?b = "Block_Seek t (table_block (ti_table ti) ?i)" and ?p = "\<lambda>e. key_lt (ikey e) (target_of t)"
    have ne: "dropWhile ?p (bs ! ?i) \<noteq> []" using db True by simp
    have dr: "dropWhile ?p (bs ! ?i) = drop (seek_ix es t) (bs ! ?i)"
      by (simp add: seek_ix_kv [OF o(3)] dropWhile_eq_drop)
    then have "seek_ix es t < length es" using ne map_snd_length [OF o(3)] by simp
    then have p: "positioned ?b es js (seek_ix es t)" using Seek_stands [OF o(1,2), of t] by (simp add: stands_def)
    have "\<not> bcorrupted (table_block (ti_table ti) ?i)" using o(1) by (simp add: opened_def)
    then have e: "ti_Seek t ti = ti\<lparr>ti_corrupted := False, block_index := ?i, ti_block := ?b, ti_valid := True\<rparr>"
      using True sr(3) p by (simp add: ti_Seek_def Let_def index_lower_bound_ix [OF rep] EnterBlock_def positioned_def)
    show ?thesis using rep True p o(3) db dr ne unfolding e ti_at_def
      by (auto intro!: exI [of _ "seek_ix es t"] exI [of _ es] exI [of _ js])
  qed
qed

subsection \<open>Properties\<close>

lemma no_fail_file_read_loop: "no_fail w \<Longrightarrow> file_read_loop rest out w = (r, w') \<Longrightarrow> \<exists>d. r = Inr d"
proof (induction rest out w arbitrary: r w' rule: file_read_loop.induct)
  case (1 rest out w)
  obtain a w1 where a: "ask w = (a, w1)" by (cases "ask w")
  from no_fail_ask [OF "1.prems"(1) a] show ?case
    using "1.IH" [OF a [symmetric]] "1.prems" a
    by (auto simp: file_read_loop.simps [of rest out w] Let_def split: if_splits)
qed

lemma no_fail_ReadFileToString:
  assumes "no_fail w" and "content w p = Some d"
  shows "\<exists>w'. ReadFileToString p w = (Ok, d, w')"
proof -
  obtain i where i: "names w p = Some i" "inodes w i = d" using assms(2) by (auto simp: content_def)
  obtain w1 where 1: "no_fail w1" "same w w1" "call w (\<lambda>w. ((), w)) = (Inr (), w1)"
    using no_fail_call [OF assms(1), of "\<lambda>w. ((), w)"] by auto
  obtain r w2 where r: "file_read_loop (inodes w1 i) [] w1 = (r, w2)" by (cases "file_read_loop (inodes w1 i) [] w1")
  with no_fail_file_read_loop [OF 1(1)] file_read_loop_out [of "inodes w1 i" "[]" w1] i 1 same_simps [OF 1(2)] show ?thesis
    by (fastforce simp: ReadFileToString_def)
qed

text \<open>
  C5: a table built from a strictly increasing run of entries, written with
  \<^verbatim>\<open>Builder::Finish\<close> and read back by \<^verbatim>\<open>Table::Open\<close>, after any power cut that follows
  the successful write: opening never reports corruption and fails only on an I/O error,
  and \<^verbatim>\<open>Table::Get\<close> answers every key at every sequence number exactly as the entries
  do, whatever the block size, restart interval and number of Bloom bits, as long as the
  file stays below 4 GiB.
\<close>

theorem sst_lookup:
  assumes run: "sorted_run (map entry_of xs)" "xs \<noteq> []"
    and add: "Builder_Add_all xs (NewBuilder opts) = (s, b)" and len: "length (sfile (Finish_image b)) < 2 ^ 32"
    and w: "world_ok w" and fin: "Builder_Finish p mt b w = (s', mt', b', w')" and ok: "ok s'" and cr: "crash w' w''"
    and op: "Table_Open fnum p w'' = (r, w3)"
  shows "ok s \<and> (no_fail w'' \<longrightarrow> (\<exists>t. r = Inr t)) \<and>
    (case r of Inl e \<Rightarrow> code e = kIOError
     | Inr t \<Rightarrow> Table_Get t k mx = Some (lookup_of (lookup_spec (map entry_of xs) k (target_tag mx)), Ok))"
proof -
  obtain bs n where t: "s = Ok" "sfile (Finish_image b) = sst_file opts bs n" "concat bs = map entry_of xs"
    "parse_table fnum (sst_file opts bs n) = Inr (sst_table fnum opts bs n)" "table_rep (sst_table fnum opts bs n) opts bs"
    using Builder_table [OF run add len] by blast
  have "WriteFileDurable p (sst_file opts bs n) w = (s', w')"
    using fin t(2) by (auto simp: Builder_Finish_def Let_def split: prod.splits)
  with WriteFileDurable_ok [OF this w] ok durable_crash [OF _ cr] have c: "content w'' p = Some (sst_file opts bs n)" by blast
  obtain s2 d w4 where rd: "ReadFileToString p w'' = (s2, d, w4)" by (cases "ReadFileToString p w''")
  have err: "code s2 = kIOError" if "\<not> ok s2"
    using rd that by (auto simp: ReadFileToString_def split: option.splits prod.splits sum.splits)
  have d: "d = sst_file opts bs n" if "ok s2" using ReadFileToString_ok [OF rd] that c by simp
  have nf: "ok s2" if "no_fail w''" using no_fail_ReadFileToString [OF that c] rd by auto
  have "r = (if ok s2 then Inr (sst_table fnum opts bs n) else Inl s2)"
    using op rd t(4) d by (auto simp: Table_Open_def split: if_splits)
  then show ?thesis using t(1,3,5) err nf Table_Get_rep [OF t(5), of k mx] by auto
qed

lemma length_BuildFilter: "length (BuildFilter keys n) = (if keys = [] then 0 else filter_bytes (length keys) n + 1)"
  by (simp add: BuildFilter_def Let_def fold_probes_length)

lemma crash_refl: "world_ok w \<Longrightarrow> crash w w"
  by (simp add: crash_def world_ok_def)

lemma single_image:
  assumes "Builder_Add_all [x] (NewBuilder opts) = (s, b)"
  shows "sfile (Finish_image b) = sst_img opts [[entry_of x]]"
proof -
  obtain bs cur where b: "bld_ok b opts bs cur" "concat bs @ cur = [entry_of x]"
    using bld_ok_Add_all [OF bld_ok_New, of "[x]" opts] assms by (auto simp: sorted_run_def)
  have ne: "[] \<notin> set bs" using b(1) by (simp add: bld_ok_def)
  have "(if cur = [] then bs else bs @ [cur]) = [[entry_of x]]"
  proof (cases bs)
    case Nil
    then show ?thesis using b(2) by simp
  next
    case (Cons c cs)
    with ne b(2) have c: "c = [entry_of x]" "concat cs @ cur = []" by (cases c; simp)+
    with ne Cons have "cs = []" by (cases cs) auto
    then show ?thesis using c Cons by simp
  qed
  with Finish_image_sfile [OF b(1) refl] show ?thesis by simp
qed

lemma single_small:
  assumes "Builder_Add_all [([97], 1, 1, [7])] (NewBuilder \<lparr>block_size = 4096, opt_restart_interval = 16, bloom_bits_per_key = 10\<rparr>) = (s, b)"
  shows "length (sfile (Finish_image b)) < 2 ^ 32"
    unfolding single_image [OF assms]
    by (simp add: sst_img_def sst_file_def body_img_def filter_img_def index_img_def index_kvs_def blk_img_def blk_filter_def
        finished_block_def block_add_all_def BlockBuilder_Finish_def BlockBuilder_Add_def NewBlockBuilder_def
        BlockBuilder_Reset_def block_entry_def length_BuildFilter filter_bytes_def entry_of_def enc_kv_def enc_ik_def
        block_handle_def kFooterSize_def)

theorem sst_lookup_witness:
  "let b = snd (Builder_Add_all [([97], 1, 1, [7])] (NewBuilder \<lparr>block_size = 4096, opt_restart_interval = 16, bloom_bits_per_key = 10\<rparr>))
   in case Builder_Finish (str ''a'') NewFileMeta b (empty_world []) of (s', mt', b', w') \<Rightarrow>
        (case Table_Open 5 (str ''a'') w' of (r, _) \<Rightarrow>
          case r of Inl e \<Rightarrow> False | Inr t \<Rightarrow> Table_Get t [97] kMaxSeq = Some (kFound [7], Ok))"
proof -
  let ?x = "([97], 1, 1, [7]) :: item" and ?opts = "\<lparr>block_size = 4096, opt_restart_interval = 16, bloom_bits_per_key = 10\<rparr>"
  obtain s b where add: "Builder_Add_all [?x] (NewBuilder ?opts) = (s, b)" by (cases "Builder_Add_all [?x] (NewBuilder ?opts)")
  note len = single_small [OF add]
  let ?w = "empty_world []"
  obtain s' mt' b' w' where fin: "Builder_Finish (str ''a'') NewFileMeta b ?w = (s', mt', b', w')"
    by (cases "Builder_Finish (str ''a'') NewFileMeta b ?w")
  then have wr: "WriteFileDurable (str ''a'') (sfile (Finish_image b)) ?w = (s', w')"
    by (auto simp: Builder_Finish_def Let_def split: prod.splits)
  have nf: "no_fail ?w" by (simp add: no_fail_def empty_world_def)
  have ok: "ok s'" by (rule no_fail_WriteFileDurable(1) [OF nf wr])
  have w': "world_ok w'" using WriteFileDurable_ok [OF wr empty_world_ok] by simp
  have nf': "no_fail w'" by (rule no_fail_WriteFileDurable(2) [OF nf wr])
  obtain r w3 where op: "Table_Open 5 (str ''a'') w' = (r, w3)" by (cases "Table_Open 5 (str ''a'') w'")
  have lk: "lookup_of (lookup_spec (map entry_of [?x]) [97] (target_tag kMaxSeq)) = kFound [7]"
    by (simp add: lookup_spec_def entry_of_def lookup_of_def target_tag_def kTypeValue_def)
  have "sorted_run (map entry_of [?x])" "[?x] \<noteq> []" by (simp_all add: sorted_run_def)
  from sst_lookup [OF this add len empty_world_ok fin ok crash_refl [OF w'] op, of "[97]" kMaxSeq] nf' lk add fin op
  show ?thesis by (auto simp: Let_def)
qed

lemma ti_walk:
  assumes "ti_at ti opts bs rest" and "i \<le> length rest"
  shows "ti_at ((ti_Next ^^ i) ti) opts bs (drop i rest)"
  using assms(2)
proof (induction i)
  case (Suc i)
  then show ?case using ti_Next_at [of "(ti_Next ^^ i) ti" opts bs "drop i rest"] by (simp add: tl_drop drop_Suc)
qed (use assms(1) in simp)

lemma ti_walk_entries:
  assumes at: "ti_at ti opts bs rest"
  shows "(\<forall>i < length rest. ti_valid ((ti_Next ^^ i) ti) \<and> cur_key (ti_block ((ti_Next ^^ i) ti)) = enc_ik (rest ! i)
      \<and> cur_value (ti_block ((ti_Next ^^ i) ti)) = evalue (rest ! i)) \<and> \<not> ti_valid ((ti_Next ^^ length rest) ti)"
proof (intro conjI [OF allI [OF impI]])
  fix i assume i: "i < length rest"
  have "drop i rest \<noteq> []" "hd (drop i rest) = rest ! i" using i by (simp_all add: hd_drop_conv_nth)
  then show "ti_valid ((ti_Next ^^ i) ti) \<and> cur_key (ti_block ((ti_Next ^^ i) ti)) = enc_ik (rest ! i)
      \<and> cur_value (ti_block ((ti_Next ^^ i) ti)) = evalue (rest ! i)"
    using ti_at_entry [OF ti_walk [OF at, of i]] i by simp
next
  show "\<not> ti_valid ((ti_Next ^^ length rest) ti)" using ti_walk [OF at, of "length rest"] by (simp add: ti_at_def)
qed

text \<open>
  C11: iterating over such a table from \<^verbatim>\<open>Seek(t)\<close> with \<^verbatim>\<open>Next\<close> delivers exactly the
  entries from the first one not below the target to the end, across all block
  boundaries, and then becomes invalid.
\<close>

theorem sst_iterate:
  assumes "sorted_run (map entry_of xs)" and "xs \<noteq> []" and "Builder_Add_all xs (NewBuilder opts) = (s, b)"
    and "length (sfile (Finish_image b)) < 2 ^ 32" and "parse_table fnum (sfile (Finish_image b)) = Inr t"
  shows "let rest = dropWhile (\<lambda>e. InternalKeyComparator (enc_ik e) target) (map entry_of xs);
             walk = (\<lambda>i. (ti_Next ^^ i) (ti_Seek target (NewTableIterator t)))
         in (\<forall>i < length rest. ti_valid (walk i) \<and> cur_key (ti_block (walk i)) = enc_ik (rest ! i) \<and>
               cur_value (ti_block (walk i)) = evalue (rest ! i)) \<and>
            \<not> ti_valid (walk (length rest))"
proof -
  obtain bs n where t: "concat bs = map entry_of xs" "table_rep t opts bs"
    using Builder_table [OF assms(1-4)] assms(5) by (metis sum.inject(2))
  let ?rest = "dropWhile (\<lambda>e. InternalKeyComparator (enc_ik e) target) (map entry_of xs)"
  let ?ti = "ti_Seek target (NewTableIterator t)"
  have at: "ti_at ?ti opts bs ?rest"
    using ti_Seek_at [of "NewTableIterator t" opts bs target] t by (simp add: NewTableIterator_def cmp_target)
  show ?thesis unfolding Let_def using ti_walk_entries [OF at] by blast
qed

theorem sst_iterate_witness:
  "let b = snd (Builder_Add_all [([97], 1, 1, [7])] (NewBuilder \<lparr>block_size = 4096, opt_restart_interval = 16, bloom_bits_per_key = 10\<rparr>))
   in case parse_table 5 (sfile (Finish_image b)) of Inl e \<Rightarrow> False
      | Inr t \<Rightarrow> ti_valid (ti_Seek [] (NewTableIterator t)) \<and> cur_value (ti_block (ti_Seek [] (NewTableIterator t))) = [7]"
proof -
  let ?x = "([97], 1, 1, [7]) :: item" and ?opts = "\<lparr>block_size = 4096, opt_restart_interval = 16, bloom_bits_per_key = 10\<rparr>"
  obtain s b where add: "Builder_Add_all [?x] (NewBuilder ?opts) = (s, b)" by (cases "Builder_Add_all [?x] (NewBuilder ?opts)")
  note len = single_small [OF add]
  have run: "sorted_run (map entry_of [?x])" "[?x] \<noteq> []" by (simp_all add: sorted_run_def)
  obtain t where t: "parse_table 5 (sfile (Finish_image b)) = Inr t" using Builder_table [OF run add len] by metis
  from sst_iterate [OF run add len t, of "[]"] add t show ?thesis
    by (simp add: Let_def cmp_target ExtractUserKey_def key_lt_def entry_of_def)
qed

lemma Builder_Add_refuses:
  assumes "bld_ok b opts bs cur" and ne: "concat bs @ cur \<noteq> []"
    and "\<not> key_lt (ikey (last (concat bs @ cur))) (k, make_tag seq t)"
  shows "\<not> ok (fst (Builder_Add k seq t v b))"
proof -
  have "has_last_key b" using ne assms(1) unfolding bld_ok_def by blast
  moreover have "last_internal_key b = enc_ik (last (concat bs @ cur))" using ne assms(1) unfolding bld_ok_def by blast
  ultimately have "Builder_Add k seq t v b = (InvalidArgument (str ''sstable entries must be strictly increasing''), b)"
    using assms(3) by (simp add: Builder_Add_def Let_def EncodeInternalKey_enc_ik [of k seq t v])
  then show ?thesis by simp
qed

lemma Add_all_order:
  assumes "bld_ok b opts bs cur" and "sorted_run (concat bs @ cur)" and "ok (fst (Builder_Add_all xs b))"
  shows "sorted_run (concat bs @ cur @ map entry_of xs)"
  using assms
proof (induction xs arbitrary: b bs cur)
  case (Cons x xs)
  let ?all = "concat bs @ cur"
  obtain k seq t v where x: "x = (k, seq, t, v)" by (cases x)
  have lt: "key_lt (ikey (last ?all)) (k, make_tag seq t)" if ne: "?all \<noteq> []"
    using Builder_Add_refuses [OF Cons.prems(1) ne, of k seq t v] Cons.prems(3) x
    by (auto split: prod.splits if_splits)
  obtain b1 bs1 cur1 where 1: "Builder_Add k seq t v b = (Ok, b1)" "bld_ok b1 opts bs1 cur1"
       "concat bs1 @ cur1 = concat bs @ cur @ [(k, make_tag seq t, v)]"
    by (rule bld_ok_Add [OF Cons.prems(1) lt, of v])
  have "sorted_run (?all @ [(k, make_tag seq t, v)])"
  proof -
    have "key_lt (ikey e) (k, make_tag seq t)" if "e \<in> set ?all" for e
    proof -
      have "?all \<noteq> []" using that by (intro notI) (simp only: list.set empty_iff)
      then show ?thesis
        using sorted_run_last [OF Cons.prems(2) that] lt kl.lt_trans [of "ikey e" "ikey (last ?all)" "(k, make_tag seq t)"] by auto
    qed
    then show ?thesis using Cons.prems(2) by (auto simp: sorted_run_def sorted_wrt_append)
  qed
  then have "sorted_run (concat bs1 @ cur1)" by (simp add: 1(3))
  moreover have "ok (fst (Builder_Add_all xs b1))" using Cons.prems(3) 1(1) x by simp
  ultimately have "sorted_run (concat bs1 @ cur1 @ map entry_of xs)" by (rule Cons.IH [OF 1(2)])
  moreover have "concat bs1 @ cur1 @ map entry_of xs = concat bs @ cur @ map entry_of (x # xs)"
    using arg_cong [OF 1(3), of "\<lambda>z. z @ map entry_of xs"] by (simp add: x entry_of_def)
  ultimately show ?case by (simp only:)
qed simp

text \<open>
  C20: the builder accepts a sequence of entries exactly when it is strictly increasing in
  the internal-key order; the first entry out of order is refused with an error.
\<close>

theorem sst_builder_order:
  "ok (fst (Builder_Add_all xs (NewBuilder opts))) \<longleftrightarrow> sorted_run (map entry_of xs)"
proof
  assume "ok (fst (Builder_Add_all xs (NewBuilder opts)))"
  from Add_all_order [OF bld_ok_New _ this] show "sorted_run (map entry_of xs)" by (simp add: sorted_run_def)
next
  assume "sorted_run (map entry_of xs)"
  with bld_ok_Add_all [OF bld_ok_New, of xs opts] show "ok (fst (Builder_Add_all xs (NewBuilder opts)))" by auto
qed

lemma parse_table_crc:
  assumes "parse_table fnum (body @ f) = Inr t" and "length f = kFooterSize"
  shows "Crc32 body 0 = GetFixed32 (drop 32 f)"
  using assms by (simp add: parse_table_def Let_def split: if_splits)

lemma parse_table_mismatch:
  assumes "parse_table fnum (body @ f) = Inr t" and "length f = kFooterSize" and "length body' = length body"
    and "Crc32 body' 0 \<noteq> Crc32 body 0"
  shows "parse_table fnum (body' @ f) = Inl (str ''whole-file CRC mismatch'')"
  using assms parse_table_crc [OF assms(1,2)] by (simp add: parse_table_def Let_def split: if_splits)

text \<open>
  C18: damage to a table file: replacing up to four consecutive bytes anywhere before the
  footer of a file that opens makes \<^verbatim>\<open>Table::Open\<close> fail with the checksum error.
\<close>

theorem sst_detects_damage:
  assumes "parse_table fnum (a @ xs @ c @ f) = Inr t" and "length f = kFooterSize"
    and "length xs = length ys" and "length xs \<le> 4" and "xs \<noteq> ys"
  shows "parse_table fnum (a @ ys @ c @ f) = Inl (str ''whole-file CRC mismatch'')"
  using parse_table_mismatch [of fnum "a @ xs @ c" f t "a @ ys @ c"] Crc32_burst_neq [OF assms(3-5), of a c 0] assms
  by simp

text \<open>
  C33: the checksum does not cover the footer: the number of entries stored there can be
  replaced by any other number and \<^verbatim>\<open>Table::Open\<close> still succeeds, with the wrong count, although
  the comment in \<^verbatim>\<open>Builder::Finish\<close> says that one bit flipped anywhere fails \<^verbatim>\<open>Open\<close>.
\<close>

theorem sst_footer_unprotected:
  assumes "sorted_run (map entry_of xs)" and "xs \<noteq> []" and "Builder_Add_all xs (NewBuilder opts) = (s, b)"
    and "length (sfile (Finish_image b)) < 2 ^ 32"
  shows "\<exists>body pre post. sfile (Finish_image b) = body @ pre @ PutFixed64 (of_nat (length xs)) @ post \<and> length pre = 24 \<and>
    length post = 12 \<and> (\<forall>m. \<exists>t. parse_table fnum (body @ pre @ PutFixed64 m @ post) = Inr t \<and> t_num_entries t = m)"
proof -
  obtain bs where bs: "sfile (Finish_image b) = sst_file opts bs (of_nat (length xs))"
    "\<And>m. parse_table fnum (sst_file opts bs m) = Inr (sst_table fnum opts bs m)"
    using Builder_table [OF assms] by blast
  let ?D = "concat (map (blk_img opts) bs)"
  let ?pre = "PutFixed64 (of_nat (length ?D)) @ PutFixed32 (of_nat (length (filter_img opts bs))) @
      PutFixed64 (of_nat (length (?D @ filter_img opts bs))) @ PutFixed32 (of_nat (length (index_img opts bs)))"
  let ?post = "PutFixed32 (Crc32 (body_img opts bs) 0) @ kMagic"
  have f: "sst_file opts bs m = body_img opts bs @ ?pre @ PutFixed64 m @ ?post" for m
    by (simp add: sst_file_def footer_def)
  show ?thesis
    using bs(2) unfolding bs(1) f
    by (intro exI [of _ "body_img opts bs"] exI [of _ ?pre] exI [of _ ?post]) (simp add: sst_table_def kMagic_def)
qed

theorem sst_footer_unprotected_witness:
  "let b = snd (Builder_Add_all [([97], 1, 1, [7])] (NewBuilder \<lparr>block_size = 4096, opt_restart_interval = 16, bloom_bits_per_key = 10\<rparr>))
   in \<exists>d t. parse_table 5 d = Inr t \<and> t_num_entries t = 1000 \<and> take (length d - 20) d = take (length d - 20) (sfile (Finish_image b))"
proof -
  let ?x = "([97], 1, 1, [7]) :: item" and ?opts = "\<lparr>block_size = 4096, opt_restart_interval = 16, bloom_bits_per_key = 10\<rparr>"
  obtain s b where add: "Builder_Add_all [?x] (NewBuilder ?opts) = (s, b)" by (cases "Builder_Add_all [?x] (NewBuilder ?opts)")
  have run: "sorted_run (map entry_of [?x])" "[?x] \<noteq> []" by (simp_all add: sorted_run_def)
  obtain body pre post t where f: "sfile (Finish_image b) = body @ pre @ PutFixed64 (of_nat (length [?x])) @ post" "length pre = 24"
    "length post = 12" "parse_table 5 (body @ pre @ PutFixed64 1000 @ post) = Inr t" "t_num_entries t = 1000"
    using sst_footer_unprotected [OF run add single_small [OF add], of 5] by blast
  show ?thesis using add f by (auto simp: Let_def intro!: exI [of _ "body @ pre @ PutFixed64 1000 @ post"])
qed

theorem sst_detects_damage_witness:
  "let b = snd (Builder_Add_all [([97], 1, 1, [7])] (NewBuilder \<lparr>block_size = 4096, opt_restart_interval = 16, bloom_bits_per_key = 10\<rparr>));
       d = sfile (Finish_image b)
   in parse_table 5 ((hd d + 1) # tl d) = Inl (str ''whole-file CRC mismatch'')"
proof -
  let ?x = "([97], 1, 1, [7]) :: item" and ?opts = "\<lparr>block_size = 4096, opt_restart_interval = 16, bloom_bits_per_key = 10\<rparr>"
  obtain s b where add: "Builder_Add_all [?x] (NewBuilder ?opts) = (s, b)" by (cases "Builder_Add_all [?x] (NewBuilder ?opts)")
  have run: "sorted_run (map entry_of [?x])" "[?x] \<noteq> []" by (simp_all add: sorted_run_def)
  obtain bs n where bs: "sfile (Finish_image b) = sst_file ?opts bs n" "concat bs = map entry_of [?x]"
    "parse_table 5 (sst_file ?opts bs n) = Inr (sst_table 5 ?opts bs n)"
    using Builder_table [OF run add single_small [OF add]] by blast
  have "0 < length (body_img ?opts bs)"
    by (simp add: body_img_def index_img_def finished_block_def BlockBuilder_Finish_def)
  then obtain h r where hr: "body_img ?opts bs = h # r" by (cases "body_img ?opts bs") auto
  obtain f where f: "sst_file ?opts bs n = [] @ [h] @ r @ f" "length f = kFooterSize" by (simp add: sst_file_def hr)
  from sst_detects_damage [of 5 "[]" "[h]" r f "sst_table 5 ?opts bs n" "[h + 1]"] f bs add show ?thesis
    by (simp add: Let_def)
qed

text \<open>
  The 32-bit sum \<^verbatim>\<open>array_start + 4\<close> wraps: a four-byte filter block that claims its offsets
  start at \<^verbatim>\<open>0xfffffffc\<close> passes the bounds check and the first lookup reads outside it.
  Such a block needs a file with a matching checksum, which no builder writes.
\<close>

lemma filter_start_wraps:
  assumes "filter_block t = [0xfc, 0xff, 0xff, 0xff]"
  shows "KeyMayMatchInBlock t 0 k = None"
proof -
  have "GetFixed32 [0xfc, 0xff, 0xff, 0xff] = 0xfffffffc" by (simp add: GetFixed32_def)
  then show ?thesis by (simp add: KeyMayMatchInBlock_def assms Let_def read32_at_def)
qed

end
