(* ===== verification/Iterators.thy ===== *)
theory Iterators
  imports SSTableCorrect "HOL-Library.Multiset"
begin

text \<open>
  The iterator interface (\<^verbatim>\<open>include/bedrockkv/iterator.h\<close>) as a contract: an iterator over a
  sorted run stands before a suffix of it, and every operation moves it as the interface
  says. The memtable iterator, the table iterator and the dispatch over both provide it, and so
  does the merging iterator over any number of children, for the merge of their runs.
\<close>

subsection \<open>The contract\<close>

locale iterator =
  fixes over :: "'s \<Rightarrow> entry list \<Rightarrow> bool"
    and stnd :: "'s \<Rightarrow> entry list \<Rightarrow> entry list \<Rightarrow> bool"
    and i_valid :: "'s \<Rightarrow> bool" and i_key :: "'s \<Rightarrow> bytes" and i_value :: "'s \<Rightarrow> bytes"
    and i_first :: "'s \<Rightarrow> 's option" and i_seek :: "bytes \<Rightarrow> 's \<Rightarrow> 's option" and i_next :: "'s \<Rightarrow> 's option"
  assumes over_sorted: "over s es \<Longrightarrow> sorted_run es"
    and stnd_over: "stnd s es rest \<Longrightarrow> over s es"
    and stnd_suffix: "stnd s es rest \<Longrightarrow> \<exists>pre. es = pre @ rest"
    and valid_iff: "stnd s es rest \<Longrightarrow> i_valid s = (rest \<noteq> [])"
    and entry_at: "stnd s es rest \<Longrightarrow> rest \<noteq> [] \<Longrightarrow> i_key s = enc_ik (hd rest) \<and> i_value s = evalue (hd rest)"
    and first_stnd: "over s es \<Longrightarrow> \<exists>s'. i_first s = Some s' \<and> stnd s' es es"
    and seek_stnd: "over s es \<Longrightarrow> short_key k \<Longrightarrow>
          \<exists>s'. i_seek (k @ PutFixed64 T) s = Some s' \<and> stnd s' es (dropWhile (\<lambda>e. key_lt (ikey e) (k, T)) es)"
    and next_stnd: "stnd s es rest \<Longrightarrow> rest \<noteq> [] \<Longrightarrow> \<exists>s'. i_next s = Some s' \<and> stnd s' es (tl rest)"
begin

lemma rest_sorted:
  assumes "stnd s es rest"
  shows "sorted_run rest"
proof -
  obtain pre where "es = pre @ rest" using stnd_suffix [OF assms] by blast
  then show ?thesis using over_sorted [OF stnd_over [OF assms]] by (simp add: sorted_run_def sorted_wrt_append)
qed

text \<open>The entry a seek finds is the one a point read is defined by.\<close>

lemma seek_finds:
  assumes "over s es" and "short_key k"
  shows "\<exists>s'. i_seek (k @ PutFixed64 T) s = Some s' \<and>
    (if i_valid s' then Some (i_key s', i_value s') else None) = map_option enc_kv (find (\<lambda>e. \<not> key_lt (ikey e) (k, T)) es)"
proof -
  obtain s' where s': "i_seek (k @ PutFixed64 T) s = Some s'" "stnd s' es (dropWhile (\<lambda>e. key_lt (ikey e) (k, T)) es)"
    using seek_stnd [OF assms] by blast
  note v = valid_iff [OF s'(2)] and e = entry_at [OF s'(2)]
  show ?thesis
    using s'(1) v e by (cases "dropWhile (\<lambda>e. key_lt (ikey e) (k, T)) es") (simp_all add: find_hd_dropWhile enc_kv_def del: dropWhile_eq_Nil_conv)
qed

end

subsection \<open>MemTableIterator\<close>

definition mi_over :: "MemTable \<times> MemTableIterator \<Rightarrow> entry list \<Rightarrow> bool" where
  "mi_over s es \<longleftrightarrow> holds_run (fst s) es"

definition node_at :: "nat list \<Rightarrow> nat option" where
  "node_at ys = (case ys of [] \<Rightarrow> None | y # _ \<Rightarrow> Some y)"

definition mi_stnd :: "MemTable \<times> MemTableIterator \<Rightarrow> entry list \<Rightarrow> entry list \<Rightarrow> bool" where
  "mi_stnd s es rest \<longleftrightarrow> holds_run (fst s) es \<and>
     (\<exists>P xs ys. tower Comparator (nodes (mlist (fst s))) P \<and> P 0 = xs @ ys
        \<and> map (\<lambda>x. key (nodes (mlist (fst s)) ! x)) (P 0) = map enc_entry es
        \<and> map (\<lambda>x. key (nodes (mlist (fst s)) ! x)) ys = map enc_entry rest
        \<and> (\<exists>pre. es = pre @ rest) \<and> mit (snd s) = node_at ys)
     \<and> mvalid (snd s) = (rest \<noteq> [])
     \<and> (rest \<noteq> [] \<longrightarrow> key_buf (snd s) = enc_ik (hd rest) \<and> mvalue (snd s) = evalue (hd rest))"

lemma Decode_stnd:
  assumes h: "holds_run mt es" and t: "tower Comparator (nodes (mlist mt)) P" and P: "P 0 = xs @ ys"
    and m: "map (\<lambda>x. key (nodes (mlist mt) ! x)) (P 0) = map enc_entry es" and xs: "length xs = length pre" and es: "es = pre @ rest"
  shows "mi_stnd (mt, Decode mt (i\<lparr>mit := node_at ys\<rparr>)) es rest"
proof -
  let ?k = "\<lambda>x. key (nodes (mlist mt) ! x)"
  have ys: "map ?k ys = map enc_entry rest" using m P xs es by simp
  have w: "\<exists>P xs ys'. tower Comparator (nodes (mlist mt)) P \<and> P 0 = xs @ ys' \<and> map ?k (P 0) = map enc_entry es
      \<and> map ?k ys' = map enc_entry rest \<and> (\<exists>pre. es = pre @ rest) \<and> node_at ys = node_at ys'"
    using t P m ys es by blast
  show ?thesis
  proof (cases ys)
    case Nil
    then have "rest = []" using ys by simp
    then show ?thesis using h w Nil by (simp add: mi_stnd_def Decode_def node_at_def)
  next
    case (Cons y ys')
    then obtain e rest' where r: "rest = e # rest'" "?k y = enc_entry e" using ys by (cases rest) auto
    have k: "short_key (ukey e)" using h es r by (auto simp: holds_run_def)
    note parts = mem_entry_parts [OF k, of "etag e" "evalue e", folded enc_entry_def]
    have "Decode mt (i\<lparr>mit := node_at ys\<rparr>) = i\<lparr>mit := node_at ys, key_buf := enc_ik e, mvalue := evalue e, mvalid := True\<rparr>"
      using Cons r(2) parts by (simp add: Decode_def node_at_def enc_ik_def Let_def sub_def)
    then show ?thesis using h w r(1) by (simp add: mi_stnd_def)
  qed
qed

lemma mi_over_tower:
  assumes "holds_run mt es"
  obtains P where "tower Comparator (nodes (mlist mt)) P" "map (\<lambda>x. key (nodes (mlist mt) ! x)) (P 0) = map enc_entry es"
    "chain (nodes (mlist mt)) 0 0 (P 0)"
proof -
  obtain P where t: "tower Comparator (nodes (mlist mt)) P" and m: "map (\<lambda>x. key (nodes (mlist mt) ! x)) (P 0) = map enc_entry es"
    using assms by (auto simp: holds_run_def holds_keys_def)
  have "chain (nodes (mlist mt)) 0 0 (P 0)" using tower_levels(1) [OF t] by (simp add: kMaxLevel_def)
  with t m show thesis by (rule that)
qed

lemma chain_node_at: "chain ns 0 x ys \<Longrightarrow> Next ns x 0 = node_at ys"
  by (cases ys) (simp_all add: node_at_def)

lemma mi_first_stnd:
  assumes "holds_run mt es"
  shows "mi_stnd (mt, mi_SeekToFirst mt i) es es"
proof -
  obtain P where P: "tower Comparator (nodes (mlist mt)) P" "map (\<lambda>x. key (nodes (mlist mt) ! x)) (P 0) = map enc_entry es"
    "chain (nodes (mlist mt)) 0 0 (P 0)" by (rule mi_over_tower [OF assms])
  from Decode_stnd [OF assms P(1) _ P(2), of "[]" "P 0" "[]" es i] P(3) show ?thesis
    by (simp add: mi_SeekToFirst_def iter_SeekToFirst_def chain_node_at)
qed

lemma mi_next_stnd:
  assumes s: "mi_stnd (mt, i) es rest" and ne: "rest \<noteq> []"
  shows "mi_stnd (mt, mi_Next mt i) es (tl rest)"
proof -
  obtain P xs ys pre where P: "tower Comparator (nodes (mlist mt)) P" "P 0 = xs @ ys"
    "map (\<lambda>x. key (nodes (mlist mt) ! x)) (P 0) = map enc_entry es"
    "map (\<lambda>x. key (nodes (mlist mt) ! x)) ys = map enc_entry rest" "es = pre @ rest" "mit i = node_at ys" and h: "holds_run mt es"
    using s unfolding mi_stnd_def fst_conv snd_conv by blast
  obtain y ys' where y: "ys = y # ys'" using P(4) ne by (cases ys) auto
  have "chain (nodes (mlist mt)) 0 0 ((xs @ [y]) @ ys')" using tower_levels(1) [OF P(1), of 0] P(2) y by (simp add: kMaxLevel_def)
  from chain_append [OF this] have "Next (nodes (mlist mt)) y 0 = node_at ys'" by (simp add: chain_node_at)
  then have eq: "mi_Next mt i = Decode mt (i\<lparr>mit := node_at ys'\<rparr>)"
    using P(6) y by (simp add: mi_Next_def iter_Next_def node_at_def [of "y # ys'"])
  have "length (xs @ ys) = length es" using arg_cong [OF P(3), of length] P(2) by simp
  then have l: "length (xs @ [y]) = length (pre @ [hd rest])" using arg_cong [OF P(4), of length] P(5) by simp
  show ?thesis unfolding eq
    by (rule Decode_stnd [OF h P(1) _ P(3) l]) (use P(2,5) y ne in simp_all)
qed

lemma mi_seek_stnd:
  assumes h: "holds_run mt es" and k: "short_key k"
  shows "\<exists>i'. mi_Seek mt (k @ PutFixed64 T) i = Some i' \<and> mi_stnd (mt, i') es (dropWhile (\<lambda>e. key_lt (ikey e) (k, T)) es)"
proof -
  obtain P where P: "tower Comparator (nodes (mlist mt)) P" "map (\<lambda>x. key (nodes (mlist mt) ! x)) (P 0) = map enc_entry es"
    by (rule mi_over_tower [OF h])
  let ?ns = "nodes (mlist mt)" and ?t = "mem_entry k T []" and ?p = "\<lambda>e. key_lt (ikey e) (k, T)"
  let ?q = "\<lambda>x. Comparator (key (?ns ! x)) ?t"
  have s: "\<forall>x\<in>set es. short_key (ukey x)" using h by (auto simp: holds_run_def)
  obtain prev where "FindGreaterOrEqual Comparator ?ns ?t = Some (first_ge Comparator ?ns ?t (P 0), prev)"
    by (rule mem.FindGreaterOrEqual_returns [OF P(1), of ?t])
  then have sk: "iter_Seek Comparator (mlist mt) ?t = Some (node_at (dropWhile ?q (P 0)))"
    by (simp add: iter_Seek_def first_ge_def find_hd_dropWhile node_at_def)
  have "takeWhile (\<lambda>b. Comparator b ?t) (map enc_entry es) = map enc_entry (takeWhile ?p es)"
    using s k by (simp add: takeWhile_map comp_def) (intro arg_cong [of _ _ "map enc_entry"] takeWhile_cong refl, simp add: Comparator_key_lt)
  then have len: "length (takeWhile ?q (P 0)) = length (takeWhile ?p es)"
    using arg_cong [OF P(2), of "\<lambda>z. length (takeWhile (\<lambda>b. Comparator b ?t) z)"] by (simp add: takeWhile_map comp_def)
  have en: "mi_Seek mt (k @ PutFixed64 T) i = Some (Decode mt (i\<lparr>mit := node_at (dropWhile ?q (P 0))\<rparr>))"
    using sk by (simp add: mi_Seek_def Let_def mem_entry_def)
  show ?thesis unfolding en
    by (intro exI [of _ "Decode mt (i\<lparr>mit := node_at (dropWhile ?q (P 0))\<rparr>)"] conjI refl
        Decode_stnd [OF h P(1) _ P(2) len]) simp_all
qed

interpretation mem_it: iterator mi_over mi_stnd "\<lambda>s. mvalid (snd s)" "\<lambda>s. key_buf (snd s)" "\<lambda>s. mvalue (snd s)"
  "\<lambda>s. Some (fst s, mi_SeekToFirst (fst s) (snd s))"
  "\<lambda>t s. map_option (Pair (fst s)) (mi_Seek (fst s) t (snd s))"
  "\<lambda>s. Some (fst s, mi_Next (fst s) (snd s))"
proof (unfold_locales, goal_cases)
  case (1 s es)
  then show ?case by (auto simp: mi_over_def holds_run_sorted)
next
  case (6 s es)
  then show ?case using mi_first_stnd [of "fst s" es "snd s"] by (simp add: mi_over_def)
next
  case (7 s es k T)
  then show ?case using mi_seek_stnd [of "fst s" es k T "snd s"] by (auto simp: mi_over_def)
next
  case (8 s es rest)
  then show ?case using mi_next_stnd [of "fst s" "snd s" es rest] by simp
qed (auto simp: mi_over_def mi_stnd_def)

subsection \<open>TableIterator\<close>

definition ti_over :: "TableIterator \<Rightarrow> entry list \<Rightarrow> bool" where
  "ti_over ti es \<longleftrightarrow> (\<exists>opts bs. table_rep (ti_table ti) opts bs \<and> concat bs = es)"

definition ti_stnd :: "TableIterator \<Rightarrow> entry list \<Rightarrow> entry list \<Rightarrow> bool" where
  "ti_stnd ti es rest \<longleftrightarrow> (\<exists>opts bs pre. ti_at ti opts bs rest \<and> concat bs = es \<and> es = pre @ rest)"

interpretation table_it: iterator ti_over ti_stnd ti_valid "\<lambda>ti. cur_key (ti_block ti)" "\<lambda>ti. cur_value (ti_block ti)"
  "\<lambda>ti. Some (ti_SeekToFirst ti)" "\<lambda>t ti. Some (ti_Seek t ti)" "\<lambda>ti. Some (ti_Next ti)"
proof (unfold_locales, goal_cases)
  case (1 s es)
  then show ?case by (auto simp: ti_over_def table_rep_def)
next
  case (2 s es rest)
  then show ?case by (auto simp: ti_over_def ti_stnd_def ti_at_def)
next
  case (3 s es rest)
  then show ?case by (auto simp: ti_stnd_def)
next
  case (4 s es rest)
  then show ?case by (auto simp: ti_stnd_def ti_at_def split: if_splits)
next
  case (5 s es rest)
  then show ?case using ti_at_entry by (auto simp: ti_stnd_def)
next
  case (6 s es)
  then obtain opts bs where "table_rep (ti_table s) opts bs" "concat bs = es" by (auto simp: ti_over_def)
  then have "ti_at (ti_SeekToFirst s) opts bs es" "concat bs = es" "es = [] @ es" using ti_SeekToFirst_at by auto
  then show ?case unfolding ti_stnd_def by blast
next
  case (7 s es k T)
  then obtain opts bs where "table_rep (ti_table s) opts bs" and c: "concat bs = es" by (auto simp: ti_over_def)
  then have "ti_at (ti_Seek (k @ PutFixed64 T) s) opts bs (dropWhile (\<lambda>e. key_lt (ikey e) (k, T)) es)"
    using ti_Seek_at [of s opts bs "k @ PutFixed64 T"] by simp
  moreover have "es = takeWhile (\<lambda>e. key_lt (ikey e) (k, T)) es @ dropWhile (\<lambda>e. key_lt (ikey e) (k, T)) es" by simp
  ultimately show ?case unfolding ti_stnd_def using c by blast
next
  case (8 s es rest)
  then obtain opts bs pre where at: "ti_at s opts bs rest" and c: "concat bs = es" "es = pre @ rest" by (auto simp: ti_stnd_def)
  have "es = (pre @ [hd rest]) @ tl rest" using c(2) 8(2) by simp
  then show ?case unfolding ti_stnd_def using ti_Next_at [OF at 8(2)] c(1) by blast
qed

subsection \<open>Dispatch\<close>

text \<open>The children of a merge are iterators over memtables or tables, called through the interface.\<close>

datatype Child = MemChild MemTable MemTableIterator | TableChild TableIterator

fun child_Valid :: "Child \<Rightarrow> bool" where
  "child_Valid (MemChild mt i) = mvalid i"
| "child_Valid (TableChild ti) = ti_valid ti"

fun child_key :: "Child \<Rightarrow> bytes" where
  "child_key (MemChild mt i) = key_buf i"
| "child_key (TableChild ti) = cur_key (ti_block ti)"

fun child_value :: "Child \<Rightarrow> bytes" where
  "child_value (MemChild mt i) = mvalue i"
| "child_value (TableChild ti) = cur_value (ti_block ti)"

fun child_SeekToFirst :: "Child \<Rightarrow> Child option" where
  "child_SeekToFirst (MemChild mt i) = Some (MemChild mt (mi_SeekToFirst mt i))"
| "child_SeekToFirst (TableChild ti) = Some (TableChild (ti_SeekToFirst ti))"

fun child_Seek :: "bytes \<Rightarrow> Child \<Rightarrow> Child option" where
  "child_Seek t (MemChild mt i) = map_option (MemChild mt) (mi_Seek mt t i)"
| "child_Seek t (TableChild ti) = Some (TableChild (ti_Seek t ti))"

fun child_Next :: "Child \<Rightarrow> Child option" where
  "child_Next (MemChild mt i) = Some (MemChild mt (mi_Next mt i))"
| "child_Next (TableChild ti) = Some (TableChild (ti_Next ti))"

fun child_over :: "Child \<Rightarrow> entry list \<Rightarrow> bool" where
  "child_over (MemChild mt i) es = mi_over (mt, i) es"
| "child_over (TableChild ti) es = ti_over ti es"

fun child_stnd :: "Child \<Rightarrow> entry list \<Rightarrow> entry list \<Rightarrow> bool" where
  "child_stnd (MemChild mt i) es rest = mi_stnd (mt, i) es rest"
| "child_stnd (TableChild ti) es rest = ti_stnd ti es rest"

interpretation child: iterator child_over child_stnd child_Valid child_key child_value child_SeekToFirst child_Seek child_Next
proof (unfold_locales, goal_cases)
  case (1 s es)
  then show ?case using mem_it.over_sorted table_it.over_sorted by (cases s) auto
next
  case (2 s es rest)
  then show ?case using mem_it.stnd_over table_it.stnd_over by (cases s) auto
next
  case (3 s es rest)
  then show ?case using mem_it.stnd_suffix table_it.stnd_suffix by (cases s) auto
next
  case (4 s es rest)
  then show ?case using mem_it.valid_iff table_it.valid_iff by (cases s) fastforce+
next
  case (5 s es rest)
  then show ?case using mem_it.entry_at table_it.entry_at by (cases s) fastforce+
next
  case (6 s es)
  then show ?case using mem_it.first_stnd table_it.first_stnd by (cases s) fastforce+
next
  case (7 s es k T)
  then show ?case using mem_it.seek_stnd [of _ es k T] table_it.seek_stnd [of _ es k T] by (cases s) fastforce+
next
  case (8 s es rest)
  then show ?case using mem_it.next_stnd table_it.next_stnd by (cases s) fastforce+
qed

subsection \<open>MergingIterator\<close>

record MergingIterator =
  children :: "Child list"
  current :: "nat option"

definition NewMergingIterator :: "Child list \<Rightarrow> MergingIterator" where
  "NewMergingIterator cs = \<lparr>children = cs, current = None\<rparr>"

text \<open>The scan for the smallest key; the first of equal keys wins.\<close>

fun smallest_loop :: "Child list \<Rightarrow> nat \<Rightarrow> nat option \<Rightarrow> Child list \<Rightarrow> nat option" where
  "smallest_loop all i cur [] = cur"
| "smallest_loop all i cur (c # cs) =
     smallest_loop all (Suc i)
       (if child_Valid c \<and> (case cur of None \<Rightarrow> True | Some j \<Rightarrow> InternalKeyComparator (child_key c) (child_key (all ! j)))
        then Some i else cur) cs"

definition FindSmallest :: "MergingIterator \<Rightarrow> MergingIterator" where
  "FindSmallest m = m\<lparr>current := smallest_loop (children m) 0 None (children m)\<rparr>"

definition mg_Valid :: "MergingIterator \<Rightarrow> bool" where
  "mg_Valid m \<longleftrightarrow> current m \<noteq> None"

definition mg_key :: "MergingIterator \<Rightarrow> bytes" where
  "mg_key m = child_key (children m ! the (current m))"

definition mg_value :: "MergingIterator \<Rightarrow> bytes" where
  "mg_value m = child_value (children m ! the (current m))"

definition mg_SeekToFirst :: "MergingIterator \<Rightarrow> MergingIterator option" where
  "mg_SeekToFirst m = map_option (\<lambda>cs. FindSmallest (m\<lparr>children := cs\<rparr>)) (those (map child_SeekToFirst (children m)))"

definition mg_Seek :: "bytes \<Rightarrow> MergingIterator \<Rightarrow> MergingIterator option" where
  "mg_Seek t m = map_option (\<lambda>cs. FindSmallest (m\<lparr>children := cs\<rparr>)) (those (map (child_Seek t) (children m)))"

definition mg_Next :: "MergingIterator \<Rightarrow> MergingIterator option" where
  "mg_Next m = (case current m of
      None \<Rightarrow> Some (FindSmallest m)
    | Some j \<Rightarrow> map_option (\<lambda>c. FindSmallest (m\<lparr>children := (children m)[j := c]\<rparr>)) (child_Next (children m ! j)))"

text \<open>What the merge runs over, and where it stands: child \<open>i\<close> before \<open>rests ! i\<close>.\<close>

definition merged :: "Child list \<Rightarrow> entry list list \<Rightarrow> entry list list \<Rightarrow> bool" where
  "merged cs ess rests \<longleftrightarrow> length ess = length cs \<and> length rests = length cs
     \<and> (\<forall>i < length cs. child_stnd (cs ! i) (ess ! i) (rests ! i))"

definition mg_over :: "MergingIterator \<Rightarrow> entry list \<Rightarrow> bool" where
  "mg_over m es \<longleftrightarrow> sorted_run es \<and> (\<exists>ess. length ess = length (children m)
     \<and> (\<forall>i < length ess. child_over (children m ! i) (ess ! i)) \<and> mset es = mset (concat ess))"

definition mg_stnd :: "MergingIterator \<Rightarrow> entry list \<Rightarrow> entry list \<Rightarrow> bool" where
  "mg_stnd m es rest \<longleftrightarrow> sorted_run es \<and> (\<exists>pre. es = pre @ rest) \<and>
     (\<exists>ess rests. merged (children m) ess rests \<and> mset es = mset (concat ess) \<and> mset rest = mset (concat rests)
        \<and> (if rest = [] then current m = None
           else \<exists>j < length rests. current m = Some j \<and> rests ! j \<noteq> [] \<and> hd (rests ! j) = hd rest))"

definition least_upto :: "entry list list \<Rightarrow> nat \<Rightarrow> nat option \<Rightarrow> bool" where
  "least_upto rests i cur \<longleftrightarrow> (case cur of
      None \<Rightarrow> \<forall>i' < i. rests ! i' = []
    | Some j \<Rightarrow> j < i \<and> rests ! j \<noteq> [] \<and>
        (\<forall>i' < i. rests ! i' \<noteq> [] \<longrightarrow> \<not> key_lt (ikey (hd (rests ! i'))) (ikey (hd (rests ! j)))))"

lemma merged_child:
  assumes "merged cs ess rests" and "i < length cs"
  shows "child_Valid (cs ! i) = (rests ! i \<noteq> [])" "rests ! i \<noteq> [] \<Longrightarrow> child_key (cs ! i) = enc_ik (hd (rests ! i))"
    "rests ! i \<noteq> [] \<Longrightarrow> child_value (cs ! i) = evalue (hd (rests ! i))" "sorted_run (rests ! i)"
proof -
  have st: "child_stnd (cs ! i) (ess ! i) (rests ! i)" using assms by (simp add: merged_def)
  show "child_Valid (cs ! i) = (rests ! i \<noteq> [])" by (rule child.valid_iff [OF st])
  show "sorted_run (rests ! i)" by (rule child.rest_sorted [OF st])
  show "child_key (cs ! i) = enc_ik (hd (rests ! i))" "child_value (cs ! i) = evalue (hd (rests ! i))" if "rests ! i \<noteq> []"
    using child.entry_at [OF st that] by auto
qed

lemma least_upto_step:
  assumes m: "merged cs ess rests" and i: "i < length cs" and l: "least_upto rests i cur"
  shows "least_upto rests (Suc i)
    (if child_Valid (cs ! i) \<and> (case cur of None \<Rightarrow> True | Some j \<Rightarrow> InternalKeyComparator (child_key (cs ! i)) (child_key (cs ! j)))
     then Some i else cur)"
proof (cases cur)
  case None
  then show ?thesis using l merged_child(1) [OF m i] by (auto simp: least_upto_def less_Suc_eq kl.lt_irrefl)
next
  case (Some j)
  then have j: "j < i" "rests ! j \<noteq> []"
    and least: "\<And>i'. i' < i \<Longrightarrow> rests ! i' \<noteq> [] \<Longrightarrow> \<not> key_lt (ikey (hd (rests ! i'))) (ikey (hd (rests ! j)))"
    using l by (auto simp: least_upto_def)
  have kj: "child_key (cs ! j) = enc_ik (hd (rests ! j))" using merged_child(2) [OF m, of j] i j by simp
  show ?thesis
  proof (cases "rests ! i \<noteq> [] \<and> key_lt (ikey (hd (rests ! i))) (ikey (hd (rests ! j)))")
    case True
    then have "\<not> key_lt (ikey (hd (rests ! i'))) (ikey (hd (rests ! i)))" if "i' < i" "rests ! i' \<noteq> []" for i'
      using least [OF that] kl.lt_trans by blast
    then show ?thesis using True Some merged_child(1,2) [OF m i] kj by (auto simp: least_upto_def less_Suc_eq kl.lt_irrefl)
  next
    case False
    then show ?thesis using Some merged_child(1,2) [OF m i] kj j least by (auto simp: least_upto_def less_Suc_eq)
  qed
qed

lemma smallest_loop_least:
  assumes "merged all ess rests" and "cs = drop i all" and "i \<le> length all" and "least_upto rests i cur"
  shows "least_upto rests (length all) (smallest_loop all i cur cs)"
  using assms(2-4)
proof (induction cs arbitrary: i cur)
  case Nil
  then show ?case by simp
next
  case (Cons c cs)
  then have i: "i < length all" by (metis drop_eq_Nil linorder_not_le list.distinct(1))
  then have c: "c = all ! i" "cs = drop (Suc i) all" using Cons.prems(1) by (metis Cons_nth_drop_Suc list.inject)+
  show ?case using Cons.IH [OF c(2) _ least_upto_step [OF assms(1) i Cons.prems(3)]] i c(1) by simp
qed

lemma sorted_run_hd_least:
  assumes "sorted_run rest" and "e \<in> set rest" and "\<forall>x\<in>set rest. \<not> key_lt (ikey x) (ikey e)"
  shows "e = hd rest"
  using assms by (cases rest) (auto simp: sorted_run_def)

lemma FindSmallest_stnd:
  assumes m: "merged (children m) ess rests" and es: "sorted_run es" "mset es = mset (concat ess)"
    and rest: "es = pre @ rest" "mset rest = mset (concat rests)"
  shows "mg_stnd (FindSmallest m) es rest"
proof -
  let ?cs = "children m"
  let ?cur = "smallest_loop ?cs 0 None ?cs"
  have n: "length rests = length ?cs" using m by (simp add: merged_def)
  have least: "least_upto rests (length ?cs) ?cur"
    by (rule smallest_loop_least [OF m]) (simp_all add: least_upto_def)
  have set: "set rest = (\<Union>r\<in>set rests. set r)" using rest(2) by (metis mset_eq_setD set_concat)
  have sr: "sorted_run rest" using es(1) rest(1) by (simp add: sorted_run_def sorted_wrt_append)
  have "if rest = [] then ?cur = None else \<exists>j < length rests. ?cur = Some j \<and> rests ! j \<noteq> [] \<and> hd (rests ! j) = hd rest"
  proof (cases ?cur)
    case None
    then have "\<forall>r\<in>set rests. r = []" using least n by (auto simp: least_upto_def in_set_conv_nth)
    then have "set rest = {}" using set by simp
    then have "rest = []" by simp
    then show ?thesis using None by simp
  next
    case (Some j)
    then have j: "j < length rests" "rests ! j \<noteq> []"
      and min: "\<And>i. i < length rests \<Longrightarrow> rests ! i \<noteq> [] \<Longrightarrow> \<not> key_lt (ikey (hd (rests ! i))) (ikey (hd (rests ! j)))"
      using least n by (auto simp: least_upto_def)
    have mem: "hd (rests ! j) \<in> set rest" unfolding set using hd_in_set [OF j(2)] nth_mem [OF j(1)] by blast
    have "\<not> key_lt (ikey x) (ikey (hd (rests ! j)))" if x: "x \<in> set rest" for x
    proof -
      obtain r where "r \<in> set rests" "x \<in> set r" using x unfolding set by blast
      then obtain i where i: "i < length rests" "x \<in> set (rests ! i)" unfolding in_set_conv_nth [of r] by blast
      then have ne: "rests ! i \<noteq> []" by auto
      have "sorted_run (rests ! i)" using merged_child(4) [OF m] i n by simp
      then have "x = hd (rests ! i) \<or> key_lt (ikey (hd (rests ! i))) (ikey x)"
        using i(2) by (cases "rests ! i") (auto simp: sorted_run_def)
      then show ?thesis using min [OF i(1) ne] kl.lt_trans [of "ikey (hd (rests ! i))" "ikey x" "ikey (hd (rests ! j))"] by blast
    qed
    then have "hd (rests ! j) = hd rest" using sorted_run_hd_least [OF sr mem] by blast
    then show ?thesis using Some j mem by auto
  qed
  moreover have "current (FindSmallest m) = ?cur" "children (FindSmallest m) = ?cs" by (simp_all add: FindSmallest_def)
  ultimately show ?thesis unfolding mg_stnd_def using m es rest by metis
qed

lemma those_map:
  assumes "\<And>i. i < length cs \<Longrightarrow> \<exists>c'. f (cs ! i) = Some c' \<and> Q i c'"
  shows "\<exists>cs'. those (map f cs) = Some cs' \<and> length cs' = length cs \<and> (\<forall>i < length cs. Q i (cs' ! i))"
  using assms
proof (induction cs arbitrary: Q)
  case (Cons c cs)
  obtain c' where c': "f c = Some c'" "Q 0 c'" using Cons.prems [of 0] by auto
  have "\<exists>cs'. those (map f cs) = Some cs' \<and> length cs' = length cs \<and> (\<forall>i < length cs. Q (Suc i) (cs' ! i))"
    by (rule Cons.IH) (use Cons.prems in \<open>force\<close>)
  then obtain cs' where "those (map f cs) = Some cs'" "length cs' = length cs" "\<forall>i < length cs. Q (Suc i) (cs' ! i)" by blast
  then show ?case using c' by (auto simp: less_Suc_eq_0_disj intro!: exI [of _ "c' # cs'"])
qed simp

lemma sorted_dropWhile_filter:
  "sorted_run es \<Longrightarrow> dropWhile (\<lambda>e. key_lt (ikey e) t) es = filter (\<lambda>e. \<not> key_lt (ikey e) t) es"
proof (induction es)
  case (Cons e es)
  then have "sorted_run es" by (simp add: sorted_run_def)
  moreover have "\<not> key_lt (ikey x) t" if "\<not> key_lt (ikey e) t" "x \<in> set es" for x
  proof -
    have "key_lt (ikey e) (ikey x)" using Cons.prems that(2) by (auto simp: sorted_run_def)
    then show ?thesis using that(1) kl.lt_trans [of "ikey e" "ikey x" t] by blast
  qed
  ultimately show ?case using Cons.IH by (auto simp: filter_id_conv)
qed simp

lemma merged_seek:
  assumes o: "mg_over m es" and k: "short_key k"
  shows "\<exists>m'. mg_Seek (k @ PutFixed64 T) m = Some m' \<and> mg_stnd m' es (dropWhile (\<lambda>e. key_lt (ikey e) (k, T)) es)"
proof -
  let ?p = "\<lambda>e. key_lt (ikey e) (k, T)"
  obtain ess where ess: "length ess = length (children m)" "\<forall>i < length ess. child_over (children m ! i) (ess ! i)"
    "mset es = mset (concat ess)" and sr: "sorted_run es" using o by (auto simp: mg_over_def)
  obtain cs where cs: "those (map (child_Seek (k @ PutFixed64 T)) (children m)) = Some cs" "length cs = length (children m)"
    "\<forall>i < length (children m). child_stnd (cs ! i) (ess ! i) (dropWhile ?p (ess ! i))"
    using those_map [of "children m" "child_Seek (k @ PutFixed64 T)" "\<lambda>i c. child_stnd c (ess ! i) (dropWhile ?p (ess ! i))"]
      child.seek_stnd [OF _ k] ess(1,2) by auto
  have eq: "map (dropWhile ?p) ess = map (filter (\<lambda>e. \<not> ?p e)) ess"
    using ess child.over_sorted by (intro map_cong refl sorted_dropWhile_filter) (metis in_set_conv_nth)
  have "mset (dropWhile ?p es) = mset (concat (map (dropWhile ?p) ess))"
    unfolding eq using ess(3) by (simp add: sorted_dropWhile_filter [OF sr] filter_concat [symmetric] del: mset_concat)
  moreover have "merged cs ess (map (dropWhile ?p) ess)" using cs ess by (simp add: merged_def)
  ultimately have "mg_stnd (FindSmallest (m\<lparr>children := cs\<rparr>)) es (dropWhile ?p es)"
    using FindSmallest_stnd [of "m\<lparr>children := cs\<rparr>" ess "map (dropWhile ?p) ess" es "takeWhile ?p es"] ess(3) sr by simp
  then show ?thesis by (simp add: mg_Seek_def cs(1))
qed

lemma merged_first:
  assumes o: "mg_over m es"
  shows "\<exists>m'. mg_SeekToFirst m = Some m' \<and> mg_stnd m' es es"
proof -
  obtain ess where ess: "length ess = length (children m)" "\<forall>i < length ess. child_over (children m ! i) (ess ! i)"
    "mset es = mset (concat ess)" and sr: "sorted_run es" using o by (auto simp: mg_over_def)
  obtain cs where cs: "those (map child_SeekToFirst (children m)) = Some cs" "length cs = length (children m)"
    "\<forall>i < length (children m). child_stnd (cs ! i) (ess ! i) (ess ! i)"
    using those_map [of "children m" child_SeekToFirst "\<lambda>i c. child_stnd c (ess ! i) (ess ! i)"] child.first_stnd ess(1,2) by auto
  then have "merged cs ess ess" using ess by (simp add: merged_def)
  then have "mg_stnd (FindSmallest (m\<lparr>children := cs\<rparr>)) es es"
    using FindSmallest_stnd [of "m\<lparr>children := cs\<rparr>" ess ess es "[]" es] ess(3) sr by simp
  then show ?thesis by (simp add: mg_SeekToFirst_def cs(1))
qed

lemma mset_concat_tl:
  "j < length rests \<Longrightarrow> rests ! j \<noteq> [] \<Longrightarrow>
     mset (concat rests) = add_mset (hd (rests ! j)) (mset (concat (rests[j := tl (rests ! j)])))"
proof (induction rests arbitrary: j)
  case (Cons r rests)
  then show ?case by (cases j) (auto simp: neq_Nil_conv)
qed simp

lemma merged_next:
  assumes s: "mg_stnd m es rest" and ne: "rest \<noteq> []"
  shows "\<exists>m'. mg_Next m = Some m' \<and> mg_stnd m' es (tl rest)"
proof -
  obtain pre ess rests j where m: "merged (children m) ess rests" "mset es = mset (concat ess)" "mset rest = mset (concat rests)"
    "j < length rests" "current m = Some j" "rests ! j \<noteq> []" "hd (rests ! j) = hd rest" and sr: "sorted_run es" "es = pre @ rest"
    using s unfolding mg_stnd_def if_not_P [OF ne] by blast
  have n: "j < length (children m)" "length rests = length (children m)" using m(1,4) by (simp_all add: merged_def)
  have "child_stnd (children m ! j) (ess ! j) (rests ! j)" using m(1) n(1) by (simp add: merged_def)
  from child.next_stnd [OF this m(6)]
  obtain c where c: "child_Next (children m ! j) = Some c" "child_stnd c (ess ! j) (tl (rests ! j))" by blast
  have mg: "merged (children (m\<lparr>children := (children m)[j := c]\<rparr>)) ess (rests[j := tl (rests ! j)])"
    using m(1) c(2) n by (auto simp: merged_def nth_list_update)
  have ms: "mset (tl rest) = mset (concat (rests[j := tl (rests ! j)]))"
    using mset_concat_tl [OF m(4,6)] m(3,7) ne by (cases rest) simp_all
  have es: "es = (pre @ [hd rest]) @ tl rest" using sr(2) ne by simp
  have "mg_stnd (FindSmallest (m\<lparr>children := (children m)[j := c]\<rparr>)) es (tl rest)"
    by (rule FindSmallest_stnd [OF mg sr(1) m(2) es ms])
  then show ?thesis by (simp add: mg_Next_def m(5) c(1))
qed

lemma mg_stnd_over:
  assumes "mg_stnd m es rest"
  shows "mg_over m es"
proof -
  obtain ess rests where m: "merged (children m) ess rests" "mset es = mset (concat ess)" "sorted_run es"
    using assms unfolding mg_stnd_def by blast
  have "child_over (children m ! i) (ess ! i)" if i: "i < length (children m)" for i
    using m(1) i child.stnd_over [of "children m ! i" "ess ! i" "rests ! i"] unfolding merged_def by blast
  then show ?thesis unfolding mg_over_def using m unfolding merged_def by (intro conjI exI [of _ ess]) simp_all
qed

lemma mg_valid_iff:
  assumes "mg_stnd m es rest"
  shows "mg_Valid m \<longleftrightarrow> rest \<noteq> []"
proof (cases "rest = []")
  case True
  then show ?thesis using assms unfolding mg_stnd_def mg_Valid_def if_P [OF True] by auto
next
  case False
  then show ?thesis using assms unfolding mg_stnd_def mg_Valid_def if_not_P [OF False] by auto
qed

lemma mg_entry_at:
  assumes s: "mg_stnd m es rest" and ne: "rest \<noteq> []"
  shows "mg_key m = enc_ik (hd rest) \<and> mg_value m = evalue (hd rest)"
proof -
  obtain ess rests j where m: "merged (children m) ess rests" "j < length rests" "current m = Some j"
    "rests ! j \<noteq> []" "hd (rests ! j) = hd rest"
    using s unfolding mg_stnd_def if_not_P [OF ne] by blast
  then show ?thesis using merged_child(2,3) [of "children m" ess rests j] by (simp add: mg_key_def mg_value_def merged_def)
qed

interpretation merge_it: iterator mg_over mg_stnd mg_Valid mg_key mg_value mg_SeekToFirst mg_Seek mg_Next
proof (unfold_locales, goal_cases)
  case (1 s es)
  then show ?case by (simp add: mg_over_def)
next
  case (2 s es rest)
  then show ?case by (rule mg_stnd_over)
next
  case (3 s es rest)
  then show ?case unfolding mg_stnd_def by blast
next
  case (4 s es rest)
  then show ?case by (rule mg_valid_iff)
next
  case (5 s es rest)
  then show ?case by (rule mg_entry_at)
next
  case (6 s es)
  then show ?case by (rule merged_first)
next
  case (7 s es k T)
  then show ?case by (rule merged_seek)
next
  case (8 s es rest)
  then show ?case by (rule merged_next)
qed

text \<open>
  Reading an iterator to its end as the loops of \<^verbatim>\<open>Scan\<close> and \<^verbatim>\<open>RunCompaction\<close> do; \<open>None\<close>
  when \<open>n\<close> steps do not reach the end.
\<close>

fun mg_collect :: "nat \<Rightarrow> MergingIterator \<Rightarrow> (bytes \<times> bytes) list option" where
  "mg_collect n m =
     (if mg_Valid m
      then (case n of
              0 \<Rightarrow> None
            | Suc n' \<Rightarrow> (case mg_Next m of
                  None \<Rightarrow> None
                | Some m' \<Rightarrow> map_option (\<lambda>xs. (mg_key m, mg_value m) # xs) (mg_collect n' m')))
      else Some [])"

declare mg_collect.simps [simp del]

lemma mg_collect_stnd:
  "mg_stnd m es rest \<Longrightarrow> mg_collect (length rest) m = Some (map enc_kv rest)"
proof (induction rest arbitrary: m)
  case Nil
  then show ?case using merge_it.valid_iff [OF Nil] by (simp add: mg_collect.simps)
next
  case (Cons e rest)
  obtain m' where m': "mg_Next m = Some m'" "mg_stnd m' es rest" using merge_it.next_stnd [OF Cons.prems] by auto
  show ?case using merge_it.valid_iff [OF Cons.prems] merge_it.entry_at [OF Cons.prems] m'(1) Cons.IH [OF m'(2)]
    by (simp add: mg_collect.simps [of "Suc n" for n] enc_kv_def)
qed

text \<open>
  C12: a merging iterator over any number of memtables and table files whose
  entries together are \<open>es\<close> in key order, placed with \<^verbatim>\<open>Seek\<close> at a user key and
  tag and read with \<^verbatim>\<open>Next\<close> until it is no longer valid, stops after as many steps
  as there are entries from the target on and delivers exactly those, in the
  global order and each once.
\<close>

theorem merging_iterator_merges:
  assumes "length ess = length cs" and "\<forall>i < length cs. child_over (cs ! i) (ess ! i)"
    and "mset es = mset (concat ess)" and "sorted_run es" and "short_key k"
  shows "let rest = dropWhile (\<lambda>e. key_lt (ikey e) (k, T)) es
         in \<exists>m. mg_Seek (k @ PutFixed64 T) (NewMergingIterator cs) = Some m \<and>
              mg_collect (length rest) m = Some (map (\<lambda>e. (enc_ik e, evalue e)) rest)"
proof -
  have "mg_over (NewMergingIterator cs) es"
    unfolding mg_over_def NewMergingIterator_def using assms(1-4) by (intro conjI exI [of _ ess]) simp_all
  from merge_it.seek_stnd [OF this assms(5)] obtain m where
    m: "mg_Seek (k @ PutFixed64 T) (NewMergingIterator cs) = Some m" "mg_stnd m es (dropWhile (\<lambda>e. key_lt (ikey e) (k, T)) es)"
    by blast
  show ?thesis unfolding Let_def using m(1) mg_collect_stnd [OF m(2)] unfolding enc_kv_def by blast
qed

lemma one_write_run:
  assumes "short_key k"
  shows "\<exists>mt. MemTable_Put coins seq k v NewMemTable = Some mt \<and> holds_run mt [(k, make_tag seq kTypeValue, v)]"
  using MemTable_Put_run [OF holds_run_New assms, of coins seq v] by (simp add: add_entry_def insert_entry_def)

theorem merging_iterator_merges_witness:
  "\<exists>mt1 mt2 m. MemTable_Put [0] 8 [2] [20] NewMemTable = Some mt1 \<and> MemTable_Put [0] 7 [1] [10] NewMemTable = Some mt2 \<and>
     mg_Seek ([0] @ PutFixed64 0) (NewMergingIterator [MemChild mt1 \<lparr>mit = None, key_buf = [], mvalue = [], mvalid = False\<rparr>,
       MemChild mt2 \<lparr>mit = None, key_buf = [], mvalue = [], mvalid = False\<rparr>]) = Some m \<and>
     mg_collect 2 m = Some [([1] @ PutFixed64 (make_tag 7 kTypeValue), [10]), ([2] @ PutFixed64 (make_tag 8 kTypeValue), [20])]"
proof -
  let ?i = "\<lparr>mit = None, key_buf = [], mvalue = [], mvalid = False\<rparr> :: MemTableIterator"
  have sk: "short_key [2]" "short_key [1]" "short_key [0]" by (simp_all add: short_key_def)
  obtain mt1 mt2 where mt: "MemTable_Put [0] 8 [2] [20] NewMemTable = Some mt1" "holds_run mt1 [([2], make_tag 8 kTypeValue, [20])]"
    "MemTable_Put [0] 7 [1] [10] NewMemTable = Some mt2" "holds_run mt2 [([1], make_tag 7 kTypeValue, [10])]"
    using one_write_run [OF sk(1)] one_write_run [OF sk(2)] by metis
  let ?cs = "[MemChild mt1 ?i, MemChild mt2 ?i]"
  let ?a = "([1], make_tag 7 kTypeValue, [10]) :: entry" and ?b = "([2], make_tag 8 kTypeValue, [20]) :: entry"
  have h: "length [[?b], [?a]] = length ?cs" "\<forall>i < length ?cs. child_over (?cs ! i) ([[?b], [?a]] ! i)"
    "mset [?a, ?b] = mset (concat [[?b], [?a]])" "sorted_run [?a, ?b]"
    using mt by (simp_all add: mi_over_def sorted_run_def key_lt_def less_Suc_eq)
  have "\<exists>m. mg_Seek ([0] @ PutFixed64 0) (NewMergingIterator ?cs) = Some m \<and> mg_collect 2 m = Some [(enc_ik ?a, [10]), (enc_ik ?b, [20])]"
    using merging_iterator_merges [OF h sk(3), of 0] by (simp add: key_lt_def Let_def numeral_2_eq_2)
  then show ?thesis using mt(1,3) by (simp add: enc_ik_def)
qed

end
