(* ===== verification/LruCache.thy ===== *)
theory LruCache
  imports Prelude
begin

text \<open>
  The sharded LRU cache (\<^verbatim>\<open>include/bedrockkv/lru_cache.h\<close>). A node of the
  \<^verbatim>\<open>std::list\<close> has an identity that survives splicing, as a list iterator does, and
  the hash map of a shard sends a key to the identity of its node. The hash and the weight
  function are arguments, as in the source. The theory shows that a shard implements the
  textbook LRU list, that the map and the list never disagree, that the weight stays within
  the budget, and the contract a reader of the cache relies on.
\<close>

record ('k, 'v) Shard =
  lru :: "(nat \<times> 'k \<times> 'v) list"
  smap :: "'k \<Rightarrow> nat option"
  weight :: u64
  next_node :: nat

record ('k, 'v) LruCache =
  shard :: "('k, 'v) Shard list"
  shards :: u64
  max_total_weight :: u64
  shard_weight_cap :: u64

definition NewShard :: "('k, 'v) Shard" where
  "NewShard = \<lparr>lru = [], smap = (\<lambda>_. None), weight = 0, next_node = 0\<rparr>"

definition NewLruCache :: "u64 \<Rightarrow> u64 \<Rightarrow> ('k, 'v) LruCache" where
  "NewLruCache n maxw =
     (let cap = maxw div n
      in \<lparr>shard = replicate (unat n) NewShard, shards = n, max_total_weight = maxw,
          shard_weight_cap = (if cap = 0 then 1 else cap)\<rparr>)"

definition ShardOf :: "('k \<Rightarrow> u64) \<Rightarrow> ('k, 'v) LruCache \<Rightarrow> 'k \<Rightarrow> nat" where
  "ShardOf hash c k = unat (hash k mod shards c)"

text \<open>\<^verbatim>\<open>lru.splice(lru.begin(), lru, it)\<close>, the value an iterator refers to, and the assignment to it.\<close>

definition splice_front :: "nat \<Rightarrow> (nat \<times> 'k \<times> 'v) list \<Rightarrow> (nat \<times> 'k \<times> 'v) list" where
  "splice_front n xs = filter (\<lambda>x. fst x = n) xs @ filter (\<lambda>x. fst x \<noteq> n) xs"

definition node_value :: "nat \<Rightarrow> (nat \<times> 'k \<times> 'v) list \<Rightarrow> 'v" where
  "node_value n xs = snd (the (map_of xs n))"

definition set_node_value :: "nat \<Rightarrow> 'v \<Rightarrow> (nat \<times> 'k \<times> 'v) list \<Rightarrow> (nat \<times> 'k \<times> 'v) list" where
  "set_node_value n v xs = map (\<lambda>(i, k, u). (i, k, if i = n then v else u)) xs"

definition Shard_Get :: "'k \<Rightarrow> ('k, 'v) Shard \<Rightarrow> 'v option \<times> ('k, 'v) Shard" where
  "Shard_Get k s = (case smap s k of
      None \<Rightarrow> (None, s)
    | Some n \<Rightarrow> let s' = s\<lparr>lru := splice_front n (lru s)\<rparr> in (Some (node_value n (lru s')), s'))"

function evict_loop :: "('v \<Rightarrow> u64) \<Rightarrow> u64 \<Rightarrow> ('k, 'v) Shard \<Rightarrow> ('k, 'v) Shard" where
  "evict_loop w cap s =
     (if weight s > cap \<and> lru s \<noteq> []
      then let victim = last (lru s)
           in evict_loop w cap (s\<lparr>weight := weight s - w (snd (snd victim)),
                smap := (smap s)(fst (snd victim) := None), lru := butlast (lru s)\<rparr>)
      else s)"
  by pat_completeness auto
termination by (relation "measure (\<lambda>(w, cap, s). length (lru s))") auto

declare evict_loop.simps [simp del]

definition Shard_Put :: "('v \<Rightarrow> u64) \<Rightarrow> u64 \<Rightarrow> 'k \<Rightarrow> 'v \<Rightarrow> ('k, 'v) Shard \<Rightarrow> ('k, 'v) Shard" where
  "Shard_Put w cap k v s =
     evict_loop w cap
       (case smap s k of
          Some n \<Rightarrow>
            s\<lparr>weight := weight s - w (node_value n (lru s)) + w v,
              lru := splice_front n (set_node_value n v (lru s))\<rparr>
        | None \<Rightarrow>
            s\<lparr>lru := (next_node s, k, v) # lru s, smap := (smap s)(k \<mapsto> next_node s),
              next_node := Suc (next_node s), weight := weight s + w v\<rparr>)"

definition Lru_Get :: "('k \<Rightarrow> u64) \<Rightarrow> 'k \<Rightarrow> ('k, 'v) LruCache \<Rightarrow> 'v option \<times> ('k, 'v) LruCache" where
  "Lru_Get hash k c =
     (let i = ShardOf hash c k; (r, s) = Shard_Get k (shard c ! i)
      in (r, c\<lparr>shard := (shard c)[i := s]\<rparr>))"

definition Lru_Put :: "('k \<Rightarrow> u64) \<Rightarrow> ('v \<Rightarrow> u64) \<Rightarrow> 'k \<Rightarrow> 'v \<Rightarrow> ('k, 'v) LruCache \<Rightarrow> ('k, 'v) LruCache" where
  "Lru_Put hash w k v c =
     (if w v > max_total_weight c then c
      else let i = ShardOf hash c k
           in c\<lparr>shard := (shard c)[i := Shard_Put w (shard_weight_cap c) k v (shard c ! i)]\<rparr>)"

definition Lru_Clear :: "('k, 'v) LruCache \<Rightarrow> ('k, 'v) LruCache" where
  "Lru_Clear c = c\<lparr>shard := map (\<lambda>s. s\<lparr>lru := [], smap := (\<lambda>_. None), weight := 0\<rparr>) (shard c)\<rparr>"

subsection \<open>The textbook list\<close>

text \<open>
  A shard as a list of pairs, most recently used first. \<open>fit\<close> keeps the longest prefix
  whose weights sum to at most the capacity.
\<close>

fun fit :: "('v \<Rightarrow> nat) \<Rightarrow> nat \<Rightarrow> ('k \<times> 'v) list \<Rightarrow> ('k \<times> 'v) list" where
  "fit w r [] = []"
| "fit w r (x # xs) = (if w (snd x) \<le> r then x # fit w (r - w (snd x)) xs else [])"

definition drop_key :: "'k \<Rightarrow> ('k \<times> 'v) list \<Rightarrow> ('k \<times> 'v) list" where
  "drop_key k xs = filter (\<lambda>x. fst x \<noteq> k) xs"

definition spec_put :: "('v \<Rightarrow> nat) \<Rightarrow> nat \<Rightarrow> 'k \<Rightarrow> 'v \<Rightarrow> ('k \<times> 'v) list \<Rightarrow> ('k \<times> 'v) list" where
  "spec_put w cap k v xs = fit w cap ((k, v) # drop_key k xs)"

definition spec_get :: "'k \<Rightarrow> ('k \<times> 'v) list \<Rightarrow> 'v option \<times> ('k \<times> 'v) list" where
  "spec_get k xs = (case map_of xs k of None \<Rightarrow> (None, xs) | Some v \<Rightarrow> (Some v, (k, v) # drop_key k xs))"

definition entries_of :: "('k, 'v) Shard \<Rightarrow> ('k \<times> 'v) list" where
  "entries_of s = map snd (lru s)"

abbreviation wsum :: "('v \<Rightarrow> u64) \<Rightarrow> ('k \<times> 'v) list \<Rightarrow> nat" where
  "wsum w xs \<equiv> sum_list (map (\<lambda>x. unat (w (snd x))) xs)"

text \<open>The list and the map name the same nodes, and the weight is the sum of the weights.\<close>

definition shard_links :: "('k, 'v) Shard \<Rightarrow> bool" where
  "shard_links s \<longleftrightarrow> distinct (map fst (lru s)) \<and> distinct (map fst (entries_of s))
     \<and> (\<forall>n\<in>set (map fst (lru s)). n < next_node s)
     \<and> (\<forall>k n. smap s k = Some n \<longleftrightarrow> (\<exists>v. (n, k, v) \<in> set (lru s)))"

definition shard_ok :: "('v \<Rightarrow> u64) \<Rightarrow> u64 \<Rightarrow> ('k, 'v) Shard \<Rightarrow> bool" where
  "shard_ok w cap s \<longleftrightarrow> shard_links s \<and> unat (weight s) = wsum w (entries_of s) \<and> weight s \<le> cap"

lemma fit_all: "wsum w xs \<le> r \<Longrightarrow> fit (\<lambda>v. unat (w v)) r xs = xs"
  by (induction xs arbitrary: r) auto

lemma fit_butlast: "r < wsum w xs \<Longrightarrow> fit (\<lambda>v. unat (w v)) r xs = fit (\<lambda>v. unat (w v)) r (butlast xs)"
proof (induction xs arbitrary: r)
  case (Cons x xs)
  show ?case
  proof (cases "unat (w (snd x)) \<le> r")
    case True
    then have "r - unat (w (snd x)) < wsum w xs" using Cons.prems by simp
    moreover from this have "xs \<noteq> []" by auto
    ultimately show ?thesis using True Cons.IH by simp
  next
    case False
    then show ?thesis by simp
  qed
qed simp

lemma wsum_fit: "wsum w (fit (\<lambda>v. unat (w v)) r xs) \<le> r"
proof (induction xs arbitrary: r)
  case (Cons x xs)
  show ?case using Cons [of "r - unat (w (snd x))"] by (auto simp: le_diff_conv2 add.commute)
qed simp

lemma set_fit: "set (fit w r xs) \<subseteq> set xs"
  by (induction xs arbitrary: r) auto

lemma entries_of_simps [simp]:
  "entries_of (s\<lparr>lru := xs\<rparr>) = map snd xs" "entries_of (s\<lparr>smap := m\<rparr>) = entries_of s"
  "entries_of (s\<lparr>weight := u\<rparr>) = entries_of s" "entries_of (s\<lparr>next_node := n\<rparr>) = entries_of s"
  by (simp_all add: entries_of_def)

text \<open>Where the node of a cached key sits in the list.\<close>

lemma shard_find:
  assumes "shard_links s" and "smap s k = Some n"
  obtains xs v ys where "lru s = xs @ (n, k, v) # ys" "n \<notin> set (map fst (xs @ ys))" "k \<notin> fst ` snd ` set (xs @ ys)"
proof -
  obtain v where "(n, k, v) \<in> set (lru s)" using assms by (auto simp: shard_links_def)
  then obtain xs ys where l: "lru s = xs @ (n, k, v) # ys" by (auto dest: split_list)
  show thesis
    using assms(1) by (intro that [OF l]) (auto simp: shard_links_def entries_of_def l image_iff)
qed

lemma shard_miss:
  assumes "shard_links s" and "smap s k = None"
  shows "k \<notin> fst ` set (entries_of s)"
proof
  assume "k \<in> fst ` set (entries_of s)"
  then obtain n v where "(n, k, v) \<in> set (lru s)" by (auto simp: entries_of_def)
  then have "smap s k = Some n" using assms(1) unfolding shard_links_def by blast
  then show False using assms(2) by simp
qed

lemma drop_key_none: "k \<notin> fst ` set xs \<Longrightarrow> drop_key k xs = xs"
  unfolding drop_key_def by (induction xs) auto

lemma filter_node: "n \<notin> fst ` set xs \<Longrightarrow> filter (\<lambda>x. fst x = n) xs = [] \<and> filter (\<lambda>x. fst x \<noteq> n) xs = xs"
  by (induction xs) auto

lemma splice_node:
  "n \<notin> set (map fst (xs @ ys)) \<Longrightarrow> splice_front n (xs @ (n, k, v) # ys) = (n, k, v) # xs @ ys"
  using filter_node [of n xs] filter_node [of n ys] by (simp add: splice_front_def)

lemma set_node:
  "n \<notin> set (map fst (xs @ ys)) \<Longrightarrow> set_node_value n v (xs @ (n, k, u) # ys) = xs @ (n, k, v) # ys"
  by (force simp: set_node_value_def intro!: map_idI)

lemma value_node:
  assumes "n \<notin> set (map fst xs)"
  shows "node_value n (xs @ (n, k, v) # ys) = v"
proof -
  have "map_of xs n = None" using assms by (simp add: map_of_eq_None_iff)
  then show ?thesis by (simp add: node_value_def map_add_def)
qed

lemma links_front:
  assumes "shard_links s" and "lru s = xs @ (n, k, v) # ys"
  shows "shard_links (s\<lparr>lru := (n, k, u) # xs @ ys\<rparr>)"
  using assms by (auto simp: shard_links_def entries_of_def)

lemma links_new:
  assumes "shard_links s" and "smap s k = None"
  shows "shard_links (s\<lparr>lru := (next_node s, k, v) # lru s, smap := (smap s)(k \<mapsto> next_node s), next_node := Suc (next_node s)\<rparr>)"
  using assms shard_miss [OF assms]
  by (auto simp: shard_links_def entries_of_def less_Suc_eq image_iff)

lemma links_weight [simp]: "shard_links (s\<lparr>weight := u\<rparr>) = shard_links s"
  by (simp add: shard_links_def)

lemma links_evict:
  assumes "shard_links s" and "lru s = xs @ [(n, k, v)]"
  shows "shard_links (s\<lparr>smap := (smap s)(k := None), lru := xs\<rparr>)"
  using assms by (fastforce simp: shard_links_def entries_of_def image_iff)

lemma evict_loop_fit:
  assumes "shard_links s" and "unat (weight s) = wsum w (entries_of s)"
  shows "shard_ok w cap (evict_loop w cap s)
    \<and> entries_of (evict_loop w cap s) = fit (\<lambda>v. unat (w v)) (unat cap) (entries_of s)"
  using assms
proof (induction w cap s rule: evict_loop.induct)
  case (1 w cap s)
  show ?case
  proof (cases "weight s > cap \<and> lru s \<noteq> []")
    case True
    then obtain xs n k v where l: "lru s = xs @ [(n, k, v)]" by (metis append_butlast_last_id prod_cases3)
    let ?s = "s\<lparr>weight := weight s - w v, smap := (smap s)(k := None), lru := xs\<rparr>"
    have "w v \<le> weight s" using 1(3) by (simp add: entries_of_def l word_le_nat_alt)
    then have w: "unat (weight ?s) = wsum w (entries_of ?s)" using 1(3) by (simp add: unat_sub entries_of_def l)
    have k: "shard_links ?s" using links_evict [OF 1(2) l] by (simp add: shard_links_def)
    have f: "fit (\<lambda>v. unat (w v)) (unat cap) (entries_of s) = fit (\<lambda>v. unat (w v)) (unat cap) (entries_of ?s)"
      using True 1(3) fit_butlast [of "unat cap" w "entries_of s"] by (simp add: word_less_nat_alt entries_of_def l)
    have "evict_loop w cap s = evict_loop w cap ?s" using True by (simp add: evict_loop.simps [of w cap s] l Let_def)
    then show ?thesis using 1(1) [OF True refl] k w f by (simp add: l)
  next
    case False
    then have "weight s \<le> cap" using 1(3) by (auto simp: entries_of_def word_le_nat_alt not_less unat_eq_0)
    then have "unat (weight s) \<le> unat cap" by (simp add: word_le_nat_alt)
    then show ?thesis
      using False 1(2,3) fit_all [of w "entries_of s" "unat cap"] \<open>weight s \<le> cap\<close>
      by (simp add: evict_loop.simps [of w cap s] shard_ok_def if_not_P [OF False])
  qed
qed

lemma Shard_Get_spec:
  assumes "shard_ok w cap s"
  shows "fst (Shard_Get k s) = fst (spec_get k (entries_of s))
    \<and> entries_of (snd (Shard_Get k s)) = snd (spec_get k (entries_of s)) \<and> shard_ok w cap (snd (Shard_Get k s))"
proof (cases "smap s k")
  case None
  have "map_of (entries_of s) k = None" using shard_miss [of s k] assms None by (simp add: shard_ok_def map_of_eq_None_iff)
  then show ?thesis using None assms by (simp add: Shard_Get_def spec_get_def)
next
  case (Some n)
  have links: "shard_links s" using assms by (simp add: shard_ok_def)
  obtain xs v ys where l: "lru s = xs @ (n, k, v) # ys" "n \<notin> set (map fst (xs @ ys))" "k \<notin> fst ` snd ` set (xs @ ys)"
    using shard_find [OF links Some] .
  have g: "Shard_Get k s = (Some v, s\<lparr>lru := (n, k, v) # xs @ ys\<rparr>)"
    using Some l(1) splice_node [OF l(2), of k v] value_node [of n "[]" k v] by (simp add: Shard_Get_def Let_def)
  have "map_of (map snd xs) k = None" using l(3) by (simp add: map_of_eq_None_iff image_Un)
  then have m: "map_of (entries_of s) k = Some v" by (simp add: entries_of_def l(1) map_add_def)
  have d: "drop_key k (entries_of s) = map snd (xs @ ys)"
    using drop_key_none [of k "map snd (xs @ ys)"] l(3) by (simp add: entries_of_def l(1) drop_key_def image_Un)
  have "shard_ok w cap (s\<lparr>lru := (n, k, v) # xs @ ys\<rparr>)"
    using assms links_front [OF links l(1), of v] by (simp add: shard_ok_def entries_of_def l(1) add.left_commute)
  then show ?thesis using g m d by (simp add: spec_get_def)
qed

lemma Shard_Put_spec:
  assumes s: "shard_ok w cap s" and room: "unat cap + unat (w v) < 2 ^ 64"
  shows "shard_ok w cap (Shard_Put w cap k v s)
    \<and> entries_of (Shard_Put w cap k v s) = spec_put (\<lambda>v. unat (w v)) (unat cap) k v (entries_of s)"
proof -
  have links: "shard_links s" and sum: "unat (weight s) = wsum w (entries_of s)" and cap: "weight s \<le> cap"
    using s by (simp_all add: shard_ok_def)
  have fits: "unat (x + w v) = unat x + unat (w v)" if "x \<le> weight s" for x
    using room cap that by (intro unat_add_lem [THEN iffD1]) (simp add: word_le_nat_alt)
  show ?thesis
  proof (cases "smap s k")
    case None
    let ?s = "s\<lparr>lru := (next_node s, k, v) # lru s, smap := (smap s)(k \<mapsto> next_node s),
      next_node := Suc (next_node s), weight := weight s + w v\<rparr>"
    have e: "entries_of ?s = (k, v) # drop_key k (entries_of s)"
      using drop_key_none [OF shard_miss [OF links None]] by (simp add: entries_of_def)
    have "shard_links ?s" using links_new [OF links None, of v] by simp
    moreover have "unat (weight ?s) = wsum w (entries_of ?s)" using fits [of "weight s"] sum by (simp add: entries_of_def)
    ultimately show ?thesis using evict_loop_fit [of ?s w cap] e None by (simp add: Shard_Put_def spec_put_def)
  next
    case (Some n)
    obtain xs u ys where l: "lru s = xs @ (n, k, u) # ys" "n \<notin> set (map fst (xs @ ys))" "k \<notin> fst ` snd ` set (xs @ ys)"
      using shard_find [OF links Some] .
    let ?s = "s\<lparr>weight := weight s - w u + w v, lru := (n, k, v) # xs @ ys\<rparr>"
    have "splice_front n (set_node_value n v (lru s)) = (n, k, v) # xs @ ys" "node_value n (lru s) = u"
      using set_node [OF l(2)] splice_node [OF l(2)] value_node [of n xs k u ys] l by simp_all
    then have p: "Shard_Put w cap k v s = evict_loop w cap ?s" using Some by (simp add: Shard_Put_def)
    have d: "entries_of ?s = (k, v) # drop_key k (entries_of s)"
      using drop_key_none [of k "map snd (xs @ ys)"] l(3) by (simp add: entries_of_def l(1) drop_key_def image_Un)
    have le: "w u \<le> weight s" using sum by (simp add: entries_of_def l(1) word_le_nat_alt)
    then have "weight s - w u \<le> weight s" by (simp add: word_le_nat_alt unat_sub)
    then have "unat (weight ?s) = wsum w (entries_of ?s)"
      using fits [of "weight s - w u"] sum le by (simp add: unat_sub entries_of_def l(1))
    moreover have "shard_links ?s" using links_front [OF links l(1), of v] by (simp add: shard_links_def entries_of_def)
    ultimately show ?thesis using evict_loop_fit [of ?s w cap] d p by (simp add: spec_put_def)
  qed
qed

text \<open>
  An entry heavier than a shard's share but not heavier than the whole budget passes the
  guard of \<^verbatim>\<open>Put\<close>, evicts every other entry of its shard and then itself.
\<close>

lemma heavy_put_empties_shard:
  assumes "shard_ok w cap s" and "unat cap + unat (w v) < 2 ^ 64" and "cap < w v"
  shows "entries_of (Shard_Put w cap k v s) = []"
  using Shard_Put_spec [OF assms(1,2), of k] assms(3) by (simp add: spec_put_def word_less_nat_alt)

subsection \<open>The whole cache\<close>

definition cache_ok :: "('v \<Rightarrow> u64) \<Rightarrow> ('k, 'v) LruCache \<Rightarrow> bool" where
  "cache_ok w c \<longleftrightarrow> 0 < shards c \<and> length (shard c) = unat (shards c)
     \<and> (\<forall>s\<in>set (shard c). shard_ok w (shard_weight_cap c) s)
     \<and> unat (shard_weight_cap c) + unat (max_total_weight c) < 2 ^ 64"

lemma ShardOf_less: "cache_ok w c \<Longrightarrow> ShardOf hash c k < length (shard c)"
  by (simp add: cache_ok_def ShardOf_def unat_mod word_gt_0 unat_gt_0)

lemma cache_ok_set:
  assumes "cache_ok w c" and "shard_ok w (shard_weight_cap c) s"
  shows "cache_ok w (c\<lparr>shard := (shard c)[i := s]\<rparr>)"
  using assms by (auto simp: cache_ok_def dest!: set_update_subset_insert [THEN subsetD])

lemma NewLruCache_ok:
  assumes "n \<noteq> 0" and "maxw < 2 ^ 63"
  shows "cache_ok w (NewLruCache n maxw)"
proof -
  have "unat maxw < 2 ^ 63" using assms(2) by (simp add: word_less_nat_alt)
  moreover have "unat (maxw div n) \<le> unat maxw" by (simp add: unat_div)
  ultimately show ?thesis
    using assms(1) by (auto simp: cache_ok_def NewLruCache_def Let_def word_gt_0 shard_ok_def shard_links_def NewShard_def entries_of_def word_le_nat_alt)
qed

text \<open>One call of the cache, in the code and on one textbook list per shard.\<close>

datatype ('k, 'v) LruOp = CGet 'k | CPut 'k 'v | CClear

fun lru_step :: "('k \<Rightarrow> u64) \<Rightarrow> ('v \<Rightarrow> u64) \<Rightarrow> ('k, 'v) LruOp \<Rightarrow> ('k, 'v) LruCache \<Rightarrow> 'v option \<times> ('k, 'v) LruCache" where
  "lru_step hash w (CGet k) c = Lru_Get hash k c"
| "lru_step hash w (CPut k v) c = (None, Lru_Put hash w k v c)"
| "lru_step hash w CClear c = (None, Lru_Clear c)"

fun lru_run :: "('k \<Rightarrow> u64) \<Rightarrow> ('v \<Rightarrow> u64) \<Rightarrow> ('k, 'v) LruOp list \<Rightarrow> ('k, 'v) LruCache \<Rightarrow> 'v option list \<times> ('k, 'v) LruCache" where
  "lru_run hash w [] c = ([], c)"
| "lru_run hash w (x # xs) c =
     (let (r, c') = lru_step hash w x c; (rs, c'') = lru_run hash w xs c' in (r # rs, c''))"

fun spec_step :: "('k \<Rightarrow> nat) \<Rightarrow> ('v \<Rightarrow> nat) \<Rightarrow> nat \<Rightarrow> nat \<Rightarrow> ('k, 'v) LruOp \<Rightarrow> (nat \<Rightarrow> ('k \<times> 'v) list)
    \<Rightarrow> 'v option \<times> (nat \<Rightarrow> ('k \<times> 'v) list)" where
  "spec_step sh w maxw cap (CGet k) L = (let (r, xs) = spec_get k (L (sh k)) in (r, L(sh k := xs)))"
| "spec_step sh w maxw cap (CPut k v) L =
     (None, if w v > maxw then L else L(sh k := spec_put w cap k v (L (sh k))))"
| "spec_step sh w maxw cap CClear L = (None, \<lambda>_. [])"

fun spec_run :: "('k \<Rightarrow> nat) \<Rightarrow> ('v \<Rightarrow> nat) \<Rightarrow> nat \<Rightarrow> nat \<Rightarrow> ('k, 'v) LruOp list \<Rightarrow> (nat \<Rightarrow> ('k \<times> 'v) list) \<Rightarrow> 'v option list" where
  "spec_run sh w maxw cap [] L = []"
| "spec_run sh w maxw cap (x # xs) L =
     (let (r, L') = spec_step sh w maxw cap x L in r # spec_run sh w maxw cap xs L')"

definition cache_abs :: "('k, 'v) LruCache \<Rightarrow> nat \<Rightarrow> ('k \<times> 'v) list" where
  "cache_abs c i = (if i < length (shard c) then entries_of (shard c ! i) else [])"

lemma cache_abs_set:
  "i < length (shard c) \<Longrightarrow> cache_abs (c\<lparr>shard := (shard c)[i := s]\<rparr>) = (cache_abs c)(i := entries_of s)"
  by (auto simp: cache_abs_def fun_eq_iff)

lemma Lru_Get_spec:
  assumes c: "cache_ok w c"
  shows "cache_ok w (snd (Lru_Get hash k c)) \<and> (fst (Lru_Get hash k c), cache_abs (snd (Lru_Get hash k c)))
    = spec_step (ShardOf hash c) (\<lambda>v. unat (w v)) maxw cap (CGet k) (cache_abs c)"
proof -
  let ?i = "ShardOf hash c k"
  note i = ShardOf_less [OF c, of hash k]
  have "shard_ok w (shard_weight_cap c) (shard c ! ?i)" using c i by (simp add: cache_ok_def)
  note s = Shard_Get_spec [OF this, of k]
  then have "cache_ok w (snd (Lru_Get hash k c))"
    using cache_ok_set [OF c] by (simp add: Lru_Get_def Let_def split_beta)
  moreover have "cache_abs c ?i = entries_of (shard c ! ?i)" using i by (simp add: cache_abs_def)
  ultimately show ?thesis using s by (simp add: Lru_Get_def Let_def split_beta cache_abs_set [OF i])
qed

lemma Lru_Put_spec:
  assumes c: "cache_ok w c"
  shows "cache_ok w (Lru_Put hash w k v c) \<and> (None, cache_abs (Lru_Put hash w k v c))
    = spec_step (ShardOf hash c) (\<lambda>v. unat (w v)) (unat (max_total_weight c)) (unat (shard_weight_cap c)) (CPut k v) (cache_abs c)"
proof (cases "w v > max_total_weight c")
  case True
  then show ?thesis using c by (simp add: Lru_Put_def word_less_nat_alt)
next
  case False
  let ?i = "ShardOf hash c k"
  note i = ShardOf_less [OF c, of hash k]
  have ok: "shard_ok w (shard_weight_cap c) (shard c ! ?i)" using c i by (simp add: cache_ok_def)
  have "unat (shard_weight_cap c) + unat (w v) < 2 ^ 64" using False c by (simp add: cache_ok_def word_less_nat_alt)
  from Shard_Put_spec [OF ok this, of k] have s: "shard_ok w (shard_weight_cap c) (Shard_Put w (shard_weight_cap c) k v (shard c ! ?i))"
    "entries_of (Shard_Put w (shard_weight_cap c) k v (shard c ! ?i))
      = spec_put (\<lambda>v. unat (w v)) (unat (shard_weight_cap c)) k v (entries_of (shard c ! ?i))"
    by simp_all
  have p: "Lru_Put hash w k v c = c\<lparr>shard := (shard c)[?i := Shard_Put w (shard_weight_cap c) k v (shard c ! ?i)]\<rparr>"
    using False by (simp add: Lru_Put_def Let_def)
  show ?thesis
    using False s cache_ok_set [OF c s(1), of ?i] i
    by (simp add: p cache_abs_set [OF i] word_less_nat_alt) (simp add: cache_abs_def)
qed

lemma Lru_Clear_spec:
  assumes "cache_ok w c"
  shows "cache_ok w (Lru_Clear c) \<and> cache_abs (Lru_Clear c) = (\<lambda>_. [])"
  using assms by (auto simp: Lru_Clear_def cache_ok_def shard_ok_def shard_links_def entries_of_def cache_abs_def)

lemma lru_step_spec:
  assumes "cache_ok w c"
  shows "cache_ok w (snd (lru_step hash w x c)) \<and> (fst (lru_step hash w x c), cache_abs (snd (lru_step hash w x c)))
    = spec_step (ShardOf hash c) (\<lambda>v. unat (w v)) (unat (max_total_weight c)) (unat (shard_weight_cap c)) x (cache_abs c)"
  using Lru_Get_spec [OF assms] Lru_Put_spec [OF assms] Lru_Clear_spec [OF assms]
  by (cases x) (simp_all del: spec_step.simps(1,2))

lemma lru_step_consts:
  "shards (snd (lru_step hash w x c)) = shards c" "max_total_weight (snd (lru_step hash w x c)) = max_total_weight c"
  "shard_weight_cap (snd (lru_step hash w x c)) = shard_weight_cap c"
  by (cases x; simp add: Lru_Get_def Lru_Put_def Lru_Clear_def Let_def split_beta)+

lemma lru_run_spec:
  assumes "cache_ok w c"
  shows "cache_ok w (snd (lru_run hash w xs c)) \<and> shards (snd (lru_run hash w xs c)) = shards c
    \<and> shard_weight_cap (snd (lru_run hash w xs c)) = shard_weight_cap c
    \<and> fst (lru_run hash w xs c)
      = spec_run (ShardOf hash c) (\<lambda>v. unat (w v)) (unat (max_total_weight c)) (unat (shard_weight_cap c)) xs (cache_abs c)"
  using assms
proof (induction xs arbitrary: c)
  case (Cons x xs)
  let ?c = "snd (lru_step hash w x c)"
  have sh: "ShardOf hash ?c = ShardOf hash c" by (simp add: ShardOf_def fun_eq_iff lru_step_consts)
  note s = lru_step_spec [OF Cons.prems, of hash x]
  from s have e: "spec_step (ShardOf hash c) (\<lambda>v. unat (w v)) (unat (max_total_weight c)) (unat (shard_weight_cap c)) x (cache_abs c)
    = (fst (lru_step hash w x c), cache_abs ?c)" by simp
  show ?case using Cons.IH [of ?c] s by (simp add: split_beta Let_def e sh lru_step_consts)
qed simp

lemma total_weight_bound:
  assumes "cache_ok w c" and "unat (shards c) * unat (shard_weight_cap c) \<le> m"
  shows "(\<Sum>s\<leftarrow>shard c. unat (weight s)) \<le> m"
proof -
  have "(\<Sum>s\<leftarrow>shard c. unat (weight s)) \<le> (\<Sum>s\<leftarrow>shard c. unat (shard_weight_cap c))"
    using assms(1) by (intro sum_list_mono) (auto simp: cache_ok_def shard_ok_def word_le_nat_alt)
  also have "\<dots> = unat (shards c) * unat (shard_weight_cap c)" using assms(1) by (simp add: cache_ok_def sum_list_triv)
  finally show ?thesis using assms(2) by simp
qed

text \<open>
  C26: any sequence of calls on a fresh cache with at least one shard and a
  budget below \<open>2 ^ 63\<close> gives the answers of one textbook LRU list per shard, which keeps
  the longest most recently used prefix that fits the shard's share; and when the budget
  is at least one unit per shard, the recorded weights never sum to more than the budget.
\<close>

theorem lru_cache_refines:
  assumes "n \<noteq> 0" and "maxw < 2 ^ 63"
  shows "fst (lru_run hash w ops (NewLruCache n maxw))
      = spec_run (\<lambda>k. unat (hash k mod n)) (\<lambda>v. unat (w v)) (unat maxw) (max 1 (unat maxw div unat n)) ops (\<lambda>_. []) \<and>
    (n \<le> maxw \<longrightarrow> (\<Sum>s\<leftarrow>shard (snd (lru_run hash w ops (NewLruCache n maxw))). unat (weight s)) \<le> unat maxw)"
proof
  let ?c = "NewLruCache n maxw"
  have ok: "cache_ok w ?c" using NewLruCache_ok [OF assms] .
  note run = lru_run_spec [OF ok, of hash ops]
  have "maxw div n \<noteq> 0 \<Longrightarrow> 1 \<le> unat (maxw div n)" by (simp add: Suc_le_eq unat_gt_0)
  then have cap: "unat (shard_weight_cap ?c) = max 1 (unat maxw div unat n)"
    by (auto simp: NewLruCache_def Let_def unat_div [symmetric] max_def)
  have c: "ShardOf hash ?c = (\<lambda>k. unat (hash k mod n))" "max_total_weight ?c = maxw" "cache_abs ?c = (\<lambda>_. [])" "shards ?c = n"
    by (simp_all add: NewLruCache_def ShardOf_def Let_def cache_abs_def fun_eq_iff entries_of_def NewShard_def)
  show "fst (lru_run hash w ops ?c)
      = spec_run (\<lambda>k. unat (hash k mod n)) (\<lambda>v. unat (w v)) (unat maxw) (max 1 (unat maxw div unat n)) ops (\<lambda>_. [])"
    using run by (simp only: c cap)
  show "n \<le> maxw \<longrightarrow> (\<Sum>s\<leftarrow>shard (snd (lru_run hash w ops ?c)). unat (weight s)) \<le> unat maxw"
  proof
    assume "n \<le> maxw"
    then have "unat maxw div unat n \<ge> 1" using assms(1) by (simp add: word_le_nat_alt div_greater_zero_iff Suc_le_eq unat_gt_0)
    then have "unat n * max 1 (unat maxw div unat n) \<le> unat maxw" by (simp add: max_def)
    then show "(\<Sum>s\<leftarrow>shard (snd (lru_run hash w ops ?c)). unat (weight s)) \<le> unat maxw"
      using run total_weight_bound by (metis c(4) cap)
  qed
qed

theorem lru_cache_refines_witness:
  "fst (lru_run (\<lambda>k. k) (\<lambda>v. v) [CPut 4 2, CPut 6 3, CGet 4, CPut 8 3, CGet 6, CGet 4] (NewLruCache 2 10))
     = [None, None, Some (2 :: u64), None, None, Some 2]"
  using lru_cache_refines [of 2 10 "\<lambda>k. k" "\<lambda>v. v" "[CPut 4 2, CPut 6 3, CGet 4, CPut 8 3, CGet 6, CGet 4]"]
  by (simp add: spec_get_def spec_put_def drop_key_def Let_def)

subsection \<open>The contract of a cache that may forget\<close>

text \<open>
  What a reader that fills the cache itself relies on: a hit returns a pair that was put,
  and no call invents one.
\<close>

locale lossy_cache =
  fixes cget :: "'k \<Rightarrow> 'c \<Rightarrow> 'v option \<times> 'c" and cput :: "'k \<Rightarrow> 'v \<Rightarrow> 'c \<Rightarrow> 'c"
    and cinv :: "'c \<Rightarrow> bool" and content_of :: "'c \<Rightarrow> ('k \<times> 'v) set"
  assumes hit: "cinv c \<Longrightarrow> fst (cget k c) = Some v \<Longrightarrow> (k, v) \<in> content_of c"
    and get_keeps: "cinv c \<Longrightarrow> cinv (snd (cget k c)) \<and> content_of (snd (cget k c)) \<subseteq> content_of c"
    and put_keeps: "cinv c \<Longrightarrow> cinv (cput k v c) \<and> content_of (cput k v c) \<subseteq> insert (k, v) (content_of c)"
begin

text \<open>A cache every pair of which satisfies \<open>R\<close>.\<close>

definition coherent :: "('k \<Rightarrow> 'v \<Rightarrow> bool) \<Rightarrow> 'c \<Rightarrow> bool" where
  "coherent R c \<longleftrightarrow> cinv c \<and> (\<forall>(k, v)\<in>content_of c. R k v)"

lemma coherent_get:
  assumes "coherent R c"
  shows "coherent R (snd (cget k c)) \<and> (\<forall>v. fst (cget k c) = Some v \<longrightarrow> R k v)"
  using assms get_keeps [of c k] hit [of c k] unfolding coherent_def by blast

lemma coherent_put: "coherent R c \<Longrightarrow> R k v \<Longrightarrow> coherent R (cput k v c)"
  using put_keeps [of c k v] unfolding coherent_def by blast

lemma coherent_mono: "coherent R c \<Longrightarrow> (\<And>k v. R k v \<Longrightarrow> S k v) \<Longrightarrow> coherent S c"
  unfolding coherent_def by blast

end

definition cache_content :: "('k, 'v) LruCache \<Rightarrow> ('k \<times> 'v) set" where
  "cache_content c = (\<Union>i. set (cache_abs c i))"

interpretation lru_cache: lossy_cache "Lru_Get hash" "Lru_Put hash w" "cache_ok w" cache_content for hash w
proof (unfold_locales, goal_cases)
  case (1 c k v)
  then have "fst (spec_get k (cache_abs c (ShardOf hash c k))) = Some v"
    using Lru_Get_spec [OF 1(1), of hash k] by (simp add: split_beta Let_def)
  then show ?case by (auto simp: spec_get_def cache_content_def dest: map_of_SomeD split: option.splits)
next
  case (2 c k)
  have "set (snd (spec_get k xs)) \<subseteq> set xs" for xs
    by (auto simp: spec_get_def drop_key_def dest: map_of_SomeD split: option.splits)
  from this [of "cache_abs c (ShardOf hash c k)"] show ?case using Lru_Get_spec [OF 2, of hash k]
    by (auto simp: split_beta Let_def cache_content_def subset_iff split: if_splits)
next
  case (3 c k v)
  have "set (spec_put w cap k v xs) \<subseteq> insert (k, v) (set xs)" for w cap xs
    using set_fit [of w cap "(k, v) # drop_key k xs"] by (auto simp: spec_put_def drop_key_def)
  from this [of "\<lambda>v. unat (w v)" "unat (shard_weight_cap c)" "cache_abs c (ShardOf hash c k)"]
  show ?case using Lru_Put_spec [OF 3, of hash k v]
    by (auto simp: cache_content_def subset_iff split: if_splits)
qed

end
