(* ===== verification/Db.thy ===== *)
theory Db
  imports Manifest Ring Iterators LruCache VLog
begin

text \<open>
  The state of the database (\<^verbatim>\<open>include/bedrockkv/db.h\<close>) and its write path (\<^verbatim>\<open>src/db.cpp\<close>):
  the record a write appends to the log, value separation, the synchronous and the io_uring
  append, the sync policy, rotation, \<^verbatim>\<open>Put\<close>, \<^verbatim>\<open>Delete\<close> and snapshots. An operation runs under
  the mutex of the database. \<open>None\<close> is an operation that does not return. Notifications of
  waiting threads have no counterpart.
\<close>

subsection \<open>State\<close>

datatype SyncMode = kSyncAlways | kSyncPeriodic | kSyncNever

record Options =
  sync_mode :: SyncMode
  write_buffer_size :: nat
  l0_compaction_trigger :: nat
  level_base_size :: u64
  max_sst_size :: nat
  enable_value_separation :: bool
  value_separation_threshold :: nat
  opt_vlog_gc_size :: nat
  enable_io_uring :: bool

record TableRef =
  tr_table :: Table
  tr_meta :: FileMeta

record Version =
  l0 :: "TableRef list"
  levels :: "TableRef list list"

record DB =
  db_dir :: path
  world :: World
  log_fd :: nat
  log_offset :: nat
  ring :: "Ring option"
  wal_size :: nat
  wal_token :: u64
  wal_pending :: "(u64 \<times> bytes) list"
  wal_ring_error :: Status
  mem :: MemTable
  imm :: "MemTable option"
  imm_log_number :: u64
  imm_sst_number :: u64
  version :: Version
  next_seq :: u64
  db_options :: Options
  unsynced_bytes :: u64
  wal_truncated :: bool
  snapshots :: "(nat \<times> u64) list"
  next_snapshot :: nat
  next_file_number :: u64
  log_number :: u64
  vsep_enabled :: bool
  vsep_threshold :: nat
  vlog_gc_size :: nat
  vlogs :: "(u64 \<times> VLog) list"
  vlog_current :: "u64 option"
  vlog_gc_floor :: u64
  vlog_gc_active :: bool
  vlog_cache :: "(bytes, bytes) LruCache"
  stats_wal_bytes :: u64
  stats_sst_bytes :: u64
  stats_vlog_bytes :: u64
  stats_user_bytes :: u64
  stats_flushes :: u64
  stats_compactions :: u64
  stats_vlog_gcs :: u64
  compaction_disabled :: bool
  last_error :: Status

abbreviation io_uring_active :: "DB \<Rightarrow> bool" where "io_uring_active db \<equiv> ring db \<noteq> None"

definition kSyncThresholdBytes :: u64 where "kSyncThresholdBytes = 1048576"

definition SstPath :: "u64 \<Rightarrow> DB \<Rightarrow> path" where "SstPath n db = db_dir db @ str ''/'' @ SstFileName n"
definition LogPath :: "u64 \<Rightarrow> DB \<Rightarrow> path" where "LogPath n db = db_dir db @ str ''/'' @ LogFileName n"
definition VlogPath :: "u64 \<Rightarrow> DB \<Rightarrow> path" where "VlogPath n db = db_dir db @ str ''/'' @ VlogFileName n"

text \<open>\<^verbatim>\<open>std::map\<close> keeps the generations sorted by number; the current one is shared with it.\<close>

definition set_vlog :: "u64 \<Rightarrow> VLog \<Rightarrow> DB \<Rightarrow> DB" where
  "set_vlog n vl db = db\<lparr>vlogs := map (\<lambda>x. if fst x = n then (n, vl) else x) (vlogs db)\<rparr>"

definition current_vlog :: "DB \<Rightarrow> (u64 \<times> VLog) option" where
  "current_vlog db = (case vlog_current db of None \<Rightarrow> None | Some n \<Rightarrow> map_option (Pair n) (map_of (vlogs db) n))"

subsection \<open>Log records\<close>

definition wal_payload :: "u64 \<Rightarrow> u8 \<Rightarrow> bytes \<Rightarrow> bytes \<Rightarrow> bytes" where
  "wal_payload seq type k stored =
     PutFixed64 seq @ [type] @ PutFixed32 (of_nat (length k)) @ k @
     (if type = kTypeValue then PutFixed32 (of_nat (length stored)) @ stored else [])"

text \<open>
  The sums with \<^verbatim>\<open>klen\<close> are 32-bit sums. The result is \<open>None\<close> for a read outside the payload,
  \<open>Some None\<close> for false.
\<close>

definition ParseRecord :: "bytes \<Rightarrow> (u64 \<times> u8 \<times> bytes \<times> bytes) option option" where
  "ParseRecord payload =
     (if length payload < 13 then Some None
      else
        let seq = GetFixed64 payload; type = payload ! 8; klen = GetFixed32 (drop 9 payload)
        in if unat klen > length payload - 13 then Some None
           else
             let k = sub payload 13 (unat klen)
             in if type = kTypeValue then
                  (if length payload < unat (klen + 17) then Some None
                   else case read32_at payload (13 + unat klen) of
                     None \<Rightarrow> None
                   | Some vlen \<Rightarrow>
                       if length payload \<noteq> unat (klen + 17) + unat vlen then Some None
                       else Some (Some (seq, type, k, sub payload (17 + unat klen) (unat vlen))))
                else if type = kTypeDeletion then
                  (if length payload \<noteq> unat (klen + 13) then Some None else Some (Some (seq, type, k, [])))
                else Some None)"

subsection \<open>The ring\<close>

text \<open>The callbacks of \<^verbatim>\<open>Reap\<close>: completed buffers are dropped, the first error is kept.\<close>

definition erase_pending :: "(u64 \<times> (bytes + nat)) list \<Rightarrow> DB \<Rightarrow> DB" where
  "erase_pending cs db = db\<lparr>wal_pending := filter (\<lambda>x. fst x \<notin> fst ` set cs) (wal_pending db)\<rparr>"

fun first_error :: "string \<Rightarrow> Status \<Rightarrow> (u64 \<times> (bytes + nat)) list \<Rightarrow> Status" where
  "first_error what err [] = err"
| "first_error what err ((token, res) # cs) =
     first_error what (case res of Inl e \<Rightarrow> if ok err then IOError (str what @ e) else err | Inr _ \<Rightarrow> err) cs"

definition DrainWalRing :: "DB \<Rightarrow> (Status \<times> DB) option" where
  "DrainWalRing db = (case ring db of
      None \<Rightarrow> None
    | Some r \<Rightarrow>
        if outstanding r = 0 \<and> queued r = 0 then Some (Ok, db)
        else case Ring_Flush True r (world db) of
               None \<Rightarrow> None
             | Some (Some e, r1, w1) \<Rightarrow> Some (IOError (str ''io_uring_enter wait failed: '' @ e), db\<lparr>ring := Some r1, world := w1\<rparr>)
             | Some (None, r1, w1) \<Rightarrow>
                 (case Ring_Reap False r1 w1 of
                    None \<Rightarrow> None
                  | Some (_, cs, r2, w2) \<Rightarrow>
                      Some (first_error ''async WAL write failed: '' Ok cs, (erase_pending cs db)\<lparr>ring := Some r2, world := w2\<rparr>)))"

definition SyncViaRing :: "DB \<Rightarrow> (Status \<times> DB) option" where
  "SyncViaRing db = (case ring db of
      None \<Rightarrow> None
    | Some r \<Rightarrow>
        let db1 = db\<lparr>wal_token := wal_token db + 1\<rparr>
        in case QueueFsync (log_fd db) (wal_token db1) r of
             (False, r1) \<Rightarrow> Some (IOError (str ''io_uring submission queue full''), db1\<lparr>ring := Some r1\<rparr>)
           | (True, r1) \<Rightarrow>
               (case (case current_vlog db of
                        None \<Rightarrow> (True, r1, db1)
                      | Some (_, vl) \<Rightarrow>
                          let db2 = db1\<lparr>wal_token := wal_token db1 + 1\<rparr>
                          in case QueueFsync (vl_fd vl) (wal_token db2) r1 of (b, r2) \<Rightarrow> (b, r2, db2)) of
                  (False, r2, db2) \<Rightarrow> Some (IOError (str ''io_uring submission queue full''), db2\<lparr>ring := Some r2\<rparr>)
                | (True, r2, db2) \<Rightarrow>
                    (case Ring_Flush True r2 (world db2) of
                       None \<Rightarrow> None
                     | Some (Some e, r3, w3) \<Rightarrow> Some (IOError (str ''io_uring_enter wait failed: '' @ e), db2\<lparr>ring := Some r3, world := w3\<rparr>)
                     | Some (None, r3, w3) \<Rightarrow>
                         (case Ring_Reap False r3 w3 of
                            None \<Rightarrow> None
                          | Some (_, cs, r4, w4) \<Rightarrow>
                              Some (first_error ''async fsync failed: '' Ok cs, db2\<lparr>ring := Some r4, world := w4\<rparr>)))))"

subsection \<open>Sync policy\<close>

text \<open>The two fsyncs of the synchronous path, the value log first.\<close>

definition sync_files :: "DB \<Rightarrow> Status \<times> DB" where
  "sync_files db =
     (case (case current_vlog db of None \<Rightarrow> (Ok, world db) | Some (_, vl) \<Rightarrow> VLog_Sync vl (world db)) of
        (s, w1) \<Rightarrow>
          if \<not> ok s then (s, db\<lparr>world := w1\<rparr>)
          else case fsync (log_fd db) w1 of
                 (Inl e, w2) \<Rightarrow> (IOError (str ''log fsync failed: '' @ e), db\<lparr>world := w2\<rparr>)
               | (Inr _, w2) \<Rightarrow> (Ok, db\<lparr>world := w2, unsynced_bytes := 0\<rparr>))"

text \<open>Both fsyncs through the ring, after everything queued has completed.\<close>

definition sync_ring :: "DB \<Rightarrow> (Status \<times> DB) option" where
  "sync_ring db = (case DrainWalRing db of
      None \<Rightarrow> None
    | Some (d, db1) \<Rightarrow>
        if \<not> ok d then Some (d, db1)
        else case SyncViaRing db1 of
               None \<Rightarrow> None
             | Some (p, db2) \<Rightarrow> Some (p, if ok p then db2\<lparr>unsynced_bytes := 0\<rparr> else db2))"

definition MaybeSync :: "DB \<Rightarrow> (Status \<times> DB) option" where
  "MaybeSync db = (case sync_mode (db_options db) of
      kSyncNever \<Rightarrow> Some (Ok, db)
    | m \<Rightarrow>
        let need = (case m of kSyncAlways \<Rightarrow> True | _ \<Rightarrow> unsynced_bytes db \<ge> kSyncThresholdBytes)
        in if io_uring_active db then
             (if \<not> ok (wal_ring_error db) then Some (wal_ring_error db, db\<lparr>wal_ring_error := Ok\<rparr>)
              else if need then sync_ring db
              else Some (Ok, db))
           else if need then Some (sync_files db)
           else Some (Ok, db))"

definition ForceDurabilityLocked :: "DB \<Rightarrow> (Status \<times> DB) option" where
  "ForceDurabilityLocked db = (if io_uring_active db then sync_ring db else Some (sync_files db))"

subsection \<open>WriteEntry\<close>

definition pointer_shaped :: "bytes \<Rightarrow> bool" where
  "pointer_shaped v \<longleftrightarrow> length v = kValuePointerSize \<and> length v > 0 \<and> v ! 0 = kValuePointerTag"

text \<open>What goes into the value slot: the value, or a pointer to where the value log took it.\<close>

definition separate_value :: "u8 \<Rightarrow> bytes \<Rightarrow> bytes \<Rightarrow> DB \<Rightarrow> (Status \<times> bytes \<times> DB) option" where
  "separate_value type k v db =
     (if type = kTypeValue \<and> vsep_enabled db \<and> (length v \<ge> vsep_threshold db \<or> pointer_shaped v) then
        (case current_vlog db of
           None \<Rightarrow> None
         | Some (n, vl) \<Rightarrow>
             (case VLog_Append k v vl (world db) of
                (s, off, entry_bytes, vl', w') \<Rightarrow>
                  let db1 = (set_vlog n vl' db)\<lparr>world := w'\<rparr>
                  in if \<not> ok s then Some (s, v, db1)
                     else Some (Ok, EncodeValuePointer \<lparr>vlog_number = vl_number vl', vp_offset = of_nat off, value_size = of_nat (length v)\<rparr>,
                            db1\<lparr>unsynced_bytes := unsynced_bytes db1 + of_nat entry_bytes,
                                stats_vlog_bytes := stats_vlog_bytes db1 + of_nat entry_bytes\<rparr>)))
      else Some (Ok, v, db))"

definition append_sync :: "bytes \<Rightarrow> DB \<Rightarrow> Status \<times> DB" where
  "append_sync payload db =
     (case fd_AddRecord (log_fd db) payload (log_offset db) (world db) of
        (s, off, w') \<Rightarrow>
          let db1 = db\<lparr>log_offset := off, world := w'\<rparr>
          in if \<not> ok s then (s, db1)
             else let written = of_nat (off - log_offset db)
                  in (Ok, db1\<lparr>unsynced_bytes := unsynced_bytes db1 + written, stats_wal_bytes := stats_wal_bytes db1 + written\<rparr>))"

definition append_ring :: "bytes \<Rightarrow> DB \<Rightarrow> (Status \<times> DB) option" where
  "append_ring payload db = (case ring db of
      None \<Rightarrow> None
    | Some r \<Rightarrow>
        let buf = EncodeRecord payload (wal_size db);
            token = wal_token db + 1;
            db1 = db\<lparr>wal_token := token\<rparr>
        in case QueueWrite (log_fd db) buf (wal_size db) token r of
             (False, r1) \<Rightarrow> Some (IOError (str ''io_uring submission queue full''), db1\<lparr>ring := Some r1\<rparr>)
           | (True, r1) \<Rightarrow>
               let db2 = db1\<lparr>wal_pending := wal_pending db @ [(token, buf)],
                             unsynced_bytes := unsynced_bytes db + of_nat (length buf),
                             stats_wal_bytes := stats_wal_bytes db + of_nat (length buf),
                             wal_size := wal_size db + length buf\<rparr>
               in case Ring_Flush False r1 (world db) of
                    None \<Rightarrow> None
                  | Some (Some e, r2, w2) \<Rightarrow>
                      Some (IOError (str ''io_uring_enter submit failed: '' @ e), db2\<lparr>ring := Some r2, world := w2\<rparr>)
                  | Some (None, r2, w2) \<Rightarrow>
                      (case Ring_Reap False r2 w2 of
                         None \<Rightarrow> None
                       | Some (_, cs, r3, w3) \<Rightarrow>
                           Some (Ok, (erase_pending cs db2)\<lparr>ring := Some r3, world := w3,
                             wal_ring_error := first_error ''async WAL write failed: '' (wal_ring_error db) cs\<rparr>)))"

definition append_wal :: "bytes \<Rightarrow> DB \<Rightarrow> (Status \<times> DB) option" where
  "append_wal payload db = (if io_uring_active db then append_ring payload db else Some (append_sync payload db))"

definition mem_insert :: "nat list \<Rightarrow> u64 \<Rightarrow> u8 \<Rightarrow> bytes \<Rightarrow> bytes \<Rightarrow> MemTable \<Rightarrow> MemTable option" where
  "mem_insert coins seq type k stored mt =
     (if type = kTypeValue then MemTable_Put coins seq k stored mt else MemTable_Delete coins seq k mt)"

definition WriteEntry :: "nat list \<Rightarrow> u8 \<Rightarrow> bytes \<Rightarrow> bytes \<Rightarrow> bool \<Rightarrow> DB \<Rightarrow> (Status \<times> DB) option" where
  "WriteEntry coins type k v count_user_bytes db =
     (case separate_value type k v db of
        None \<Rightarrow> None
      | Some (s1, stored, db1) \<Rightarrow>
          if \<not> ok s1 then Some (s1, db1)
          else case append_wal (wal_payload (next_seq db1) type k stored) db1 of
                 None \<Rightarrow> None
               | Some (s2, db2) \<Rightarrow>
                   if \<not> ok s2 then Some (s2, db2)
                   else let db3 = (if count_user_bytes
                                   then db2\<lparr>stats_user_bytes := stats_user_bytes db2 + of_nat (length k + length v)\<rparr> else db2)
                        in case MaybeSync db3 of
                             None \<Rightarrow> None
                           | Some (s4, db4) \<Rightarrow>
                               if \<not> ok s4 then Some (s4, db4)
                               else case mem_insert coins (next_seq db4) type k stored (mem db4) of
                                      None \<Rightarrow> None
                                    | Some mt \<Rightarrow> Some (Ok, db4\<lparr>mem := mt, next_seq := next_seq db4 + 1\<rparr>))"

subsection \<open>Rotation, Put and Delete\<close>

definition RotateForFlush :: "DB \<Rightarrow> (Status \<times> DB) option" where
  "RotateForFlush db =
     (case (if io_uring_active db then DrainWalRing db else Some (Ok, db)) of
        None \<Rightarrow> None
      | Some (d, db0) \<Rightarrow>
          if \<not> ok d then Some (d, db0)
          else
            let new_log = next_file_number db0
            in case open_trunc (LogPath new_log db0) (world db0) of
                 (Inl e, w1) \<Rightarrow>
                   Some (IOError (str ''cannot create '' @ LogFileName new_log @ str '': '' @ e), db0\<lparr>world := w1\<rparr>)
               | (Inr fd, w1) \<Rightarrow>
                   (case fsync fd w1 of
                      (Inl e, w2) \<Rightarrow>
                        Some (IOError (str ''fsync '' @ LogFileName new_log @ str '' failed: '' @ e), db0\<lparr>world := w2\<rparr>)
                    | (Inr _, w2) \<Rightarrow>
                        (case SyncDir (db_dir db0) w2 of
                           (ds, w3) \<Rightarrow>
                             if \<not> ok ds then Some (ds, db0\<lparr>world := w3\<rparr>)
                             else Some (Ok, db0\<lparr>world := w3, imm_log_number := log_number db0,
                                    imm_sst_number := new_log + 1, next_file_number := new_log + 2,
                                    imm := Some (mem db0), mem := NewMemTable, log_fd := fd, log_number := new_log,
                                    log_offset := 0, wal_size := 0, unsynced_bytes := 0\<rparr>))))"

text \<open>
  The body of \<^verbatim>\<open>Put\<close> and \<^verbatim>\<open>Delete\<close>. While an immutable memtable is pending they wait for the
  background thread to drain it; the wait is \<open>None\<close> here, and the schedule of the background
  thread decides when they run.
\<close>

definition make_room_and_write :: "nat list \<Rightarrow> u8 \<Rightarrow> bytes \<Rightarrow> bytes \<Rightarrow> DB \<Rightarrow> (Status \<times> DB) option" where
  "make_room_and_write coins type k v db =
     (if imm db \<noteq> None then None
      else case (if approximate_size (mem db) \<ge> write_buffer_size (db_options db) then RotateForFlush db else Some (Ok, db)) of
             None \<Rightarrow> None
           | Some (s, db1) \<Rightarrow> if \<not> ok s then Some (s, db1) else WriteEntry coins type k v True db1)"

definition DB_Put :: "nat list \<Rightarrow> bytes \<Rightarrow> bytes \<Rightarrow> DB \<Rightarrow> (Status \<times> DB) option" where
  "DB_Put coins k v db = make_room_and_write coins kTypeValue k v db"

definition DB_Delete :: "nat list \<Rightarrow> bytes \<Rightarrow> DB \<Rightarrow> (Status \<times> DB) option" where
  "DB_Delete coins k db = make_room_and_write coins kTypeDeletion k [] db"

subsection \<open>Snapshots\<close>

text \<open>A snapshot is a handle and its sequence number.\<close>

definition GetSnapshot :: "DB \<Rightarrow> (nat \<times> u64) \<times> DB" where
  "GetSnapshot db = (let s = (next_snapshot db, next_seq db - 1)
     in (s, db\<lparr>snapshots := snapshots db @ [s], next_snapshot := Suc (next_snapshot db)\<rparr>))"

fun release_first :: "nat \<Rightarrow> (nat \<times> u64) list \<Rightarrow> (nat \<times> u64) list" where
  "release_first h [] = []"
| "release_first h (s # ss) = (if fst s = h then ss else s # release_first h ss)"

definition ReleaseSnapshot :: "nat \<Rightarrow> DB \<Rightarrow> DB" where
  "ReleaseSnapshot h db = db\<lparr>snapshots := release_first h (snapshots db)\<rparr>"

definition SmallestSnapshotSeq :: "DB \<Rightarrow> u64" where
  "SmallestSnapshotSeq db = fold (\<lambda>s m. min m (snd s)) (snapshots db) kMaxSeq"

end
