(* ===== verification/DbRead.thy ===== *)
theory DbRead
  imports Db
begin

text \<open>
  The read path of the database: the traversal \<^verbatim>\<open>LookupIn\<close>, \<^verbatim>\<open>Get\<close>, \<^verbatim>\<open>Scan\<close> and the
  resolution of value pointers through the cache. The theory also says what a set of memtables
  and tables holds and shows that the traversal reads the newest visible version.
\<close>

subsection \<open>LookupIn\<close>

text \<open>A result and the status of the lookup; a miss with an error ends the traversal.\<close>

definition searched :: "Lookup \<times> Status \<Rightarrow> bool" where
  "searched r \<longleftrightarrow> fst r \<noteq> kMissing \<or> \<not> ok (snd r)"

fun lookup_l0 :: "TableRef list \<Rightarrow> bytes \<Rightarrow> u64 \<Rightarrow> (Lookup \<times> Status) option" where
  "lookup_l0 [] k mx = Some (kMissing, Ok)"
| "lookup_l0 (r # rs) k mx = (case Table_Get (tr_table r) k mx of
      None \<Rightarrow> None
    | Some x \<Rightarrow> if searched x then Some x else lookup_l0 rs k mx)"

definition level_candidate :: "TableRef list \<Rightarrow> bytes \<Rightarrow> TableRef option" where
  "level_candidate rs k =
     (let it = upper_bound (\<lambda>k r. k < t_smallest_user_key (tr_table r)) rs k
      in if it = 0 then None
         else if k > t_largest_user_key (tr_table (rs ! (it - 1))) then None
         else Some (rs ! (it - 1)))"

fun lookup_levels :: "TableRef list list \<Rightarrow> bytes \<Rightarrow> u64 \<Rightarrow> (Lookup \<times> Status) option" where
  "lookup_levels [] k mx = Some (kMissing, Ok)"
| "lookup_levels (rs # rss) k mx = (case level_candidate rs k of
      None \<Rightarrow> lookup_levels rss k mx
    | Some r \<Rightarrow>
        (case Table_Get (tr_table r) k mx of
           None \<Rightarrow> None
         | Some x \<Rightarrow> if searched x then Some x else lookup_levels rss k mx))"

definition LookupIn :: "MemTable \<Rightarrow> MemTable option \<Rightarrow> Version \<Rightarrow> bytes \<Rightarrow> u64 \<Rightarrow> (Lookup \<times> Status) option" where
  "LookupIn mt im v k mx =
     (case MemTable_Get mt k mx of
        None \<Rightarrow> None
      | Some x \<Rightarrow>
          if x \<noteq> kMissing then Some (x, Ok)
          else case (case im of None \<Rightarrow> Some kMissing | Some m \<Rightarrow> MemTable_Get m k mx) of
                 None \<Rightarrow> None
               | Some y \<Rightarrow>
                   if y \<noteq> kMissing then Some (y, Ok)
                   else case lookup_l0 (l0 v) k mx of
                          None \<Rightarrow> None
                        | Some z \<Rightarrow> if searched z then Some z else lookup_levels (levels v) k mx)"

subsection \<open>Value pointers\<close>

definition VLogFor :: "u64 \<Rightarrow> DB \<Rightarrow> VLog option" where
  "VLogFor n db = map_of (vlogs db) n"

abbreviation value_weight :: "bytes \<Rightarrow> u64" where "value_weight v \<equiv> of_nat (length v)"

definition MaybeResolvePointer :: "(bytes \<Rightarrow> u64) \<Rightarrow> bytes \<Rightarrow> DB \<Rightarrow> Status \<times> bytes \<times> DB" where
  "MaybeResolvePointer hash v db =
     (if \<not> vsep_enabled db then (Ok, v, db)
      else if length v \<noteq> kValuePointerSize \<or> v ! 0 \<noteq> kValuePointerTag then (Ok, v, db)
      else case DecodeValuePointer v of
             None \<Rightarrow> (Corruption (str ''undecodable value pointer''), v, db)
           | Some p \<Rightarrow>
               (case Lru_Get hash v (vlog_cache db) of
                  (Some cached, c) \<Rightarrow> (Ok, cached, db\<lparr>vlog_cache := c\<rparr>)
                | (None, c) \<Rightarrow>
                    let db1 = db\<lparr>vlog_cache := c\<rparr>
                    in case VLogFor (vlog_number p) db1 of
                         None \<Rightarrow>
                           (Corruption (str ''value log '' @ VLog_FileName (vlog_number p) @
                              str '' is gone (separation disabled after use?)''), v, db1)
                       | Some vl \<Rightarrow>
                           (case ReadValue (vp_offset p) (value_size p) vl (world db1) of
                              (Inl s, w) \<Rightarrow> (s, v, db1\<lparr>world := w\<rparr>)
                            | (Inr resolved, w) \<Rightarrow>
                                (Ok, resolved, db1\<lparr>world := w, vlog_cache := Lru_Put hash value_weight v resolved (vlog_cache db1)\<rparr>))))"

subsection \<open>Get\<close>

text \<open>The read point: the sequence number of a snapshot, or everything.\<close>

definition read_seq :: "u64 option \<Rightarrow> u64" where
  "read_seq snapshot = (case snapshot of None \<Rightarrow> kMaxSeq | Some s \<Rightarrow> s)"

definition DB_Get :: "(bytes \<Rightarrow> u64) \<Rightarrow> bytes \<Rightarrow> u64 option \<Rightarrow> DB \<Rightarrow> (Status \<times> bytes \<times> DB) option" where
  "DB_Get hash k snapshot db =
     (case LookupIn (mem db) (imm db) (version db) k (read_seq snapshot) of
        None \<Rightarrow> None
      | Some (kFound stored, _) \<Rightarrow> Some (MaybeResolvePointer hash stored db)
      | Some (kDeleted, _) \<Rightarrow> Some (NotFound (str ''deleted: '' @ k), [], db)
      | Some (kMissing, e) \<Rightarrow> Some (if \<not> ok e then e else NotFound (str ''missing: '' @ k), [], db))"

subsection \<open>Scan\<close>

fun level_children :: "bytes \<Rightarrow> bytes \<Rightarrow> TableRef list \<Rightarrow> Child list" where
  "level_children first fin [] = []"
| "level_children first fin (r # rs) =
     (if t_largest_user_key (tr_table r) < first then level_children first fin rs
      else if t_smallest_user_key (tr_table r) \<ge> fin then []
      else TableChild (NewTableIterator (tr_table r)) # level_children first fin rs)"

definition NewMemIterator :: MemTableIterator where
  "NewMemIterator = \<lparr>mit = None, key_buf = [], mvalue = [], mvalid = False\<rparr>"

definition scan_children :: "bytes \<Rightarrow> bytes \<Rightarrow> DB \<Rightarrow> Child list" where
  "scan_children first fin db =
     MemChild (mem db) NewMemIterator #
     (case imm db of None \<Rightarrow> [] | Some m \<Rightarrow> [MemChild m NewMemIterator]) @
     map (\<lambda>r. TableChild (NewTableIterator (tr_table r))) (l0 (version db)) @
     concat (map (level_children first fin) (levels (version db)))"

text \<open>
  The loop over the merge: the user key being walked and whether its visible version was
  found, the calls of \<^verbatim>\<open>fn\<close> so far, the database with its cache.
\<close>

partial_function (option) db_scan_loop ::
  "(bytes \<Rightarrow> u64) \<Rightarrow> bytes \<Rightarrow> u64 \<Rightarrow> MergingIterator \<Rightarrow> (bytes \<times> bool) option \<Rightarrow> (bytes \<times> bytes) list \<Rightarrow> DB
     \<Rightarrow> (Status \<times> (bytes \<times> bytes) list \<times> DB) option" where
  [code]: "db_scan_loop hash fin mx it cur calls db =
     (if \<not> mg_Valid it \<or> ExtractUserKey (mg_key it) \<ge> fin then Some (Ok, calls, db)
      else
        let user = ExtractUserKey (mg_key it);
            emitted = (case cur of None \<Rightarrow> False | Some (u, b) \<Rightarrow> u = user \<and> b);
            tag = ExtractTag (mg_key it)
        in if \<not> emitted \<and> tag_seq tag \<le> mx then
             (if tag_type tag = ucast kTypeValue then
                (case MaybeResolvePointer hash (mg_value it) db of
                   (s, v, db') \<Rightarrow>
                     if \<not> ok s then Some (s, calls, db')
                     else Option.bind (mg_Next it) (\<lambda>it'. db_scan_loop hash fin mx it' (Some (user, True)) (calls @ [(user, v)]) db'))
              else Option.bind (mg_Next it) (\<lambda>it'. db_scan_loop hash fin mx it' (Some (user, True)) calls db))
           else Option.bind (mg_Next it) (\<lambda>it'. db_scan_loop hash fin mx it' (Some (user, emitted)) calls db))"

definition DB_Scan :: "(bytes \<Rightarrow> u64) \<Rightarrow> bytes \<Rightarrow> bytes \<Rightarrow> u64 option \<Rightarrow> DB \<Rightarrow> (Status \<times> (bytes \<times> bytes) list \<times> DB) option" where
  "DB_Scan hash first fin snapshot db =
     Option.bind (mg_Seek (first @ PutFixed64 (target_tag (read_seq snapshot))) (NewMergingIterator (scan_children first fin db)))
       (\<lambda>it. db_scan_loop hash fin (read_seq snapshot) it None [] db)"

subsection \<open>What the tables hold\<close>

definition table_run :: "TableRef \<Rightarrow> entry list \<Rightarrow> bool" where
  "table_run r es \<longleftrightarrow> (\<exists>opts bs. table_rep (tr_table r) opts bs \<and> concat bs = es)"

lemma table_run_facts:
  assumes "table_run r es"
  shows "es \<noteq> []" "sorted_run es" "t_smallest_user_key (tr_table r) = ukey (hd es)" "t_largest_user_key (tr_table r) = ukey (last es)"
    "Table_Get (tr_table r) k mx = Some (lookup_of (lookup_spec es k (target_tag mx)), Ok)"
proof -
  obtain opts bs where rep: "table_rep (tr_table r) opts bs" and es: "concat bs = es" using assms by (auto simp: table_run_def)
  have "bs \<noteq> []" "[] \<notin> set bs" using rep by (simp_all add: table_rep_def)
  then show "es \<noteq> []" using es by (cases bs) auto
  show "sorted_run es" "t_smallest_user_key (tr_table r) = ukey (hd es)" "t_largest_user_key (tr_table r) = ukey (last es)"
    using rep es by (simp_all add: table_rep_def)
  show "Table_Get (tr_table r) k mx = Some (lookup_of (lookup_spec es k (target_tag mx)), Ok)"
    using Table_Get_rep [OF rep] es by simp
qed

text \<open>The files of a level are in key order and do not share a key.\<close>

definition level_run :: "TableRef list \<Rightarrow> entry list list \<Rightarrow> bool" where
  "level_run rs ess \<longleftrightarrow> list_all2 table_run rs ess \<and> sorted_wrt (\<lambda>a b. ukey (last a) < ukey (hd b)) ess"

lemma sorted_run_bounds:
  assumes "sorted_run es" and "e \<in> set es"
  shows "ukey (hd es) \<le> ukey e" and "ukey e \<le> ukey (last es)"
proof -
  have le: "ukey a \<le> ukey b" if "key_lt (ikey a) (ikey b)" for a b :: entry using that by (auto simp: key_lt_def)
  obtain i where i: "i < length es" "e = es ! i" using assms(2) by (metis in_set_conv_nth)
  then have ne: "es \<noteq> []" by auto
  show "ukey (hd es) \<le> ukey e" unfolding hd_conv_nth [OF ne] i(2)
    using assms(1) i(1) le by (cases i) (auto simp: sorted_run_def sorted_wrt_iff_nth_less)
  show "ukey e \<le> ukey (last es)" unfolding last_conv_nth [OF ne] i(2)
    using assms(1) i(1) le by (cases "i = length es - 1") (auto simp: sorted_run_def sorted_wrt_iff_nth_less)
qed

lemma level_run_nth:
  assumes "level_run rs ess"
  shows "length rs = length ess" and "i < length ess \<Longrightarrow> table_run (rs ! i) (ess ! i)"
    and "i < j \<Longrightarrow> j < length ess \<Longrightarrow> ukey (last (ess ! i)) < ukey (hd (ess ! j))"
  using assms by (auto simp: level_run_def list_all2_conv_all_nth sorted_wrt_iff_nth_less)

text \<open>The binary search splits a level: later files start behind the key, all but the last of the others end before it.\<close>

lemma level_split:
  assumes l: "level_run rs ess"
  shows "\<exists>n. upper_bound (\<lambda>k r. k < t_smallest_user_key (tr_table r)) rs k = n \<and> n \<le> length ess
    \<and> (\<forall>j e. n \<le> j \<longrightarrow> j < length ess \<longrightarrow> e \<in> set (ess ! j) \<longrightarrow> ukey e \<noteq> k)
    \<and> (\<forall>j e. j < n - 1 \<longrightarrow> e \<in> set (ess ! j) \<longrightarrow> ukey e \<noteq> k)"
proof -
  note nth = level_run_nth [OF l]
  note tr = table_run_facts [OF nth(2)]
  let ?p = "\<lambda>r. \<not> k < t_smallest_user_key (tr_table r)"
  let ?n = "length (takeWhile ?p rs)"
  have hd_le: "ukey (hd (ess ! i)) \<le> ukey (last (ess ! i))" if "i < length ess" for i
    using sorted_run_bounds(1) [OF tr(2)] tr(1) that by (meson last_in_set)
  have mono: "t_smallest_user_key (tr_table (rs ! i)) < t_smallest_user_key (tr_table (rs ! j))" if "i < j" "j < length ess" for i j
    using that nth(3) [OF that] hd_le [of i] tr(3) [of i] tr(3) [of j] by (auto intro: le_less_trans)
  have "sorted_wrt (\<lambda>a b. t_smallest_user_key (tr_table a) < t_smallest_user_key (tr_table b)) rs"
    using mono nth(1) by (auto simp: sorted_wrt_iff_nth_less)
  from partition_point_sorted [OF this, of ?p] have ub: "upper_bound (\<lambda>k r. k < t_smallest_user_key (tr_table r)) rs k = ?n"
    by (force simp: upper_bound_def)
  have right: "ukey e \<noteq> k" if "?n \<le> j" "j < length ess" "e \<in> set (ess ! j)" for j e
  proof -
    have "\<not> ?p (rs ! ?n)" using nth_length_takeWhile [of ?p rs] that nth(1) by linarith
    then have "k < t_smallest_user_key (tr_table (rs ! j))" using mono [of ?n j] that by (cases "?n = j") (auto intro: less_trans)
    then show ?thesis using sorted_run_bounds(1) [OF tr(2) that(3)] tr(3) that(2) by force
  qed
  have left: "ukey e \<noteq> k" if "j < ?n - 1" "e \<in> set (ess ! j)" for j e
  proof -
    have n: "?n - 1 < length ess" "?n - 1 < ?n" using that(1) nth(1) length_takeWhile_le [of ?p rs] by linarith+
    have "?p (rs ! (?n - 1))" using n(2) by (metis nth_mem set_takeWhileD takeWhile_nth)
    then have "ukey (hd (ess ! (?n - 1))) \<le> k" using tr(3) n(1) by (simp add: not_less)
    moreover have "ukey e \<le> ukey (last (ess ! j))" using sorted_run_bounds(2) [OF tr(2) that(2)] that(1) n by simp
    ultimately show ?thesis using nth(3) [OF that(1) n(1)] by auto
  qed
  have "?n \<le> length ess" using nth(1) length_takeWhile_le [of ?p rs] by simp
  with ub right left show ?thesis by blast
qed

text \<open>Only the file the binary search ends at can hold the key.\<close>

lemma level_candidate_only:
  assumes l: "level_run rs ess"
  shows "case level_candidate rs k of
      None \<Rightarrow> \<forall>j < length ess. \<forall>e\<in>set (ess ! j). ukey e \<noteq> k
    | Some r \<Rightarrow> \<exists>i < length ess. r = rs ! i \<and> (\<forall>j < length ess. j \<noteq> i \<longrightarrow> (\<forall>e\<in>set (ess ! j). ukey e \<noteq> k))"
proof -
  note tr = table_run_facts [OF level_run_nth(2) [OF l]]
  obtain n where ub: "upper_bound (\<lambda>k r. k < t_smallest_user_key (tr_table r)) rs k = n" and n: "n \<le> length ess"
    and right: "\<And>j e. n \<le> j \<Longrightarrow> j < length ess \<Longrightarrow> e \<in> set (ess ! j) \<Longrightarrow> ukey e \<noteq> k"
    and left: "\<And>j e. j < n - 1 \<Longrightarrow> e \<in> set (ess ! j) \<Longrightarrow> ukey e \<noteq> k"
    using level_split [OF l, of k] by blast
  have other: "ukey e \<noteq> k" if "j < length ess" "n = 0 \<or> j \<noteq> n - 1" "e \<in> set (ess ! j)" for j e
    using left [of j e] right [of j e] that by linarith
  show ?thesis
  proof (cases "n = 0 \<or> t_largest_user_key (tr_table (rs ! (n - 1))) < k")
    case True
    then have none: "level_candidate rs k = None" using ub by (auto simp: level_candidate_def Let_def)
    have "ukey e \<noteq> k" if "j < length ess" "e \<in> set (ess ! j)" for j e
    proof (cases "n = 0 \<or> j \<noteq> n - 1")
      case False
      then have "ukey e < k" using sorted_run_bounds(2) [OF tr(2) [OF that(1)] that(2)] tr(4) [OF that(1)] True by auto
      then show ?thesis by simp
    qed (use other that in blast)
    then show ?thesis unfolding none by simp
  next
    case False
    then have "level_candidate rs k = Some (rs ! (n - 1))" using ub by (auto simp: level_candidate_def Let_def)
    moreover have "n - 1 < length ess" using False n by linarith
    ultimately show ?thesis using other unfolding option.case by (simp only: option.case) blast
  qed
qed

subsection \<open>The traversal reads the first match\<close>

text \<open>
  The order in which \<^verbatim>\<open>LookupIn\<close> looks: the memtable, the immutable memtable, the files of L0,
  then the levels.
\<close>

definition lsm_run :: "MemTable \<Rightarrow> MemTable option \<Rightarrow> Version \<Rightarrow> entry list \<Rightarrow> entry list \<Rightarrow> entry list list \<Rightarrow> entry list list list \<Rightarrow> bool"
  where
  "lsm_run mt im v M I L0 LV \<longleftrightarrow> holds_run mt M
     \<and> (case im of None \<Rightarrow> I = [] | Some m \<Rightarrow> holds_run m I)
     \<and> list_all2 table_run (l0 v) L0 \<and> list_all2 level_run (levels v) LV"

definition lsm_entries :: "entry list \<Rightarrow> entry list \<Rightarrow> entry list list \<Rightarrow> entry list list list \<Rightarrow> entry list" where
  "lsm_entries M I L0 LV = M @ I @ concat L0 @ concat (concat LV)"

lemma lookup_spec_append:
  "lookup_spec (xs @ ys) k T = (case lookup_spec xs k T of Some e \<Rightarrow> Some e | None \<Rightarrow> lookup_spec ys k T)"
  by (induction xs) (auto simp: lookup_spec_def)

lemma lookup_of_missing [simp]: "lookup_of r = kMissing \<longleftrightarrow> r = None"
  by (auto simp: lookup_of_def split: option.splits)

lemma lookup_spec_absent: "\<forall>e\<in>set es. ukey e \<noteq> k \<Longrightarrow> lookup_spec es k T = None"
  by (auto simp: lookup_spec_None)

lemma lookup_l0_run:
  "list_all2 table_run rs ess \<Longrightarrow> lookup_l0 rs k mx = Some (lookup_of (lookup_spec (concat ess) k (target_tag mx)), Ok)"
proof (induction rs ess rule: list_all2_induct)
  case Nil
  then show ?case by (simp add: lookup_spec_def lookup_of_def)
next
  case (Cons r rs es ess)
  then show ?case using table_run_facts(5) [OF Cons.hyps(1), of k mx]
    by (cases "lookup_spec es k (target_tag mx)") (auto simp: searched_def lookup_spec_append lookup_of_def)
qed

lemma lookup_concat_only:
  assumes "i < length ess" and "\<forall>j < length ess. j \<noteq> i \<longrightarrow> (\<forall>e\<in>set (ess ! j). ukey e \<noteq> k)"
  shows "lookup_spec (concat ess) k T = lookup_spec (ess ! i) k T"
  using assms
proof (induction ess arbitrary: i)
  case (Cons es ess)
  show ?case
  proof (cases i)
    case 0
    then have "\<forall>e\<in>set (concat ess). ukey e \<noteq> k" using Cons.prems(2) by (force simp: in_set_conv_nth)
    then show ?thesis using 0 lookup_spec_absent by (simp add: lookup_spec_append split: option.splits)
  next
    case (Suc i')
    then have "lookup_spec es k T = None" using Cons.prems(2) by (intro lookup_spec_absent) force
    moreover have "lookup_spec (concat ess) k T = lookup_spec (ess ! i') k T"
      by (rule Cons.IH) (use Cons.prems Suc in force)+
    ultimately show ?thesis using Suc by (simp add: lookup_spec_append)
  qed
qed simp

lemma lookup_level_run:
  assumes "level_run rs ess"
  shows "case level_candidate rs k of
      None \<Rightarrow> lookup_spec (concat ess) k (target_tag mx) = None
    | Some r \<Rightarrow> Table_Get (tr_table r) k mx = Some (lookup_of (lookup_spec (concat ess) k (target_tag mx)), Ok)"
proof (cases "level_candidate rs k")
  case None
  then have "\<forall>e\<in>set (concat ess). ukey e \<noteq> k" using level_candidate_only [OF assms, of k] by (force simp: in_set_conv_nth [of _ ess])
  then show ?thesis using None by (simp add: lookup_spec_absent)
next
  case (Some r)
  then obtain i where i: "i < length ess" "r = rs ! i" "\<forall>j < length ess. j \<noteq> i \<longrightarrow> (\<forall>e\<in>set (ess ! j). ukey e \<noteq> k)"
    using level_candidate_only [OF assms, of k] by auto
  then show ?thesis using Some table_run_facts(5) [OF level_run_nth(2) [OF assms i(1)]] lookup_concat_only [OF i(1,3)] by simp
qed

lemma lookup_levels_run:
  "list_all2 level_run rss LV \<Longrightarrow> lookup_levels rss k mx = Some (lookup_of (lookup_spec (concat (concat LV)) k (target_tag mx)), Ok)"
proof (induction rss LV rule: list_all2_induct)
  case Nil
  then show ?case by (simp add: lookup_spec_def lookup_of_def)
next
  case (Cons rs rss ess LV)
  note l = lookup_level_run [OF Cons.hyps(1), of k mx]
  show ?case
  proof (cases "level_candidate rs k")
    case None
    then show ?thesis using Cons.IH l by (simp add: lookup_spec_append)
  next
    case (Some r)
    then show ?thesis using Cons.IH l
      by (cases "lookup_spec (concat ess) k (target_tag mx)") (auto simp: searched_def lookup_spec_append lookup_of_def)
  qed
qed

lemma LookupIn_run:
  assumes "lsm_run mt im v M I L0 LV" and k: "short_key k"
  shows "LookupIn mt im v k mx = Some (lookup_of (lookup_spec (lsm_entries M I L0 LV) k (target_tag mx)), Ok)"
proof -
  let ?T = "target_tag mx"
  have m: "MemTable_Get mt k mx = Some (lookup_of (lookup_spec M k ?T))"
    using assms MemTable_Get_run by (simp add: lsm_run_def)
  have i: "(case im of None \<Rightarrow> Some kMissing | Some m \<Rightarrow> MemTable_Get m k mx) = Some (lookup_of (lookup_spec I k ?T))"
    using assms(1) MemTable_Get_run [OF _ k] by (auto simp: lsm_run_def lookup_spec_def lookup_of_def split: option.splits)
  have "lookup_l0 (l0 v) k mx = Some (lookup_of (lookup_spec (concat L0) k ?T), Ok)"
    "lookup_levels (levels v) k mx = Some (lookup_of (lookup_spec (concat (concat LV)) k ?T), Ok)"
    using assms(1) lookup_l0_run lookup_levels_run by (simp_all add: lsm_run_def)
  then show ?thesis using m i unfolding LookupIn_def lsm_entries_def lookup_spec_append
    by (cases "lookup_spec M k ?T"; cases "lookup_spec I k ?T"; cases "lookup_spec (concat L0) k ?T")
       (simp_all add: searched_def lookup_of_def)
qed

end
