(* ===== verification/DbCompact.thy ===== *)
theory DbCompact
  imports DbRead
begin

text \<open>
  Flushing and compaction (\<^verbatim>\<open>src/db.cpp\<close>): the rewrite of the MANIFEST from the current
  version, the flush of the immutable memtable into L0, when and what to compact, and the merge
  with its retention rule. The part of a flush or a compaction that runs without the mutex
  (building the files) and its installation under the mutex are separate definitions, so that
  writes can come in between.
\<close>

definition DefaultTableOptions :: TableOptions where
  "DefaultTableOptions = \<lparr>block_size = 4096, opt_restart_interval = 16, bloom_bits_per_key = 10\<rparr>"

definition version_files :: "Version \<Rightarrow> TableRef list" where
  "version_files v = l0 v @ concat (levels v)"

definition WriteManifest :: "DB \<Rightarrow> Status \<times> DB" where
  "WriteManifest db =
     (case publish_manifest (db_dir db) (map tr_meta (version_files (version db))) (map fst (vlogs db)) (log_number db) (world db) of
        (s, w) \<Rightarrow> (s, db\<lparr>world := w\<rparr>))"

subsection \<open>Flush\<close>

text \<open>Finish a table, write it and open it again; \<open>what\<close> is the text of the failed self-check.\<close>

definition seal_table :: "string \<Rightarrow> u64 \<Rightarrow> u32 \<Rightarrow> Builder \<Rightarrow> DB \<Rightarrow> (Status + TableRef) \<times> DB" where
  "seal_table what number lvl b db =
     (case Builder_Finish (SstPath number db) (NewFileMeta\<lparr>file_number := number, flevel := lvl\<rparr>) b (world db) of
        (s, meta, _, w1) \<Rightarrow>
          if \<not> ok s then (Inl s, db\<lparr>world := w1\<rparr>)
          else case Table_Open number (SstPath number db) w1 of
                 (Inl _, w2) \<Rightarrow> (Inl (Corruption (str what @ SstFileName number)), db\<lparr>world := w2\<rparr>)
               | (Inr t, w2) \<Rightarrow> (Inr \<lparr>tr_table = t, tr_meta = meta\<rparr>, db\<lparr>world := w2\<rparr>))"

definition item_of_args :: "u64 \<times> u8 \<times> bytes \<times> bytes \<Rightarrow> item" where
  "item_of_args = (\<lambda>(seq, t, k, v). (k, seq, t, v))"

definition FlushBuild :: "MemTable \<Rightarrow> u64 \<Rightarrow> DB \<Rightarrow> ((Status + TableRef) \<times> DB) option" where
  "FlushBuild im sst_number db = (case ForEach im of
      None \<Rightarrow> None
    | Some args \<Rightarrow>
        (case (case Builder_Add_all (map item_of_args args) (NewBuilder DefaultTableOptions) of
                 (s, b) \<Rightarrow> if \<not> ok s then (Inl s, db)
                           else seal_table ''flush self-check failed for '' sst_number 0 b db) of
           (Inl s, db1) \<Rightarrow> Some (Inl s, db1\<lparr>world := unlink (SstPath sst_number db1) (world db1)\<rparr>)
         | (Inr r, db1) \<Rightarrow>
             Some (Inr r, db1\<lparr>stats_sst_bytes := stats_sst_bytes db1 + file_size (tr_meta r), stats_flushes := stats_flushes db1 + 1\<rparr>)))"

definition FlushInstall :: "TableRef \<Rightarrow> u64 \<Rightarrow> DB \<Rightarrow> Status \<times> DB" where
  "FlushInstall r retired_log db =
     (case WriteManifest (db\<lparr>version := (version db)\<lparr>l0 := r # l0 (version db)\<rparr>\<rparr>) of
        (s, db1) \<Rightarrow> if \<not> ok s then (s, db1) else (Ok, db1\<lparr>world := unlink (LogPath retired_log db1) (world db1)\<rparr>))"

definition FlushImmMemTable :: "MemTable \<Rightarrow> u64 \<Rightarrow> u64 \<Rightarrow> DB \<Rightarrow> (Status \<times> DB) option" where
  "FlushImmMemTable im retired_log sst_number db = (case FlushBuild im sst_number db of
      None \<Rightarrow> None
    | Some (Inl s, db1) \<Rightarrow> Some (s, db1)
    | Some (Inr r, db1) \<Rightarrow> Some (FlushInstall r retired_log db1))"

subsection \<open>What to compact\<close>

definition LevelSize :: "nat \<Rightarrow> DB \<Rightarrow> u64" where
  "LevelSize i db = sum_list (map (\<lambda>r. file_size (tr_meta r)) (levels (version db) ! i))"

text \<open>The limit of level \<open>i\<close>; the product wraps like the loop that computes it.\<close>

definition level_limit :: "nat \<Rightarrow> DB \<Rightarrow> u64" where
  "level_limit i db = ((*) 10 ^^ i) (level_base_size (db_options db))"

definition level_full :: "DB \<Rightarrow> nat \<Rightarrow> bool" where
  "level_full db i \<longleftrightarrow> LevelSize i db > level_limit i db"

definition CompactionNeeded :: "DB \<Rightarrow> bool" where
  "CompactionNeeded db \<longleftrightarrow> \<not> compaction_disabled db \<and>
     (length (l0 (version db)) \<ge> l0_compaction_trigger (db_options db)
      \<or> (\<exists>i\<in>set [0..<length (levels (version db)) - 1]. level_full db i))"

definition pick_source :: "DB \<Rightarrow> TableRef list \<times> nat option \<times> nat" where
  "pick_source db =
     (if length (l0 (version db)) \<ge> l0_compaction_trigger (db_options db) then (l0 (version db), None, 0)
      else case find (level_full db) [0..<length (levels (version db)) - 1] of
             Some i \<Rightarrow> ([hd (levels (version db) ! i)], Some i, i + 1)
           | None \<Rightarrow> ([], Some 0, 0))"

fun key_range :: "TableRef list \<Rightarrow> (bytes \<times> bytes) option \<Rightarrow> (bytes \<times> bytes) option" where
  "key_range [] acc = acc"
| "key_range (r # rs) acc =
     key_range rs (case acc of
         None \<Rightarrow> Some (t_smallest_user_key (tr_table r), t_largest_user_key (tr_table r))
       | Some (lo, hi) \<Rightarrow> Some (min lo (t_smallest_user_key (tr_table r)), max hi (t_largest_user_key (tr_table r))))"

text \<open>One pass over the target level, then the passes until none adds a file.\<close>

record Picked =
  picked :: "u64 list"
  inputs_b :: "TableRef list"
  lo :: bytes
  hi :: bytes

fun pick_pass :: "TableRef list \<Rightarrow> Picked \<Rightarrow> bool \<Rightarrow> Picked \<times> bool" where
  "pick_pass [] p changed = (p, changed)"
| "pick_pass (r # rs) p changed =
     (if file_number (tr_meta r) \<in> set (picked p) then pick_pass rs p changed
      else if t_largest_user_key (tr_table r) \<ge> lo p \<and> t_smallest_user_key (tr_table r) \<le> hi p
      then pick_pass rs \<lparr>picked = file_number (tr_meta r) # picked p, inputs_b = inputs_b p @ [r],
                         lo = min (lo p) (t_smallest_user_key (tr_table r)), hi = max (hi p) (t_largest_user_key (tr_table r))\<rparr> True
      else pick_pass rs p changed)"

definition unpicked :: "TableRef list \<Rightarrow> Picked \<Rightarrow> nat" where
  "unpicked rs p = length (filter (\<lambda>r. file_number (tr_meta r) \<notin> set (picked p)) rs)"

lemma pick_pass_grows:
  "pick_pass rs p c = (p', c') \<Longrightarrow> set (picked p) \<subseteq> set (picked p') \<and>
     (c' \<and> \<not> c \<longrightarrow> (\<exists>r\<in>set rs. file_number (tr_meta r) \<in> set (picked p') - set (picked p)))"
proof (induction rs p c rule: pick_pass.induct)
  case (2 r rs p c)
  show ?case
  proof (cases "file_number (tr_meta r) \<in> set (picked p)")
    case True
    then show ?thesis using 2(1) 2(4) by auto
  next
    case f: False
    show ?thesis
    proof (cases "t_largest_user_key (tr_table r) \<ge> lo p \<and> t_smallest_user_key (tr_table r) \<le> hi p")
      case True
      then show ?thesis using 2(2) [OF f True] 2(4) f by auto
    next
      case False
      then show ?thesis using 2(3) [OF f False] 2(4) f by auto
    qed
  qed
qed simp

lemma unpicked_less:
  assumes "set (picked p) \<subseteq> set (picked p')" and "r \<in> set rs" and "file_number (tr_meta r) \<in> set (picked p') - set (picked p)"
  shows "unpicked rs p' < unpicked rs p"
proof -
  let ?P = "\<lambda>p r. file_number (tr_meta r) \<notin> set (picked p)"
  have "filter (?P p') rs = filter (?P p') (filter (?P p) rs)" using assms(1) by (auto intro: filter_cong)
  moreover have "length (filter (?P p') (filter (?P p) rs)) < length (filter (?P p) rs)"
    by (rule length_filter_less [of r]) (use assms in auto)
  ultimately show ?thesis by (simp only: unpicked_def)
qed

function pick_loop :: "TableRef list \<Rightarrow> Picked \<Rightarrow> Picked" where
  "pick_loop rs p = (case pick_pass rs p False of (p', changed) \<Rightarrow> if changed then pick_loop rs p' else p')"
  by pat_completeness auto
termination
proof (relation "measure (\<lambda>(rs, p). unpicked rs p)", goal_cases)
  case (2 rs p p' c)
  then have "pick_pass rs p False = (p', True)" by simp
  from pick_pass_grows [OF this] obtain r where
    "set (picked p) \<subseteq> set (picked p')" "r \<in> set rs" "file_number (tr_meta r) \<in> set (picked p') - set (picked p)" by blast
  from unpicked_less [OF this] show ?case by simp
qed simp

declare pick_loop.simps [simp del]

definition PickCompaction :: "DB \<Rightarrow> TableRef list \<times> TableRef list \<times> nat option \<times> nat" where
  "PickCompaction db =
     (case pick_source db of (inputs_a, src, out_ix) \<Rightarrow>
        (case (case key_range inputs_a None of None \<Rightarrow> ([], []) | Some r \<Rightarrow> r) of
           (lo0, hi0) \<Rightarrow>
             (inputs_a, inputs_b (pick_loop (levels (version db) ! out_ix) \<lparr>picked = [], inputs_b = [], lo = lo0, hi = hi0\<rparr>), src, out_ix)))"

subsection \<open>The merge\<close>

record Compaction =
  cm_db :: DB
  cm_builder :: Builder
  builder_used :: bool
  outputs :: "TableRef list"
  cm_status :: Status
  current_user :: "bytes option"
  floor_version_seen :: bool

definition seal :: "nat \<Rightarrow> Compaction \<Rightarrow> Compaction" where
  "seal out_ix c =
     (if \<not> builder_used c \<or> \<not> ok (cm_status c) then c
      else
        let number = next_file_number (cm_db c)
        in case seal_table ''compaction self-check failed for '' number (of_nat out_ix + 1) (cm_builder c)
                  ((cm_db c)\<lparr>next_file_number := number + 1\<rparr>) of
             (Inl s, db) \<Rightarrow> c\<lparr>cm_db := db, cm_status := s\<rparr>
           | (Inr r, db) \<Rightarrow>
               c\<lparr>cm_db := db\<lparr>stats_sst_bytes := stats_sst_bytes db + file_size (tr_meta r)\<rparr>, outputs := outputs c @ [r],
                  cm_builder := NewBuilder DefaultTableOptions, builder_used := False\<rparr>)"

text \<open>A new user key: the output may be cut before it.\<close>

definition enter_user :: "nat \<Rightarrow> bytes \<Rightarrow> Compaction \<Rightarrow> Compaction" where
  "enter_user out_ix user c =
     (if current_user c = Some user then c
      else
        let c1 = (if current_user c \<noteq> None \<and> builder_used c
                     \<and> ApproximateFileSize (cm_builder c) \<ge> max_sst_size (db_options (cm_db c))
                  then seal out_ix c else c)
        in if \<not> ok (cm_status c1) then c1 else c1\<lparr>current_user := Some user, floor_version_seen := False\<rparr>)"

text \<open>Whether a version is kept, and whether the newest one at or below the floor has been passed.\<close>

definition retain :: "u64 \<Rightarrow> bool \<Rightarrow> u64 \<Rightarrow> bool \<Rightarrow> bool \<times> bool" where
  "retain snapshot_floor bottom tag seen =
     (if tag_seq tag > snapshot_floor then (True, seen)
      else if \<not> seen then (\<not> (ucast (tag_type tag) = kTypeDeletion \<and> bottom), True)
      else (False, seen))"

definition compact_entry :: "u64 \<Rightarrow> bool \<Rightarrow> bytes \<Rightarrow> bytes \<Rightarrow> Compaction \<Rightarrow> Compaction" where
  "compact_entry snapshot_floor bottom ik v c =
     (let tag = ExtractTag ik; (keep, seen) = retain snapshot_floor bottom tag (floor_version_seen c); c1 = c\<lparr>floor_version_seen := seen\<rparr>
      in if keep then
           (case Builder_Add (ExtractUserKey ik) (tag_seq tag) (ucast (tag_type tag)) v (cm_builder c1) of
              (s, b) \<Rightarrow> c1\<lparr>cm_status := s, cm_builder := b, builder_used := True\<rparr>)
         else c1)"

partial_function (option) compact_loop :: "u64 \<Rightarrow> bool \<Rightarrow> nat \<Rightarrow> MergingIterator \<Rightarrow> Compaction \<Rightarrow> Compaction option" where
  [code]: "compact_loop snapshot_floor bottom out_ix it c =
     (if \<not> mg_Valid it \<or> \<not> ok (cm_status c) then Some c
      else
        let c1 = enter_user out_ix (ExtractUserKey (mg_key it)) c
        in if \<not> ok (cm_status c1) then Some c1
           else Option.bind (mg_Next it)
                  (\<lambda>it'. compact_loop snapshot_floor bottom out_ix it' (compact_entry snapshot_floor bottom (mg_key it) (mg_value it) c1)))"

definition unlink_tables :: "TableRef list \<Rightarrow> DB \<Rightarrow> DB" where
  "unlink_tables rs db = db\<lparr>world := fold (\<lambda>r. unlink (SstPath (file_number (tr_meta r)) db)) rs (world db)\<rparr>"

definition CompactBuild :: "TableRef list \<Rightarrow> TableRef list \<Rightarrow> nat \<Rightarrow> DB \<Rightarrow> ((Status + TableRef list) \<times> DB) option" where
  "CompactBuild as bs out_ix db =
     Option.bind (mg_SeekToFirst (NewMergingIterator (map (\<lambda>r. TableChild (NewTableIterator (tr_table r))) (as @ bs))))
       (\<lambda>it. Option.bind
          (compact_loop (SmallestSnapshotSeq db) (out_ix + 1 = kMaxLevels - 1) out_ix it
             \<lparr>cm_db = db, cm_builder = NewBuilder DefaultTableOptions, builder_used = False, outputs = [], cm_status = Ok,
              current_user = None, floor_version_seen = False\<rparr>)
          (\<lambda>c. let c1 = (if ok (cm_status c) then seal out_ix c else c)
               in Some (if \<not> ok (cm_status c1) then (Inl (cm_status c1), unlink_tables (outputs c1) (cm_db c1))
                        else (Inr (outputs c1), cm_db c1))))"

subsection \<open>Installation\<close>

definition remove_numbers :: "TableRef list \<Rightarrow> TableRef list \<Rightarrow> TableRef list" where
  "remove_numbers rs removed = filter (\<lambda>r. file_number (tr_meta r) \<notin> file_number ` tr_meta ` set removed) rs"

definition compacted_version :: "TableRef list \<Rightarrow> TableRef list \<Rightarrow> nat option \<Rightarrow> nat \<Rightarrow> TableRef list \<Rightarrow> Version \<Rightarrow> Version" where
  "compacted_version as bs src out_ix outs v =
     (let v1 = (case src of
                  None \<Rightarrow> v\<lparr>l0 := remove_numbers (l0 v) as\<rparr>
                | Some i \<Rightarrow> v\<lparr>levels := (levels v)[i := remove_numbers (levels v ! i) as]\<rparr>)
      in v1\<lparr>levels := (levels v1)[out_ix :=
           sort_key (\<lambda>r. t_smallest_user_key (tr_table r)) (remove_numbers (levels v1 ! out_ix) bs @ outs)]\<rparr>)"

definition CompactInstall :: "TableRef list \<Rightarrow> TableRef list \<Rightarrow> nat option \<Rightarrow> nat \<Rightarrow> TableRef list \<Rightarrow> DB \<Rightarrow> Status \<times> DB" where
  "CompactInstall as bs src out_ix outs db =
     (case WriteManifest (db\<lparr>version := compacted_version as bs src out_ix outs (version db)\<rparr>) of
        (s, db1) \<Rightarrow>
          if \<not> ok s then (s, db1)
          else (Ok, unlink_tables (as @ bs) (db1\<lparr>stats_compactions := stats_compactions db1 + 1\<rparr>)))"

definition RunCompaction :: "TableRef list \<Rightarrow> TableRef list \<Rightarrow> nat option \<Rightarrow> nat \<Rightarrow> DB \<Rightarrow> (Status \<times> DB) option" where
  "RunCompaction as bs src out_ix db = (case CompactBuild as bs out_ix db of
      None \<Rightarrow> None
    | Some (Inl s, db1) \<Rightarrow> Some (s, db1)
    | Some (Inr outs, db1) \<Rightarrow> Some (CompactInstall as bs src out_ix outs db1))"

end
