(* ===== verification/Versions.thy ===== *)
theory Versions
  imports SSTableCorrect
begin

text \<open>
  Versions of keys as lists of entries: a list that has the newer versions of each key first
  is read by taking the first match, its answers depend only on the set of its entries, and
  the retention rule of compaction keeps the answer of every read at or above its floor.
\<close>

subsection \<open>Newer versions first\<close>

definition newer :: "entry \<Rightarrow> entry \<Rightarrow> bool" where
  "newer x y \<longleftrightarrow> (ukey x = ukey y \<longrightarrow> etag y < etag x)"

definition newest_first :: "entry list \<Rightarrow> bool" where
  "newest_first es \<longleftrightarrow> sorted_wrt newer es"

lemma sorted_run_newest_first: "sorted_run es \<Longrightarrow> newest_first es"
  using sorted_wrt_mono_rel [of es "\<lambda>a b. key_lt (ikey a) (ikey b)" newer]
  unfolding sorted_run_def newest_first_def by (simp add: newer_def key_lt_def) force

lemma newest_first_append:
  "newest_first (xs @ ys) \<longleftrightarrow> newest_first xs \<and> newest_first ys \<and> (\<forall>x\<in>set xs. \<forall>y\<in>set ys. newer x y)"
  by (simp add: newest_first_def sorted_wrt_append)

lemma newest_first_replace:
  assumes "newest_first (P @ X @ Q)" and "set X' \<subseteq> set X" and "newest_first X'"
  shows "newest_first (P @ X' @ Q)"
proof -
  have X: "newest_first P" "newest_first Q" "\<And>x y. x \<in> set P \<Longrightarrow> y \<in> set X \<union> set Q \<Longrightarrow> newer x y"
    "\<And>x y. x \<in> set X \<Longrightarrow> y \<in> set Q \<Longrightarrow> newer x y"
    using assms(1) by (auto simp: newest_first_append)
  show ?thesis unfolding newest_first_append set_append using X assms(2,3) by blast
qed

lemma newest_first_distinct: "newest_first es \<Longrightarrow> distinct es"
  unfolding newest_first_def by (induction es) (auto simp: newer_def)

lemma newest_first_tags:
  assumes "newest_first es" and "x \<in> set es" and "y \<in> set es" and "ukey x = ukey y" and "etag x = etag y"
  shows "x = y"
  using assms unfolding newest_first_def by (induction es) (auto simp: newer_def)

lemma lookup_newest:
  assumes "newest_first es"
  shows "lookup_spec es k T = Some e \<longleftrightarrow>
     e \<in> set es \<and> ukey e = k \<and> etag e \<le> T \<and> (\<forall>x\<in>set es. ukey x = k \<and> etag x \<le> T \<longrightarrow> etag x \<le> etag e)"
  using assms
proof (induction es)
  case (Cons a es)
  then have es: "newest_first es" and n: "\<And>x. x \<in> set es \<Longrightarrow> newer a x" by (auto simp: newest_first_def)
  show ?case
  proof (cases "ukey a = k \<and> etag a \<le> T")
    case True
    then have "lookup_spec (a # es) k T = Some a" by (simp add: lookup_spec_def)
    then have eq: "lookup_spec (a # es) k T = Some e \<longleftrightarrow> e = a" by auto
    have lt: "etag x < etag a" if "x \<in> set es" "ukey x = k" for x using n [OF that(1)] that True by (simp add: newer_def)
    then have below: "\<forall>x\<in>set (a # es). ukey x = k \<longrightarrow> etag x \<le> etag a" using True by (simp add: less_imp_le)
    show ?thesis unfolding eq
    proof
      assume "e = a"
      then show "e \<in> set (a # es) \<and> ukey e = k \<and> etag e \<le> T \<and> (\<forall>x\<in>set (a # es). ukey x = k \<and> etag x \<le> T \<longrightarrow> etag x \<le> etag e)"
        using True below by simp
    next
      assume r: "e \<in> set (a # es) \<and> ukey e = k \<and> etag e \<le> T \<and> (\<forall>x\<in>set (a # es). ukey x = k \<and> etag x \<le> T \<longrightarrow> etag x \<le> etag e)"
      then have "etag a \<le> etag e" using True by simp
      then show "e = a" using r lt [of e] by (auto simp: not_less)
    qed
  next
    case False
    then have "lookup_spec (a # es) k T = lookup_spec es k T" by (auto simp: lookup_spec_def)
    then have "lookup_spec (a # es) k T = Some e \<longleftrightarrow>
        e \<in> set es \<and> ukey e = k \<and> etag e \<le> T \<and> (\<forall>x\<in>set es. ukey x = k \<and> etag x \<le> T \<longrightarrow> etag x \<le> etag e)"
      using Cons.IH [OF es] by simp
    then show ?thesis using False by auto
  qed
qed (simp add: lookup_spec_def)

text \<open>The answer for a key depends only on the set of its versions.\<close>

lemma lookup_cong:
  assumes "newest_first xs" and "newest_first ys" and eq: "\<And>e. ukey e = k \<Longrightarrow> e \<in> set xs \<longleftrightarrow> e \<in> set ys"
  shows "lookup_spec xs k T = lookup_spec ys k T"
proof -
  have h: "lookup_spec xs k T = Some e \<longleftrightarrow> lookup_spec ys k T = Some e" for e
    unfolding lookup_newest [OF assms(1)] lookup_newest [OF assms(2)] using eq by blast
  show ?thesis
  proof (cases "lookup_spec xs k T")
    case None
    then show ?thesis using h [of "the (lookup_spec ys k T)"] by (cases "lookup_spec ys k T") simp_all
  next
    case (Some e)
    then show ?thesis using h [of e] by simp
  qed
qed

lemma lookup_filter: "lookup_spec es k T = find (\<lambda>e. etag e \<le> T) (filter (\<lambda>e. ukey e = k) es)"
  by (induction es) (auto simp: lookup_spec_def)

subsection \<open>Tags\<close>

lemma make_tag_parts: "make_tag (tag_seq t) (ucast (tag_type t)) = t"
proof (rule bit_word_eqI)
  fix n assume "n < LENGTH(64)"
  then show "bit (make_tag (tag_seq t) (ucast (tag_type t))) n = bit t n"
    by (cases "n < 8") (auto simp: make_tag_def tag_seq_def tag_type_def mask8 bit_simps not_less dest: bit_imp_le_length)
qed

lemma tag_seq_less: "tag_seq t < 2 ^ 56"
proof -
  have "unat (tag_seq t) = unat t div 256" by (simp add: tag_seq_def drop_bit_eq_div unat_div)
  moreover have "unat t < 2 ^ 56 * 256" using unsigned_less [of t, where 'a = nat] by simp
  ultimately have "unat (tag_seq t) < 2 ^ 56" using less_mult_imp_div_less by metis
  then show ?thesis by (simp add: word_less_nat_alt)
qed

lemma visible_iff: "readable_seq mx \<Longrightarrow> t \<le> target_tag mx \<longleftrightarrow> tag_seq t \<le> mx"
  using target_tag_le [OF tag_seq_less, of mx t "ucast (tag_type t)"] by (simp only: make_tag_parts)

lemma tag_seq_mono: "a \<le> b \<Longrightarrow> tag_seq a \<le> tag_seq b"
proof -
  assume "a \<le> b"
  moreover have "unat (tag_seq t) = unat t div 256" for t by (simp add: tag_seq_def drop_bit_eq_div unat_div)
  ultimately show ?thesis unfolding word_le_nat_alt by (simp add: div_le_mono)
qed

end
