(* ===== verification/CompactCorrect.thy ===== *)
theory CompactCorrect
  imports DbCompact Versions
begin

text \<open>
  The merge of a compaction: what it keeps of a run, that every read at or above the snapshot
  floor has the same answer afterwards, and that the loop returns with its output cut into
  tables at user-key boundaries.
\<close>

subsection \<open>Retention\<close>

definition seen_of :: "(bytes \<times> bool) option \<Rightarrow> bytes \<Rightarrow> bool" where
  "seen_of st k = (case st of None \<Rightarrow> False | Some (u, b) \<Rightarrow> u = k \<and> b)"

text \<open>What the loop keeps of a run, from the user key it is at.\<close>

fun retained :: "u64 \<Rightarrow> bool \<Rightarrow> (bytes \<times> bool) option \<Rightarrow> entry list \<Rightarrow> entry list" where
  "retained F bt st [] = []"
| "retained F bt st (e # es) =
     (let (keep, seen) = retain F bt (etag e) (seen_of st (ukey e))
      in (if keep then [e] else []) @ retained F bt (Some (ukey e, seen)) es)"

fun retained1 :: "u64 \<Rightarrow> bool \<Rightarrow> bool \<Rightarrow> entry list \<Rightarrow> entry list" where
  "retained1 F bt seen [] = []"
| "retained1 F bt seen (e # es) =
     (let (keep, seen') = retain F bt (etag e) seen
      in (if keep then [e] else []) @ retained1 F bt seen' es)"

lemma retained_subset: "set (retained F bt st es) \<subseteq> set es"
proof (induction es arbitrary: st)
  case (Cons e es)
  obtain keep seen where "retain F bt (etag e) (seen_of st (ukey e)) = (keep, seen)" by (metis surj_pair)
  then show ?case using Cons.IH [of "Some (ukey e, seen)"] by (cases keep) auto
qed simp

lemma retained_sorted: "sorted_run es \<Longrightarrow> sorted_run (retained F bt st es)"
proof (induction es arbitrary: st)
  case (Cons e es)
  obtain keep seen where r: "retain F bt (etag e) (seen_of st (ukey e)) = (keep, seen)" by (metis surj_pair)
  have "sorted_run es" and lt: "\<forall>x\<in>set es. key_lt (ikey e) (ikey x)" using Cons.prems by (auto simp: sorted_run_def)
  then have "sorted_run (retained F bt (Some (ukey e, seen)) es)" by (intro Cons.IH)
  moreover have "\<forall>x\<in>set (retained F bt (Some (ukey e, seen)) es). key_lt (ikey e) (ikey x)"
    using lt retained_subset [of F bt "Some (ukey e, seen)" es] by blast
  ultimately show ?case using r by (cases keep) (simp_all add: sorted_run_def)
qed (simp add: sorted_run_def)

text \<open>The versions of a key stand together, so the loop treats them as if alone.\<close>

lemma retained_key:
  assumes "sorted_run es" and "\<And>u b e. st = Some (u, b) \<Longrightarrow> e \<in> set es \<Longrightarrow> u \<le> ukey e"
  shows "filter (\<lambda>e. ukey e = k) (retained F bt st es) = retained1 F bt (seen_of st k) (filter (\<lambda>e. ukey e = k) es)"
  using assms
proof (induction F bt st es rule: retained.induct)
  case (2 F bt st e es)
  obtain keep seen where r: "retain F bt (etag e) (seen_of st (ukey e)) = (keep, seen)" by (metis surj_pair)
  have es: "sorted_run es" and le: "\<And>x. x \<in> set es \<Longrightarrow> ukey e \<le> ukey x"
    using "2.prems"(1) by (auto simp: sorted_run_def key_lt_def)
  have IH: "filter (\<lambda>e. ukey e = k) (retained F bt (Some (ukey e, seen)) es) =
      retained1 F bt (seen_of (Some (ukey e, seen)) k) (filter (\<lambda>e. ukey e = k) es)"
    by (rule "2.IH" [OF r [symmetric] refl es]) (use le in auto)
  show ?case
  proof (cases "ukey e = k")
    case True
    then show ?thesis using IH r by (simp add: seen_of_def)
  next
    case False
    have "filter (\<lambda>e. ukey e = k) es = []" if s: "seen_of st k"
    proof -
      obtain b where "st = Some (k, b)" using s by (cases st) (auto simp: seen_of_def)
      then have "k < ukey e" using "2.prems"(2) [of k b e] False by force
      then show ?thesis using le by (fastforce simp: filter_empty_conv)
    qed
    then show ?thesis using IH r False by (cases "seen_of st k") (simp_all add: seen_of_def)
  qed
qed simp

definition keeps_answer :: "bool \<Rightarrow> entry option \<Rightarrow> entry option \<Rightarrow> bool" where
  "keeps_answer bt new old \<longleftrightarrow> new = old \<or> (bt \<and> new = None \<and> (\<exists>e. old = Some e \<and> tag_type (etag e) = ucast kTypeDeletion))"

lemma retained1_seen:
  "\<forall>e\<in>set es. tag_seq (etag e) \<le> F \<Longrightarrow> retained1 F bt True es = []"
  by (induction es) (auto simp: retain_def)

lemma retained1_find:
  assumes "sorted_wrt (\<lambda>x y. etag y < etag x) es" and "F \<le> mx"
  shows "keeps_answer bt (find (\<lambda>e. tag_seq (etag e) \<le> mx) (retained1 F bt False es)) (find (\<lambda>e. tag_seq (etag e) \<le> mx) es)"
  using assms(1)
proof (induction es)
  case (Cons e es)
  show ?case
  proof (cases "tag_seq (etag e) > F")
    case True
    then show ?thesis using Cons by (simp add: retain_def keeps_answer_def)
  next
    case False
    then have vis: "tag_seq (etag e) \<le> mx" using assms(2) by simp
    have "tag_seq (etag x) \<le> F" if "x \<in> set es" for x
      using Cons.prems that False tag_seq_mono [of "etag x" "etag e"] by (force simp: not_less)
    then have none: "retained1 F bt True es = []" by (intro retained1_seen) blast
    have type: "ucast (tag_type t) = kTypeDeletion \<Longrightarrow> tag_type t = ucast kTypeDeletion" for t
      using make_tag_parts [of t] tag_type_make [of "tag_seq t" "ucast (tag_type t)"] by simp
    show ?thesis using False vis none type by (auto simp: retain_def keeps_answer_def)
  qed
qed (simp add: keeps_answer_def)

text \<open>Every read at or above the floor is answered as before.\<close>

lemma retained_lookup:
  assumes "sorted_run es" and "readable_seq mx" and "F \<le> mx"
  shows "keeps_answer bt (lookup_spec (retained F bt None es) k (target_tag mx)) (lookup_spec es k (target_tag mx))"
proof -
  have "sorted_wrt (\<lambda>x y. etag y < etag x) (filter (\<lambda>e. ukey e = k) es)"
    using sorted_run_newest_first [OF assms(1)] unfolding newest_first_def
    by (induction es) (auto simp: newer_def)
  from retained1_find [OF this assms(3)] show ?thesis
    unfolding lookup_filter visible_iff [OF assms(2)] retained_key [OF assms(1), of None, simplified]
    by (simp add: seen_of_def)
qed

subsection \<open>Sealing a table\<close>

text \<open>Files below 4 GiB: offsets and sizes in the index are exact.\<close>

definition small_table :: "TableRef \<Rightarrow> bool" where
  "small_table r \<longleftrightarrow> length (file_data (tr_table r)) < 2 ^ 32"

lemma parse_table_data: "parse_table n d = Inr t \<Longrightarrow> file_data t = d"
  by (auto simp: parse_table_def Let_def split: if_splits sum.splits prod.splits)

lemma Table_Open_content:
  assumes "Table_Open n p w = (Inr t, w')" and "content w p = Some d"
  shows "parse_table n d = Inr t"
proof -
  obtain s x w1 where r: "ReadFileToString p w = (s, x, w1)" by (metis prod_cases3)
  with assms ReadFileToString_ok [OF r] show ?thesis by (auto simp: Table_Open_def split: if_splits sum.splits)
qed

lemma seal_table_run:
  assumes "seal_table what n lvl b db = (Inr r, db')" and "bld_ok b DefaultTableOptions bs cur"
    and "sorted_run (concat bs @ cur)" and "concat bs @ cur \<noteq> []" and "small_table r"
  shows "table_run r (concat bs @ cur)"
proof -
  obtain s meta b' w1 where f: "Builder_Finish (SstPath n db) (NewFileMeta\<lparr>file_number := n, flevel := lvl\<rparr>) b (world db) = (s, meta, b', w1)"
    by (metis prod_cases4)
  obtain x w2 where o: "Table_Open n (SstPath n db) w1 = (x, w2)" by (metis surj_pair)
  have s: "ok s" and x: "x = Inr (tr_table r)" using assms(1) f o by (auto simp: seal_table_def split: if_splits sum.splits)
  have "WriteFileDurable (SstPath n db) (sfile (Finish_image b)) (world db) = (s, w1)"
    using f by (auto simp: Builder_Finish_def Let_def split: prod.splits)
  then have p: "parse_table n (sfile (Finish_image b)) = Inr (tr_table r)"
    using WriteFileDurable_content Table_Open_content o s x by blast
  then have "length (sfile (Finish_image b)) < 2 ^ 32" using assms(5) parse_table_data by (simp add: small_table_def)
  from bld_table [OF assms(2-4) this] p show ?thesis unfolding table_run_def by (metis sum.inject(2))
qed

text \<open>What a flush or a compaction may change of the database while it builds its files.\<close>

definition only_built :: "DB \<Rightarrow> DB \<Rightarrow> bool" where
  "only_built db db' \<longleftrightarrow> db' = db\<lparr>world := world db', next_file_number := next_file_number db',
     stats_sst_bytes := stats_sst_bytes db', stats_flushes := stats_flushes db'\<rparr>"

lemma only_built_refl [simp]: "only_built db db"
  by (simp add: only_built_def)

lemma only_built_trans: "only_built a b \<Longrightarrow> only_built b c \<Longrightarrow> only_built a c"
  by (cases a, cases b, cases c) (simp add: only_built_def)

lemma seal_table_built:
  assumes "seal_table what n lvl b db = (x, db')"
  shows "only_built db db' \<and> next_file_number db' = next_file_number db"
    "x = Inr r \<Longrightarrow> file_number (tr_meta r) = n \<and> flevel (tr_meta r) = lvl"
    "x = Inl s \<Longrightarrow> \<not> ok s"
  using assms by (auto simp: seal_table_def only_built_def Builder_Finish_def fill_meta_def Let_def split: prod.splits if_splits sum.splits)

subsection \<open>The loop\<close>

fun ret_state :: "u64 \<Rightarrow> bool \<Rightarrow> (bytes \<times> bool) option \<Rightarrow> entry list \<Rightarrow> (bytes \<times> bool) option" where
  "ret_state F bt st [] = st"
| "ret_state F bt st (e # es) = ret_state F bt (Some (ukey e, snd (retain F bt (etag e) (seen_of st (ukey e))))) es"

lemma retained_append: "retained F bt st (xs @ ys) = retained F bt st xs @ retained F bt (ret_state F bt st xs) ys"
  by (induction xs arbitrary: st) (simp_all add: split_beta Let_def)

lemma ret_state_append: "ret_state F bt st (xs @ ys) = ret_state F bt (ret_state F bt st xs) ys"
  by (induction xs arbitrary: st) simp_all

lemma ret_state_last: "xs \<noteq> [] \<Longrightarrow> \<exists>b. ret_state F bt st xs = Some (ukey (last xs), b)"
  by (induction xs arbitrary: st) auto

text \<open>
  Where the loop is: sealed tables with the runs \<open>outs\<close>, each ending before the next begins,
  and a builder holding \<open>cur\<close>; the tables are numbered from \<open>n0\<close> on.
\<close>

definition parts_apart :: "entry list list \<Rightarrow> bool" where
  "parts_apart ess \<longleftrightarrow> sorted_wrt (\<lambda>a b. ukey (last a) < ukey (hd b)) ess"

definition out_tables :: "nat \<Rightarrow> u64 \<Rightarrow> TableRef list \<Rightarrow> entry list list \<Rightarrow> bool" where
  "out_tables out_ix n0 rs outs \<longleftrightarrow> list_all2 (\<lambda>r es. small_table r \<longrightarrow> table_run r es) rs outs
     \<and> map (\<lambda>r. file_number (tr_meta r)) rs = map (\<lambda>i. n0 + of_nat i) [0..<length rs]
     \<and> (\<forall>r\<in>set rs. flevel (tr_meta r) = of_nat out_ix + 1)"

definition merging :: "nat \<Rightarrow> DB \<Rightarrow> Compaction \<Rightarrow> entry list list \<Rightarrow> entry list \<Rightarrow> bool" where
  "merging out_ix db c outs cur \<longleftrightarrow> out_tables out_ix (next_file_number db) (outputs c) outs
     \<and> next_file_number (cm_db c) = next_file_number db + of_nat (length (outputs c)) \<and> [] \<notin> set outs
     \<and> (\<exists>bs cb. bld_ok (cm_builder c) DefaultTableOptions bs cb \<and> concat bs @ cb = cur)
     \<and> builder_used c = (cur \<noteq> []) \<and> sorted_run (concat outs @ cur) \<and> parts_apart outs
     \<and> (case current_user c of None \<Rightarrow> outs = [] \<and> cur = []
        | Some u \<Rightarrow> (\<forall>e\<in>set (concat outs). \<forall>e'\<in>set cur. ukey e < ukey e') \<and> (\<forall>e\<in>set (concat outs). ukey e < u) \<and> (\<forall>e\<in>set cur. ukey e \<le> u))"

lemma seal_built:
  assumes "seal out_ix c = c'"
  shows "only_built (cm_db c) (cm_db c')" "current_user c' = current_user c" "floor_version_seen c' = floor_version_seen c"
proof -
  let ?db = "(cm_db c)\<lparr>next_file_number := next_file_number (cm_db c) + 1\<rparr>"
  obtain x db' where x: "seal_table ''compaction self-check failed for '' (next_file_number (cm_db c)) (of_nat out_ix + 1) (cm_builder c) ?db = (x, db')"
    by (metis surj_pair)
  have "only_built (cm_db c) ?db" by (simp add: only_built_def)
  then have b: "only_built (cm_db c) db'" using seal_table_built(1) [OF x] only_built_trans by blast
  have "only_built (cm_db c) (db'\<lparr>stats_sst_bytes := n\<rparr>)" for n
    using b by (cases "cm_db c", cases db') (simp add: only_built_def)
  then show "only_built (cm_db c) (cm_db c')" "current_user c' = current_user c" "floor_version_seen c' = floor_version_seen c"
    using assms x b by (auto simp: seal_def Let_def split: if_splits sum.splits)
qed

lemma parts_apart_snoc:
  assumes "parts_apart outs" and "\<forall>e\<in>set (concat outs). \<forall>e'\<in>set cur. ukey e < ukey e'" and "cur \<noteq> []" and "[] \<notin> set outs"
  shows "parts_apart (outs @ [cur])"
proof -
  have "ukey (last a) < ukey (hd cur)" if "a \<in> set outs" for a
  proof -
    have "last a \<in> set (concat outs)" using that assms(4) last_in_set [of a] by fastforce
    then show ?thesis using assms(2) hd_in_set [OF assms(3)] by blast
  qed
  then show ?thesis using assms(1) by (simp add: parts_apart_def sorted_wrt_append)
qed

lemma seal_merging:
  assumes m: "merging out_ix db c outs cur" and ok: "ok (cm_status c)" and c': "seal out_ix c = c'" and ok': "ok (cm_status c')"
    and ne: "cur \<noteq> []"
  shows "out_tables out_ix (next_file_number db) (outputs c') (outs @ [cur])
    \<and> next_file_number (cm_db c') = next_file_number db + of_nat (length (outputs c'))
    \<and> cm_builder c' = NewBuilder DefaultTableOptions \<and> \<not> builder_used c' \<and> parts_apart (outs @ [cur])"
proof -
  let ?n = "next_file_number (cm_db c)"
  obtain bs cb where b: "bld_ok (cm_builder c) DefaultTableOptions bs cb" "concat bs @ cb = cur"
    and s: "sorted_run (concat outs @ cur)" and used: "builder_used c" and t: "out_tables out_ix (next_file_number db) (outputs c) outs"
    and n: "?n = next_file_number db + of_nat (length (outputs c))" and pa: "parts_apart outs" "[] \<notin> set outs"
    using m ne by (auto simp: merging_def)
  have lt: "\<forall>e\<in>set (concat outs). \<forall>e'\<in>set cur. ukey e < ukey e'" using m ne by (auto simp: merging_def split: option.splits)
  obtain x db' where x: "seal_table ''compaction self-check failed for '' ?n (of_nat out_ix + 1) (cm_builder c) ((cm_db c)\<lparr>next_file_number := ?n + 1\<rparr>) = (x, db')"
    by (metis surj_pair)
  then obtain r where r: "x = Inr r" using c' ok ok' used seal_table_built(3) [OF x] by (cases x) (auto simp: seal_def Let_def)
  then have eq: "c' = c\<lparr>cm_db := db'\<lparr>stats_sst_bytes := stats_sst_bytes db' + file_size (tr_meta r)\<rparr>, outputs := outputs c @ [r],
      cm_builder := NewBuilder DefaultTableOptions, builder_used := False\<rparr>"
    using c' x ok used by (simp add: seal_def Let_def)
  have "sorted_run (concat bs @ cb)" using s b(2) by (simp add: sorted_run_def sorted_wrt_append)
  then have tr: "small_table r \<Longrightarrow> table_run r cur" using seal_table_run [OF x [unfolded r] b(1)] b(2) ne by simp
  have "out_tables out_ix (next_file_number db) (outputs c @ [r]) (outs @ [cur])"
    using t tr seal_table_built(2) [OF x, of r] r n by (auto simp: out_tables_def intro: list_all2_appendI)
  moreover have "next_file_number db' = ?n + 1" using seal_table_built(1) [OF x] by simp
  ultimately show ?thesis using eq n parts_apart_snoc [OF pa(1) lt ne pa(2)] by simp
qed

definition loop_state :: "Compaction \<Rightarrow> (bytes \<times> bool) option" where
  "loop_state c = map_option (\<lambda>u. (u, floor_version_seen c)) (current_user c)"

lemma enter_user_merging:
  assumes m: "merging out_ix db c outs cur" and ok: "ok (cm_status c)" and le: "\<And>u. current_user c = Some u \<Longrightarrow> u \<le> user"
    and c1: "enter_user out_ix user c = c1" and ok1: "ok (cm_status c1)"
  shows "\<exists>outs1 cur1. merging out_ix db c1 outs1 cur1 \<and> concat outs1 @ cur1 = concat outs @ cur"
    and "current_user c1 = Some user" and "floor_version_seen c1 = seen_of (loop_state c) user"
proof -
  let ?cut = "current_user c \<noteq> None \<and> builder_used c \<and> ApproximateFileSize (cm_builder c) \<ge> max_sst_size (db_options (cm_db c))"
  let ?c = "if ?cut then seal out_ix c else c"
  have eq: "c1 = (if current_user c = Some user then c else ?c\<lparr>current_user := Some user, floor_version_seen := False\<rparr>)" and okc: "current_user c \<noteq> Some user \<Longrightarrow> ok (cm_status ?c)"
    using c1 ok1 ok by (auto simp: enter_user_def Let_def split: if_splits)
  show "current_user c1 = Some user" "floor_version_seen c1 = seen_of (loop_state c) user"
    using eq by (auto simp: loop_state_def seen_of_def split: option.splits)
  show "\<exists>outs1 cur1. merging out_ix db c1 outs1 cur1 \<and> concat outs1 @ cur1 = concat outs @ cur"
  proof (cases "current_user c = Some user")
    case True
    then show ?thesis using m eq by auto
  next
    case ne: False
    have lt: "ukey e < user" if e: "e \<in> set (concat outs @ cur)" for e
    proof (cases "current_user c")
      case None
      then show ?thesis using m e by (simp add: merging_def)
    next
      case (Some u)
      then have "ukey e \<le> u" using m e by (auto simp: merging_def less_imp_le)
      moreover have "u < user" using le [OF Some] ne Some by auto
      ultimately show ?thesis by simp
    qed
    show ?thesis
    proof (cases ?cut)
      case True
      then have "cur \<noteq> []" using m by (simp add: merging_def)
      have c1: "c1 = (seal out_ix c)\<lparr>current_user := Some user, floor_version_seen := False\<rparr>" using eq unfolding if_not_P [OF ne] if_P [OF True] .
      have "ok (cm_status (seal out_ix c))" using okc [OF ne] True by simp
      note sm = seal_merging [OF m ok refl this \<open>cur \<noteq> []\<close>]
      have "[] \<notin> set outs" "sorted_run (concat outs @ cur)" using m by (simp_all add: merging_def)
      then have s: "merging out_ix db c1 (outs @ [cur]) []"
        unfolding merging_def c1 using sm lt \<open>cur \<noteq> []\<close> bld_ok_New [of DefaultTableOptions] by auto
      then show ?thesis by (intro exI [of _ "outs @ [cur]"] exI [of _ "[]"]) simp
    next
      case False
      have "c1 = c\<lparr>current_user := Some user, floor_version_seen := False\<rparr>"
        using eq unfolding if_not_P [OF ne] if_not_P [OF False] .
      moreover have "\<forall>e\<in>set (concat outs). \<forall>e'\<in>set cur. ukey e < ukey e'" using m by (auto simp: merging_def split: option.splits)
      ultimately have "merging out_ix db c1 outs cur" using m lt by (auto simp: merging_def less_imp_le)
      then show ?thesis by blast
    qed
  qed
qed

lemma compact_entry_merging:
  assumes m: "merging out_ix db c outs cur" and u: "current_user c = Some (ukey e)"
    and lt: "\<forall>x\<in>set (concat outs @ cur). key_lt (ikey x) (ikey e)"
    and c2: "compact_entry F bt (enc_ik e) (evalue e) c = c2" and r: "retain F bt (etag e) (floor_version_seen c) = (keep, seen)" and ok: "ok (cm_status c)"
  shows "ok (cm_status c2)" "\<exists>cur2. merging out_ix db c2 outs cur2 \<and> concat outs @ cur2 = concat outs @ cur @ (if keep then [e] else [])"
    "current_user c2 = Some (ukey e)" "floor_version_seen c2 = seen" "cm_db c2 = cm_db c"
proof -
  obtain bs cb where b: "bld_ok (cm_builder c) DefaultTableOptions bs cb" "concat bs @ cb = cur" using m by (auto simp: merging_def)
  have "key_lt (ikey (last (concat bs @ cb))) (ukey e, make_tag (tag_seq (etag e)) (ucast (tag_type (etag e))))" if "concat bs @ cb \<noteq> []"
    using lt b(2) last_in_set [OF that] unfolding make_tag_parts by auto
  from bld_ok_Add [OF b(1) this, of "evalue e"] obtain b' bs' cb' where
    a: "Builder_Add (ukey e) (tag_seq (etag e)) (ucast (tag_type (etag e))) (evalue e) (cm_builder c) = (Ok, b')"
      "bld_ok b' DefaultTableOptions bs' cb'" "concat bs' @ cb' = cur @ [e]"
    unfolding make_tag_parts using b(2) by (metis append.assoc prod.collapse)
  have eq: "c2 = (if keep then c\<lparr>floor_version_seen := seen, cm_status := Ok, cm_builder := b', builder_used := True\<rparr> else c\<lparr>floor_version_seen := seen\<rparr>)"
    using c2 r a(1) by (auto simp: compact_entry_def Let_def)
  show "ok (cm_status c2)" "current_user c2 = Some (ukey e)" "floor_version_seen c2 = seen" "cm_db c2 = cm_db c"
    using eq u ok by simp_all
  have o: "\<forall>x\<in>set (concat outs). ukey x < ukey e" "\<forall>x\<in>set cur. ukey x \<le> ukey e" "\<forall>x\<in>set (concat outs). \<forall>y\<in>set cur. ukey x < ukey y"
    using m u by (auto simp: merging_def)
  have "merging out_ix db c2 outs (if keep then cur @ [e] else cur)"
  proof (cases keep)
    case True
    have "sorted_run (concat outs @ cur @ [e])" using m lt by (auto simp: merging_def sorted_run_def sorted_wrt_append)
    then show ?thesis using eq True m a(2,3) o u by (auto simp: merging_def)
  next
    case False
    then show ?thesis using eq m by (simp add: merging_def)
  qed
  then show "\<exists>cur2. merging out_ix db c2 outs cur2 \<and> concat outs @ cur2 = concat outs @ cur @ (if keep then [e] else [])"
    by (intro exI [of _ "if keep then cur @ [e] else cur"]) simp
qed

text \<open>The loop returns, and without an error it has merged the whole run.\<close>

lemma compact_loop_returns:
  assumes "mg_stnd it es rest" and "es = pre @ rest" and "merging out_ix db c outs cur" and "ok (cm_status c)"
    and "only_built db (cm_db c)" and "concat outs @ cur = retained F bt None pre" and "loop_state c = ret_state F bt None pre"
  shows "\<exists>c'. compact_loop F bt out_ix it c = Some c' \<and> only_built db (cm_db c')
    \<and> (ok (cm_status c') \<longrightarrow> (\<exists>outs' cur'. merging out_ix db c' outs' cur' \<and> concat outs' @ cur' = retained F bt None es))"
  using assms
proof (induction rest arbitrary: it pre c outs cur)
  case Nil
  then show ?case using merge_it.valid_iff [OF Nil.prems(1)] by (subst compact_loop.simps) auto
next
  case (Cons e rest)
  note v = merge_it.valid_iff [OF Cons.prems(1)] and en = merge_it.entry_at [OF Cons.prems(1)]
  obtain it' where it': "mg_Next it = Some it'" "mg_stnd it' es rest" using merge_it.next_stnd [OF Cons.prems(1)] by auto
  have sr: "sorted_run (pre @ e # rest)" using merge_it.over_sorted [OF merge_it.stnd_over [OF Cons.prems(1)]] Cons.prems(2) by simp
  then have pre_lt: "\<forall>x\<in>set pre. key_lt (ikey x) (ikey e)" by (auto simp: sorted_run_def sorted_wrt_append)
  let ?c1 = "enter_user out_ix (ukey e) c"
  have b1: "only_built db (cm_db ?c1)" using Cons.prems(5) seal_built(1) [of out_ix c] only_built_trans by (auto simp: enter_user_def Let_def)
  have step: "compact_loop F bt out_ix it c = (if \<not> ok (cm_status ?c1) then Some ?c1
      else compact_loop F bt out_ix it' (compact_entry F bt (enc_ik e) (evalue e) ?c1))"
    using v en Cons.prems(4) it'(1) by (subst compact_loop.simps) (simp add: Let_def)
  show ?case
  proof (cases "ok (cm_status ?c1)")
    case False
    then show ?thesis using step b1 by auto
  next
    case ok1: True
    have le: "u \<le> ukey e" if "current_user c = Some u" for u
    proof -
      have ne: "pre \<noteq> []" using that Cons.prems(7) by (auto simp: loop_state_def)
      then have "u = ukey (last pre)" using ret_state_last [OF ne, of F bt None] that Cons.prems(7) by (auto simp: loop_state_def)
      moreover have "key_lt (ikey (last pre)) (ikey e)" using pre_lt last_in_set [OF ne] by blast
      ultimately show ?thesis by (auto simp: key_lt_def)
    qed
    note eu = enter_user_merging [OF Cons.prems(3,4) le refl ok1]
    obtain outs1 cur1 where m1: "merging out_ix db ?c1 outs1 cur1" "concat outs1 @ cur1 = retained F bt None pre"
      using eu(1) Cons.prems(6) by auto
    obtain keep seen where r: "retain F bt (etag e) (floor_version_seen ?c1) = (keep, seen)" by (metis surj_pair)
    have r': "retain F bt (etag e) (seen_of (ret_state F bt None pre) (ukey e)) = (keep, seen)" using r eu(3) Cons.prems(7) by simp
    have lt: "\<forall>x\<in>set (concat outs1 @ cur1). key_lt (ikey x) (ikey e)"
      unfolding m1(2) using pre_lt retained_subset [of F bt None pre] by blast
    note ce = compact_entry_merging [OF m1(1) eu(2) lt refl r ok1]
    let ?c2 = "compact_entry F bt (enc_ik e) (evalue e) ?c1"
    obtain cur2 where m2: "merging out_ix db ?c2 outs1 cur2" "concat outs1 @ cur2 = concat outs1 @ cur1 @ (if keep then [e] else [])"
      using ce(2) by blast
    have "concat outs1 @ cur2 = retained F bt None (pre @ [e])"
      using m2(2) m1(2) r' by (simp add: retained_append)
    moreover have "loop_state ?c2 = ret_state F bt None (pre @ [e])"
      using ce(3,4) r' by (simp add: ret_state_append loop_state_def)
    ultimately show ?thesis
      using Cons.IH [OF it'(2) _ m2(1) ce(1), of "pre @ [e]"] Cons.prems(2) b1 ce(5) step ok1 by simp
  qed
qed

subsection \<open>The files of a compaction\<close>

lemma tables_over:
  assumes "list_all2 table_run rs ess" and "sorted_run es" and "mset es = mset (concat ess)"
  shows "mg_over (NewMergingIterator (map (\<lambda>r. TableChild (NewTableIterator (tr_table r))) rs)) es"
proof -
  have "length ess = length rs" "\<forall>i < length rs. table_run (rs ! i) (ess ! i)"
    using assms(1) by (auto simp: list_all2_conv_all_nth)
  then show ?thesis using assms(2,3) unfolding mg_over_def
    by (intro conjI exI [of _ ess]) (auto simp: NewMergingIterator_def ti_over_def table_run_def NewTableIterator_def)
qed

lemma CompactBuild_files:
  assumes "list_all2 table_run (as @ bs) ess" and "sorted_run es" and "mset es = mset (concat ess)"
  obtains x db' where "CompactBuild as bs out_ix db = Some (x, db')" "only_built db db'"
    "\<And>outs. x = Inr outs \<Longrightarrow> next_file_number db' = next_file_number db + of_nat (length outs)
       \<and> (\<exists>oess. out_tables out_ix (next_file_number db) outs oess \<and> parts_apart oess \<and> [] \<notin> set oess
          \<and> concat oess = retained (SmallestSnapshotSeq db) (out_ix + 1 = kMaxLevels - 1) None es)"
proof -
  let ?F = "SmallestSnapshotSeq db" and ?bt = "out_ix + 1 = kMaxLevels - 1"
  let ?c0 = "\<lparr>cm_db = db, cm_builder = NewBuilder DefaultTableOptions, builder_used = False, outputs = [], cm_status = Ok,
              current_user = None, floor_version_seen = False\<rparr>"
  obtain it where it: "mg_SeekToFirst (NewMergingIterator (map (\<lambda>r. TableChild (NewTableIterator (tr_table r))) (as @ bs))) = Some it" "mg_stnd it es es"
    using merge_it.first_stnd [OF tables_over [OF assms]] by blast
  have "merging out_ix db ?c0 [] []"
    using bld_ok_New [of DefaultTableOptions] by (auto simp: merging_def out_tables_def parts_apart_def sorted_run_def)
  from compact_loop_returns [OF it(2) _ this, of "[]" ?F ?bt] obtain c' where
    c': "compact_loop ?F ?bt out_ix it ?c0 = Some c'" "only_built db (cm_db c')"
    and m: "ok (cm_status c') \<Longrightarrow> \<exists>outs cur. merging out_ix db c' outs cur \<and> concat outs @ cur = retained ?F ?bt None es"
    by (auto simp: loop_state_def)
  let ?c1 = "if ok (cm_status c') then seal out_ix c' else c'"
  have b1: "only_built db (cm_db ?c1)" using c'(2) seal_built(1) [of out_ix c'] only_built_trans by auto
  have unl: "only_built db (unlink_tables (outputs ?c1) (cm_db ?c1))"
    using b1 by (cases db, cases "cm_db ?c1") (simp add: only_built_def unlink_tables_def)
  let ?x = "if \<not> ok (cm_status ?c1) then Inl (cm_status ?c1) else Inr (outputs ?c1)"
  let ?db = "if \<not> ok (cm_status ?c1) then unlink_tables (outputs ?c1) (cm_db ?c1) else cm_db ?c1"
  have cb: "CompactBuild as bs out_ix db = Some (?x, ?db)" using it(1) c'(1) by (simp add: CompactBuild_def Let_def)
  have "next_file_number ?db = next_file_number db + of_nat (length outs) \<and> (\<exists>oess. out_tables out_ix (next_file_number db) outs oess
      \<and> parts_apart oess \<and> [] \<notin> set oess \<and> concat oess = retained ?F ?bt None es)" if x: "?x = Inr outs" for outs
  proof -
    have ok: "ok (cm_status ?c1)" "ok (cm_status c')" "outputs ?c1 = outs" using x by (auto split: if_splits)
    obtain os cur where o: "merging out_ix db c' os cur" "concat os @ cur = retained ?F ?bt None es" using m [OF ok(2)] by blast
    show ?thesis
    proof (cases "cur = []")
      case True
      then have "seal out_ix c' = c'" using o(1) by (simp add: seal_def merging_def)
      then show ?thesis using o True ok by (auto simp: merging_def)
    next
      case False
      have "[] \<notin> set (os @ [cur])" using o(1) False by (simp add: merging_def)
      moreover have "concat (os @ [cur]) = retained ?F ?bt None es" using o(2) by simp
      ultimately show ?thesis using seal_merging [OF o(1) ok(2) refl _ False] ok by auto
    qed
  qed
  with cb b1 unl show thesis by (intro that [of ?x ?db]) auto
qed

end
