(* ===== verification/Levels.thy ===== *)
theory Levels
  imports CompactCorrect
begin

text \<open>
  The choice of the files of a compaction and the version it leaves: the chosen files of
  the target level are exactly those that overlap the merged key range, so the outputs fit
  between the files that stay, and every read at or above the floor keeps its answer.
\<close>

subsection \<open>The fixpoint of the range\<close>

abbreviation num_of :: "TableRef \<Rightarrow> u64" where "num_of r \<equiv> file_number (tr_meta r)"
abbreviation key_lo :: "TableRef \<Rightarrow> bytes" where "key_lo r \<equiv> t_smallest_user_key (tr_table r)"
abbreviation key_hi :: "TableRef \<Rightarrow> bytes" where "key_hi r \<equiv> t_largest_user_key (tr_table r)"

definition overlaps :: "Picked \<Rightarrow> TableRef \<Rightarrow> bool" where
  "overlaps p r \<longleftrightarrow> key_hi r \<ge> lo p \<and> key_lo r \<le> hi p"

definition covers :: "Picked \<Rightarrow> TableRef \<Rightarrow> bool" where
  "covers p r \<longleftrightarrow> lo p \<le> key_lo r \<and> key_hi r \<le> hi p"

text \<open>What the passes keep: the picked files are files of the level, inside the range, once each.\<close>

definition picking :: "TableRef list \<Rightarrow> Picked \<Rightarrow> Picked \<Rightarrow> bool" where
  "picking rs p0 p \<longleftrightarrow> set (inputs_b p) \<subseteq> set rs \<and> set (picked p) = num_of ` set (inputs_b p) \<and> distinct (map num_of (inputs_b p))
     \<and> (\<forall>r\<in>set (inputs_b p). covers p r) \<and> lo p \<le> lo p0 \<and> hi p0 \<le> hi p"

lemma picking_add:
  assumes "picking rs p0 p" and "r \<in> set rs" and "num_of r \<notin> set (picked p)"
  shows "picking rs p0 \<lparr>picked = num_of r # picked p, inputs_b = inputs_b p @ [r], lo = min (lo p) (key_lo r), hi = max (hi p) (key_hi r)\<rparr>"
  using assms unfolding picking_def covers_def by (auto simp: min.coboundedI1 max.coboundedI1)

lemma pick_pass_picking:
  "pick_pass rs p c = (p', c') \<Longrightarrow> picking all p0 p \<Longrightarrow> set rs \<subseteq> set all \<Longrightarrow> picking all p0 p'"
proof (induction rs p c rule: pick_pass.induct)
  case (2 r rs p c)
  show ?case
  proof (cases "num_of r \<in> set (picked p)")
    case True
    then show ?thesis using 2 by simp
  next
    case f: False
    note add = picking_add [OF "2.prems"(2) _ f]
    show ?thesis using 2 f add by (cases "key_hi r \<ge> lo p \<and> key_lo r \<le> hi p") auto
  qed
qed simp

lemma pick_pass_stable:
  "pick_pass rs p c = (p', False) \<Longrightarrow> p' = p \<and> \<not> c \<and> (\<forall>r\<in>set rs. num_of r \<in> set (picked p) \<or> \<not> overlaps p r)"
proof (induction rs p c rule: pick_pass.induct)
  case (2 r rs p c)
  show ?case
  proof (cases "num_of r \<in> set (picked p)")
    case True
    then show ?thesis using 2(1) 2(4) by simp
  next
    case f: False
    show ?thesis
    proof (cases "key_hi r \<ge> lo p \<and> key_lo r \<le> hi p")
      case True
      then have "pick_pass rs \<lparr>picked = num_of r # picked p, inputs_b = inputs_b p @ [r], lo = min (lo p) (key_lo r), hi = max (hi p) (key_hi r)\<rparr> True = (p', False)"
        using 2(4) f by simp
      from 2(2) [OF f True this] show ?thesis by simp
    next
      case False
      then have "pick_pass rs p c = (p', False)" using 2(4) f unfolding pick_pass.simps by (simp only: if_False simp_thms)
      from 2(3) [OF f False this] show ?thesis using False by (simp add: overlaps_def)
    qed
  qed
qed simp

lemma pick_loop_picking:
  "picking rs p0 p \<Longrightarrow> picking rs p0 (pick_loop rs p)
     \<and> (\<forall>r\<in>set rs. num_of r \<in> set (picked (pick_loop rs p)) \<or> \<not> overlaps (pick_loop rs p) r)"
proof (induction rs p rule: pick_loop.induct)
  case (1 rs p)
  obtain p' c where pp: "pick_pass rs p False = (p', c)" by (metis surj_pair)
  have pk: "picking rs p0 p'" using pick_pass_picking [OF pp 1(2)] by simp
  show ?case
  proof (cases c)
    case True
    then show ?thesis using 1(1) [OF pp [symmetric] True pk] pp by (simp add: pick_loop.simps [of rs p])
  next
    case False
    then show ?thesis using pick_pass_stable [of rs p False p'] pp pk by (simp add: pick_loop.simps [of rs p])
  qed
qed

lemma key_range_covers:
  "case key_range rs acc of
     None \<Rightarrow> rs = [] \<and> acc = None
   | Some (lo', hi') \<Rightarrow> (\<forall>r\<in>set rs. lo' \<le> key_lo r \<and> key_hi r \<le> hi') \<and> (\<forall>a b. acc = Some (a, b) \<longrightarrow> lo' \<le> a \<and> b \<le> hi')"
proof (induction rs acc rule: key_range.induct)
  case (2 r rs acc)
  then show ?case by (cases acc) (auto split: option.splits)
qed (auto split: option.splits)

text \<open>What \<^verbatim>\<open>PickCompaction\<close> chooses when a compaction is due.\<close>

lemma PickCompaction_source:
  assumes "PickCompaction db = (as, bs, src, out_ix)" and "CompactionNeeded db"
  shows "(src = None \<and> as = l0 (version db) \<and> out_ix = 0)
    \<or> (\<exists>i. src = Some i \<and> Suc i < length (levels (version db)) \<and> as = [hd (levels (version db) ! i)] \<and> levels (version db) ! i \<noteq> [] \<and> out_ix = Suc i)"
proof (cases "length (l0 (version db)) \<ge> l0_compaction_trigger (db_options db)")
  case True
  then show ?thesis using assms(1) by (auto simp: PickCompaction_def pick_source_def split: prod.splits)
next
  case False
  then obtain j where "j \<in> set [0..<length (levels (version db)) - 1]" "level_full db j" using assms(2) by (auto simp: CompactionNeeded_def)
  then obtain i where i: "find (level_full db) [0..<length (levels (version db)) - 1] = Some i"
    by (metis find_None_iff not_None_eq)
  then have il: "i < length (levels (version db)) - 1" "level_full db i" by (auto simp: find_Some_iff)
  then have "levels (version db) ! i \<noteq> []" by (auto simp: level_full_def LevelSize_def)
  then show ?thesis using assms(1) False i il by (auto simp: PickCompaction_def pick_source_def split: prod.splits)
qed

lemma PickCompaction_target:
  assumes "PickCompaction db = (as, bs, src, out_ix)" and "as \<noteq> []"
  obtains p where "bs = inputs_b p" "set bs \<subseteq> set (levels (version db) ! out_ix)" "distinct (map num_of bs)"
    "\<forall>r\<in>set (as @ bs). covers p r"
    "\<forall>r\<in>set (levels (version db) ! out_ix). num_of r \<in> num_of ` set bs \<or> \<not> overlaps p r"
proof -
  obtain s o' where ps: "pick_source db = (as, s, o')" using assms(1) by (auto simp: PickCompaction_def split: prod.splits)
  obtain lo0 hi0 where kr: "key_range as None = Some (lo0, hi0)" using key_range_covers [of as None] assms(2) by (cases "key_range as None") auto
  let ?start = "\<lparr>picked = [], inputs_b = [], lo = lo0, hi = hi0\<rparr>" and ?rs = "levels (version db) ! out_ix"
  let ?p = "pick_loop ?rs ?start"
  have bs: "bs = inputs_b ?p" using assms(1) ps kr by (auto simp: PickCompaction_def)
  have "picking ?rs ?start ?start" by (simp add: picking_def)
  from pick_loop_picking [OF this] have pk: "picking ?rs ?start ?p" "\<forall>r\<in>set ?rs. num_of r \<in> set (picked ?p) \<or> \<not> overlaps ?p r" by simp_all
  have "covers ?p r" if "r \<in> set as" for r
    using key_range_covers [of as None] kr pk(1) that unfolding picking_def covers_def by (auto intro: order_trans)
  then have "\<forall>r\<in>set (as @ bs). covers ?p r" using pk(1) bs by (auto simp: picking_def)
  then show thesis using pk bs by (intro that [OF bs]) (auto simp: picking_def)
qed


subsection \<open>Merging two levels\<close>

text \<open>
  A compaction's floor protects the readers at or above it; a reader above every version of
  the merged files is protected whatever the floor is.
\<close>

definition served :: "u64 \<Rightarrow> entry list \<Rightarrow> u64 \<Rightarrow> bool" where
  "served F es mx \<longleftrightarrow> F \<le> mx \<or> (\<forall>e\<in>set es. tag_seq (etag e) \<le> mx)"

lemma lookup_above:
  assumes "readable_seq mx" and "readable_seq mx'" and "\<forall>e\<in>set es. tag_seq (etag e) \<le> mx" and "mx \<le> mx'"
  shows "lookup_spec es k (target_tag mx) = lookup_spec es k (target_tag mx')"
  unfolding lookup_spec_def using assms visible_iff [OF assms(1)] visible_iff [OF assms(2)]
  by (intro find_cong) (auto intro: order_trans)

lemma retained_served:
  assumes "sorted_run es" and mx: "readable_seq mx" and "served F es mx" and F: "readable_seq F"
  shows "keeps_answer bt (lookup_spec (retained F bt None es) k (target_tag mx)) (lookup_spec es k (target_tag mx))"
proof (cases "F \<le> mx")
  case True
  then show ?thesis by (rule retained_lookup [OF assms(1) mx])
next
  case False
  then have all: "\<forall>e\<in>set es. tag_seq (etag e) \<le> mx" and le: "mx \<le> F" using assms(3) by (auto simp: served_def)
  moreover have "\<forall>e\<in>set (retained F bt None es). tag_seq (etag e) \<le> mx" using all retained_subset by blast
  ultimately show ?thesis using retained_lookup [OF assms(1) F order_refl, of bt k] lookup_above [OF mx F] by simp
qed

lemma keeps_answer_refl [simp]: "keeps_answer bt x x"
  by (simp add: keeps_answer_def)

lemma lookup_spec_none: "(\<And>x. x \<in> set es \<Longrightarrow> ukey x \<noteq> k) \<Longrightarrow> lookup_spec es k T = None"
  by (force simp: lookup_spec_def find_None_iff)

lemma keeps_answer_context:
  assumes "keeps_answer bt (lookup_spec X' k T) (lookup_spec X k T)"
    and "\<And>e. bt \<Longrightarrow> lookup_spec X k T = Some e \<Longrightarrow> lookup_spec Q k T = None"
  shows "keeps_answer bt (lookup_spec (P @ X' @ Q) k T) (lookup_spec (P @ X @ Q) k T)"
  using assms unfolding keeps_answer_def lookup_spec_append by (auto split: option.splits)

lemma merge_level:
  assumes nf: "newest_first (A @ U @ T)" and es: "sorted_run es" "set es = set A \<union> set B" and T: "set T = set B \<union> set R"
    and AU: "\<forall>x\<in>set A. \<forall>y\<in>set U. ukey x \<noteq> ukey y"
    and R: "\<forall>x\<in>set es. \<forall>y\<in>set R. ukey x \<noteq> ukey y" "newest_first R"
    and T': "newest_first T'" "set T' = set (retained F bt None es) \<union> set R"
  shows "newest_first (U @ T')" "set (U @ T') \<subseteq> set (A @ U @ T)"
    "readable_seq mx \<Longrightarrow> readable_seq F \<Longrightarrow> served F es mx \<Longrightarrow>
       keeps_answer bt (lookup_spec (U @ T') k (target_tag mx)) (lookup_spec (A @ U @ T) k (target_tag mx))"
proof -
  have sub: "set (retained F bt None es) \<subseteq> set es" by (rule retained_subset)
  have n: "newest_first U" "\<And>x y. x \<in> set U \<Longrightarrow> y \<in> set T \<Longrightarrow> newer x y" using nf by (auto simp: newest_first_append)
  have UA: "newer x y" if "x \<in> set U" "y \<in> set A" for x y using AU that unfolding newer_def by metis
  have Ue: "newer x y" if "x \<in> set U" "y \<in> set es \<union> set R" for x y using that UA n(2) es(2) T by blast
  have eR: "newer x y" if "x \<in> set es" "y \<in> set R" for x y using R(1) that unfolding newer_def by metis
  have old: "newest_first (U @ es @ R)"
    using n(1) Ue eR R(2) sorted_run_newest_first [OF es(1)] by (simp add: newest_first_append)
  have "newest_first (U @ retained F bt None es @ R)"
    using n(1) Ue eR R(2) sorted_run_newest_first [OF retained_sorted [OF es(1)]] sub by (auto simp: newest_first_append)
  note new = this
  show nf': "newest_first (U @ T')" using n(1) T' Ue sub unfolding newest_first_append by blast
  show "set (U @ T') \<subseteq> set (A @ U @ T)" using T' sub es(2) T by auto
  assume mx: "readable_seq mx" and F: "readable_seq F" and sv: "served F es mx"
  let ?t = "target_tag mx"
  have "lookup_spec (A @ U @ T) k ?t = lookup_spec (U @ es @ R) k ?t"
    by (rule lookup_cong [OF nf old]) (use es(2) T in auto)
  moreover have "lookup_spec (U @ T') k ?t = lookup_spec (U @ retained F bt None es @ R) k ?t"
    by (rule lookup_cong [OF nf' new]) (use T' in auto)
  moreover have "lookup_spec R k ?t = None" if "lookup_spec es k ?t = Some e" for e
  proof -
    from that have "e \<in> set es" "ukey e = k" by (auto simp: lookup_newest [OF sorted_run_newest_first [OF es(1)]])
    then show ?thesis using R(1) by (intro lookup_spec_none) blast
  qed
  ultimately show "keeps_answer bt (lookup_spec (U @ T') k ?t) (lookup_spec (A @ U @ T) k ?t)"
    using keeps_answer_context [OF retained_served [OF es(1) mx sv F, of bt k], of R U] by simp
qed


subsection \<open>A version as runs of entries\<close>

text \<open>\<open>g\<close> gives the entries a table holds.\<close>

definition version_run :: "(TableRef \<Rightarrow> entry list) \<Rightarrow> Version \<Rightarrow> bool" where
  "version_run g v \<longleftrightarrow> (\<forall>r\<in>set (version_files v). table_run r (g r)) \<and> distinct (map num_of (version_files v))
     \<and> (\<forall>rs\<in>set (levels v). parts_apart (map g rs)) \<and> length (levels v) = kMaxLevels - 1"

definition version_entries :: "(TableRef \<Rightarrow> entry list) \<Rightarrow> Version \<Rightarrow> entry list" where
  "version_entries g v = concat (map g (version_files v))"

lemma version_run_lsm:
  assumes "version_run g v"
  shows "list_all2 table_run (l0 v) (map g (l0 v))" "list_all2 level_run (levels v) (map (map g) (levels v))"
    "lsm_entries M I (map g (l0 v)) (map (map g) (levels v)) = M @ I @ version_entries g v"
proof -
  have t: "table_run r (g r)" if "r \<in> set (l0 v) \<or> (\<exists>rs\<in>set (levels v). r \<in> set rs)" for r
    using assms that by (auto simp: version_run_def version_files_def)
  then show "list_all2 table_run (l0 v) (map g (l0 v))" by (auto simp: list_all2_conv_all_nth)
  have "level_run rs (map g rs)" if "rs \<in> set (levels v)" for rs
    using assms t that by (auto simp: level_run_def version_run_def parts_apart_def list_all2_map2 intro!: list.rel_refl_strong)
  then show "list_all2 level_run (levels v) (map (map g) (levels v))" by (auto simp: list_all2_conv_all_nth)
  show "lsm_entries M I (map g (l0 v)) (map (map g) (levels v)) = M @ I @ version_entries g v"
    by (simp add: lsm_entries_def version_entries_def version_files_def map_concat)
qed

lemma level_sorted:
  assumes "\<forall>r\<in>set rs. table_run r (g r)" and "parts_apart (map g rs)"
  shows "sorted_run (concat (map g rs))"
  using assms
proof (induction rs)
  case (Cons r rs)
  have r: "sorted_run (g r)" "g r \<noteq> []" using table_run_facts [of r "g r"] Cons.prems by auto
  have "key_lt (ikey x) (ikey y)" if "x \<in> set (g r)" "y \<in> set (g r')" "r' \<in> set rs" for x y r'
  proof -
    have "sorted_run (g r')" using table_run_facts [of r' "g r'"] Cons.prems(1) that(3) by auto
    from sorted_run_bounds(1) [OF this that(2)] sorted_run_bounds(2) [OF r(1) that(1)] Cons.prems(2) that(3)
    have "ukey x < ukey y" by (auto simp: parts_apart_def intro: le_less_trans less_le_trans)
    then show ?thesis by (simp add: key_lt_def)
  qed
  then show ?case using Cons r by (auto simp: sorted_run_def sorted_wrt_append parts_apart_def)
qed (simp add: sorted_run_def)

lemma parts_apart_keys:
  assumes "parts_apart (map g (xs @ ys))" and "\<forall>r\<in>set (xs @ ys). table_run r (g r)"
    and "x \<in> set (concat (map g xs))" and "y \<in> set (concat (map g ys))"
  shows "ukey x < ukey y"
proof -
  obtain r r' where r: "r \<in> set xs" "x \<in> set (g r)" "r' \<in> set ys" "y \<in> set (g r')" using assms(3,4) by auto
  have "sorted_run (g r)" "sorted_run (g r')" using table_run_facts(2) assms(2) r by auto
  moreover have "ukey (last (g r)) < ukey (hd (g r'))" using assms(1) r by (auto simp: parts_apart_def sorted_wrt_append)
  ultimately show ?thesis using sorted_run_bounds(2) [of "g r" x] sorted_run_bounds(1) [of "g r'" y] r by (meson le_less_trans less_le_trans)
qed

lemma sort_level:
  assumes t: "\<forall>r\<in>set rs. table_run r (g r)" and d: "distinct rs"
    and apart: "\<And>r r'. r \<in> set rs \<Longrightarrow> r' \<in> set rs \<Longrightarrow> r \<noteq> r' \<Longrightarrow> key_hi r < key_lo r' \<or> key_hi r' < key_lo r"
  shows "parts_apart (map g (sort_key key_lo rs))"
proof -
  let ?s = "sort_key key_lo rs"
  have "ukey (last (g (?s ! i))) < ukey (hd (g (?s ! j)))" if "i < j" "j < length ?s" for i j
  proof -
    let ?a = "?s ! i" and ?b = "?s ! j"
    have ab: "?a \<in> set rs" "?b \<in> set rs" using that nth_mem [of i ?s] nth_mem [of j ?s] by auto
    have ne: "?a \<noteq> ?b" using that d by (simp add: nth_eq_iff_index_eq)
    have le: "key_lo ?a \<le> key_lo ?b" using that sorted_sort_key [of key_lo rs] by (simp add: sorted_iff_nth_mono_less)
    have k: "key_lo r = ukey (hd (g r))" "key_hi r = ukey (last (g r))" "key_lo r \<le> key_hi r" if "r \<in> set rs" for r
      using table_run_facts [of r "g r"] sorted_run_bounds(1) [of "g r" "last (g r)"] t that by auto
    show ?thesis using apart [OF ab ne] le k [OF ab(1)] k [OF ab(2)] by force
  qed
  then show ?thesis by (simp add: parts_apart_def sorted_wrt_iff_nth_less)
qed

lemma extend_runs:
  assumes "distinct rs" and "length rs = length ess"
  obtains g' where "map g' rs = ess" "\<And>r. r \<notin> set rs \<Longrightarrow> g' r = g r"
proof -
  let ?m = "map_of (zip rs ess)"
  let ?g = "\<lambda>r. case ?m r of None \<Rightarrow> g r | Some es \<Rightarrow> es"
  have "?g (rs ! i) = ess ! i" if "i < length rs" for i
    using map_of_zip_nth [OF assms(2,1), of i] that assms(2) by simp
  then have "map ?g rs = ess" using assms(2) by (intro nth_equalityI) simp_all
  moreover have "?g r = g r" if "r \<notin> set rs" for r using that assms(2) by (auto dest: map_of_SomeD set_zip_leftD split: option.splits)
  ultimately show thesis by (rule that)
qed


subsection \<open>The version a compaction leaves\<close>

text \<open>
  A choice of inputs: the whole of level 0 or one file of a level, and the files of the next
  level that overlap their range.
\<close>

definition chosen :: "Version \<Rightarrow> TableRef list \<Rightarrow> TableRef list \<Rightarrow> nat option \<Rightarrow> nat \<Rightarrow> bool" where
  "chosen v as bs src out_ix \<longleftrightarrow> as \<noteq> []
     \<and> ((src = None \<and> as = l0 v \<and> out_ix = 0 \<and> levels v \<noteq> [])
        \<or> (\<exists>i U. src = Some i \<and> Suc i < length (levels v) \<and> levels v ! i = as @ U \<and> length as = 1 \<and> out_ix = Suc i))
     \<and> set bs \<subseteq> set (levels v ! out_ix) \<and> distinct (map num_of bs)
     \<and> (\<exists>p. (\<forall>r\<in>set (as @ bs). covers p r) \<and> (\<forall>r\<in>set (levels v ! out_ix). num_of r \<in> num_of ` set bs \<or> \<not> overlaps p r))"

definition staying :: "TableRef list \<Rightarrow> TableRef list \<Rightarrow> TableRef list" where
  "staying rs bs = filter (\<lambda>r. num_of r \<notin> num_of ` set bs) rs"

lemma remove_numbers_staying: "remove_numbers rs bs = staying rs bs"
  by (simp add: remove_numbers_def staying_def image_image)

lemma PickCompaction_chosen:
  assumes "PickCompaction db = (as, bs, src, out_ix)" and "CompactionNeeded db" and "as \<noteq> []" and "levels (version db) \<noteq> []"
  shows "chosen (version db) as bs src out_ix"
proof -
  let ?A = "src = None \<and> as = l0 (version db) \<and> out_ix = 0 \<and> levels (version db) \<noteq> []"
  let ?B = "\<exists>i U. src = Some i \<and> Suc i < length (levels (version db)) \<and> levels (version db) ! i = as @ U \<and> length as = 1 \<and> out_ix = Suc i"
  from PickCompaction_source [OF assms(1,2)] have "?A \<or> ?B"
  proof (elim disjE exE conjE)
    fix i assume i: "src = Some i" "Suc i < length (levels (version db))" "as = [hd (levels (version db) ! i)]" "levels (version db) ! i \<noteq> []" "out_ix = Suc i"
    obtain a U where U: "levels (version db) ! i = a # U" using i(4) by (cases "levels (version db) ! i") auto
    then have "as = [a]" using i(3) by simp
    with U i(1,2,5) show ?thesis by (intro disjI2 exI [of _ i] exI [of _ U] conjI) simp_all
  qed (intro disjI1 conjI assms(4))
  moreover obtain p where "bs = inputs_b p" "set bs \<subseteq> set (levels (version db) ! out_ix)" "distinct (map num_of bs)"
    "\<forall>r\<in>set (as @ bs). covers p r" "\<forall>r\<in>set (levels (version db) ! out_ix). num_of r \<in> num_of ` set bs \<or> \<not> overlaps p r"
    by (rule PickCompaction_target [OF assms(1,3)])
  ultimately show ?thesis using assms(3) unfolding chosen_def by (intro conjI exI [of _ p])
qed

lemma concat_update: "i < length xss \<Longrightarrow> concat (xss[i := ys]) = concat (take i xss) @ ys @ concat (drop (Suc i) xss)"
  by (simp add: upd_conv_take_nth_drop)

lemma concat_nth: "i < length xss \<Longrightarrow> concat xss = concat (take i xss) @ xss ! i @ concat (drop (Suc i) xss)"
  by (metis concat_update list_update_id)

text \<open>The files, before and after, around the two levels.\<close>

lemma chosen_files:
  assumes c: "chosen v as bs src out_ix" and d: "distinct (map num_of (version_files v))"
  obtains P U Q where "version_files v = P @ as @ U @ levels v ! out_ix @ Q"
    "version_files (compacted_version as bs src out_ix outs v) = P @ U @ sort_key key_lo (staying (levels v ! out_ix) bs @ outs) @ Q"
    "Suc out_ix = length (levels v) \<longrightarrow> Q = []" "U = [] \<or> as @ U \<in> set (levels v)"
    "length (levels (compacted_version as bs src out_ix outs v)) = length (levels v)"
    "set (levels (compacted_version as bs src out_ix outs v)) \<subseteq> set (levels v) \<union> {U, sort_key key_lo (staying (levels v ! out_ix) bs @ outs)}"
proof (cases src)
  case None
  with c have n: "as = l0 v" "out_ix = 0" "levels v \<noteq> []" by (auto simp: chosen_def)
  have "staying as as = []" by (simp add: staying_def filter_empty_conv)
  then show thesis using n None
    by (intro that [of "[]" "[]" "concat (drop 1 (levels v))"])
       (auto simp: version_files_def compacted_version_def remove_numbers_staying concat_update concat_nth [of 0 "levels v"] dest: in_set_butlastD set_update_subset_insert [THEN subsetD])
next
  case (Some i)
  with c obtain U where n: "Suc i < length (levels v)" "levels v ! i = as @ U" "out_ix = Suc i" by (auto simp: chosen_def)
  let ?T = "sort_key key_lo (staying (levels v ! out_ix) bs @ outs)"
  have lv: "concat (levels v) = concat (take i (levels v)) @ (as @ U) @ levels v ! Suc i @ concat (drop (Suc (Suc i)) (levels v))"
    using n concat_nth [of i "levels v"] by (simp flip: Cons_nth_drop_Suc)
  have st: "staying (as @ U) as = U"
    using d unfolding version_files_def lv staying_def by (auto simp: filter_empty_conv filter_id_conv)
  have lv': "levels (compacted_version as bs src out_ix outs v) = (levels v)[i := U, Suc i := ?T]"
    using n Some st by (simp add: compacted_version_def remove_numbers_staying Let_def)
  have "concat ((levels v)[i := U, Suc i := ?T]) = concat (take i (levels v)) @ U @ ?T @ concat (drop (Suc (Suc i)) (levels v))"
    using n by (simp add: concat_update take_Suc_conv_app_nth)
  moreover have "l0 (compacted_version as bs src out_ix outs v) = l0 v" using Some by (simp add: compacted_version_def Let_def)
  moreover have "set ((levels v)[i := U, Suc i := ?T]) \<subseteq> set (levels v) \<union> {U, ?T}"
    using set_update_subset_insert [of "(levels v)[i := U]" "Suc i" ?T] set_update_subset_insert [of "levels v" i U] by blast
  ultimately show thesis using n lv lv' nth_mem [of i "levels v"]
    by (intro that [of "l0 v @ concat (take i (levels v))" U "concat (drop (Suc (Suc i)) (levels v))"]) (simp_all add: version_files_def)
qed


lemma table_bounds:
  assumes "table_run r (g r)"
  shows "x \<in> set (g r) \<Longrightarrow> key_lo r \<le> ukey x \<and> ukey x \<le> key_hi r" "\<exists>x\<in>set (g r). ukey x = key_lo r" "\<exists>x\<in>set (g r). ukey x = key_hi r"
  using table_run_facts(1-4) [OF assms] sorted_run_bounds [of "g r" x] hd_in_set [of "g r"] last_in_set [of "g r"] by auto

lemma parts_apart_tables:
  assumes "parts_apart (map g rs)" and "\<forall>r\<in>set rs. table_run r (g r)" and "r \<in> set rs" and "r' \<in> set rs" and "r \<noteq> r'"
  shows "key_hi r < key_lo r' \<or> key_hi r' < key_lo r"
proof -
  obtain i j where ij: "i < length rs" "j < length rs" "r = rs ! i" "r' = rs ! j" using assms(3,4) by (metis in_set_conv_nth)
  have lt: "ukey (last (g (rs ! a))) < ukey (hd (g (rs ! b)))" if "a < b" "b < length rs" for a b
    using assms(1) that unfolding parts_apart_def by (simp add: sorted_wrt_iff_nth_less)
  have k: "key_lo x = ukey (hd (g x))" "key_hi x = ukey (last (g x))" if "x \<in> set rs" for x
    using table_run_facts(3,4) [of x "g x"] assms(2) that by auto
  have "i < j \<or> j < i" using ij(3,4) assms(5) nat_neq_iff by blast
  then show ?thesis using lt [of i j] lt [of j i] ij k [OF assms(3)] k [OF assms(4)] by auto
qed

text \<open>The files that stay in the target level keep out of the range of the merged ones.\<close>

lemma chosen_apart:
  assumes v: "version_run g v" and c: "chosen v as bs src out_ix" and T: "levels v ! out_ix \<in> set (levels v)"
    and as: "set as \<subseteq> set (version_files v)"
  shows "set (levels v ! out_ix) = set bs \<union> set (staying (levels v ! out_ix) bs)"
    "parts_apart (map g (staying (levels v ! out_ix) bs))"
    "\<And>r. r \<in> set (staying (levels v ! out_ix) bs) \<Longrightarrow>
       (\<forall>x\<in>set (concat (map g (as @ bs))). ukey x < key_lo r) \<or> (\<forall>x\<in>set (concat (map g (as @ bs))). key_hi r < ukey x)"
proof -
  let ?T = "levels v ! out_ix"
  have sub: "set ?T \<subseteq> set (version_files v)" using T by (auto simp: version_files_def)
  have t: "table_run r (g r)" if "r \<in> set (version_files v)" for r using v that by (simp add: version_run_def)
  have inj: "inj_on num_of (set (version_files v))" using v by (simp add: version_run_def distinct_map)
  obtain p where p: "\<forall>r\<in>set (as @ bs). covers p r" "\<forall>r\<in>set ?T. num_of r \<in> num_of ` set bs \<or> \<not> overlaps p r" and bs: "set bs \<subseteq> set ?T"
    using c by (auto simp: chosen_def)
  have "r \<in> set bs" if "r \<in> set ?T" "num_of r \<in> num_of ` set bs" for r
    using that inj_onD [OF inj] bs sub by blast
  then show "set ?T = set bs \<union> set (staying ?T bs)" using bs by (auto simp: staying_def)
  have "parts_apart (map g ?T)" using v T by (simp add: version_run_def)
  then show "parts_apart (map g (staying ?T bs))" by (auto simp: parts_apart_def staying_def sorted_wrt_map intro: sorted_wrt_filter)
  have lohi: "lo p \<le> ukey x \<and> ukey x \<le> hi p" if x: "x \<in> set (concat (map g (as @ bs)))" for x
  proof -
    from x obtain q where q: "q \<in> set (as @ bs)" "x \<in> set (g q)" by auto
    have "q \<in> set (version_files v)" using q(1) as bs sub by auto
    from table_bounds(1) [of q g x] t [OF this] q(2) p(1) q(1) show ?thesis unfolding covers_def by (meson order_trans)
  qed
  fix r assume "r \<in> set (staying ?T bs)"
  then have "\<not> overlaps p r" using p(2) by (auto simp: staying_def)
  with lohi show "(\<forall>x\<in>set (concat (map g (as @ bs))). ukey x < key_lo r) \<or> (\<forall>x\<in>set (concat (map g (as @ bs))). key_hi r < ukey x)"
    unfolding overlaps_def by (meson le_less_trans less_le_trans not_le)
qed


text \<open>The target level with the outputs sorted in.\<close>

lemma new_level:
  assumes v: "version_run g v" and c: "chosen v as bs src out_ix" and T: "levels v ! out_ix \<in> set (levels v)"
    and as: "set as \<subseteq> set (version_files v)"
    and o: "\<forall>r\<in>set outs. table_run r (g r)" "parts_apart (map g outs)" "set (concat (map g outs)) \<subseteq> set (concat (map g (as @ bs)))"
    and n: "distinct (map num_of outs)" "num_of ` set outs \<inter> num_of ` set (version_files v) = {}"
  defines "rs \<equiv> staying (levels v ! out_ix) bs @ outs"
  shows "\<forall>r\<in>set rs. table_run r (g r)" "distinct (map num_of rs)" "parts_apart (map g (sort_key key_lo rs))"
proof -
  let ?S = "staying (levels v ! out_ix) bs"
  note ap = chosen_apart [OF v c T as]
  have S: "set ?S \<subseteq> set (version_files v)" using T by (auto simp: version_files_def staying_def)
  have tS: "\<forall>r\<in>set ?S. table_run r (g r)" using v S by (auto simp: version_run_def)
  show t: "\<forall>r\<in>set rs. table_run r (g r)" using o(1) tS by (auto simp: rs_def)
  have "distinct (map num_of (concat (levels v)))" using v by (simp add: version_run_def version_files_def)
  then have "distinct (map num_of (levels v ! out_ix))" using T by (auto simp: distinct_map distinct_concat_iff intro: inj_on_subset)
  then have "distinct (map num_of ?S)" by (simp add: staying_def distinct_map_filter)
  then show d: "distinct (map num_of rs)" using n S by (auto simp: rs_def)
  have mix: "key_hi r < key_lo r' \<or> key_hi r' < key_lo r" if r: "r \<in> set ?S" and r': "r' \<in> set outs" for r r'
  proof -
    have t': "table_run r' (g r')" using o(1) r' by blast
    obtain x y where xy: "x \<in> set (g r')" "ukey x = key_lo r'" "y \<in> set (g r')" "ukey y = key_hi r'"
      using table_bounds(2,3) [of r' g] t' by blast
    have "x \<in> set (concat (map g (as @ bs)))" "y \<in> set (concat (map g (as @ bs)))" using xy o(3) r' by auto
    then show ?thesis using ap(3) [OF r] xy by metis
  qed
  show "parts_apart (map g (sort_key key_lo rs))"
  proof (rule sort_level [OF t])
    show "distinct rs" using d by (simp add: distinct_map)
    fix r r' assume "r \<in> set rs" "r' \<in> set rs" "r \<noteq> r'"
    then show "key_hi r < key_lo r' \<or> key_hi r' < key_lo r"
      using mix [of r r'] mix [of r' r] parts_apart_tables [OF ap(2) tS, of r r'] parts_apart_tables [OF o(2,1), of r r']
      by (auto simp: rs_def)
  qed
qed


lemma level_of_chosen:
  assumes "chosen v as bs src out_ix"
  shows "levels v ! out_ix \<in> set (levels v)" "set as \<subseteq> set (version_files v)"
proof -
  from assms have "out_ix < length (levels v)" by (auto simp: chosen_def)
  then show "levels v ! out_ix \<in> set (levels v)" by simp
  show "set as \<subseteq> set (version_files v)"
  proof (cases src)
    case (Some i)
    with assms obtain U where i: "Suc i < length (levels v)" "levels v ! i = as @ U" by (auto simp: chosen_def)
    then have "as @ U \<in> set (levels v)" using nth_mem [of i "levels v"] by simp
    then show ?thesis by (auto simp: version_files_def)
  qed (use assms in \<open>auto simp: chosen_def version_files_def\<close>)
qed

lemma distinct_replace:
  assumes "distinct (p @ a @ u @ t @ q)" and "distinct t'" and "set t' \<subseteq> set t \<union> n" and "n \<inter> (set p \<union> set u \<union> set q) = {}"
  shows "distinct (p @ u @ t' @ q)"
  using assms by auto

text \<open>The version after the installation is well formed.\<close>

lemma compacted_shape:
  assumes v: "version_run g v" and c: "chosen v as bs src out_ix"
    and o: "\<forall>r\<in>set outs. table_run r (g r)" "parts_apart (map g outs)" "set (concat (map g outs)) \<subseteq> set (concat (map g (as @ bs)))"
    and n: "distinct (map num_of outs)" "num_of ` set outs \<inter> num_of ` set (version_files v) = {}"
  defines "v' \<equiv> compacted_version as bs src out_ix outs v"
  shows "version_run g v'" "set (version_files v') \<subseteq> set (version_files v) \<union> set outs"
proof -
  note T = level_of_chosen [OF c]
  let ?T = "levels v ! out_ix"
  let ?T' = "sort_key key_lo (staying ?T bs @ outs)"
  have d: "distinct (map num_of (version_files v))" using v by (simp add: version_run_def)
  obtain P U Q where f: "version_files v = P @ as @ U @ ?T @ Q" "version_files v' = P @ U @ ?T' @ Q"
    and "Suc out_ix = length (levels v) \<longrightarrow> Q = []" and U: "U = [] \<or> as @ U \<in> set (levels v)"
    and lv: "length (levels v') = length (levels v)" "set (levels v') \<subseteq> set (levels v) \<union> {U, ?T'}"
    unfolding v'_def by (rule chosen_files [OF c d, where outs = outs])
  note nl = new_level [OF v c T o n] and ap = chosen_apart [OF v c T]
  show sub: "set (version_files v') \<subseteq> set (version_files v) \<union> set outs" using f ap(1) by auto
  have "parts_apart (map g U)" using U v by (auto simp: version_run_def parts_apart_def sorted_wrt_append)
  then have pa: "\<forall>rs\<in>set (levels v'). parts_apart (map g rs)" using lv(2) nl(3) v by (auto simp: version_run_def)
  have dT: "distinct (map num_of ?T')" using nl(2) unfolding distinct_map by (simp only: distinct_sort set_sort)
  have sT: "num_of ` set ?T' \<subseteq> num_of ` set ?T \<union> num_of ` set outs" using ap(1) by auto
  have "num_of ` set outs \<inter> (set (map num_of P) \<union> set (map num_of U) \<union> set (map num_of Q)) = {}" using n(2) unfolding f by auto
  from distinct_replace [OF d [unfolded f map_append] dT _ this] sT
  have "distinct (map num_of (P @ U @ ?T' @ Q))" unfolding map_append set_map by (simp only:)
  moreover have "\<forall>r\<in>set (version_files v'). table_run r (g r)" using sub o(1) v unfolding version_run_def by blast
  ultimately show "version_run g v'" using pa lv(1) v by (simp add: version_run_def f(2))
qed

text \<open>
  It has no entry that was not there, and gives every protected reader the old answer; \<open>N\<close>
  stands for the memtables in front.
\<close>

lemma compacted_answers:
  assumes v: "version_run g v" and c: "chosen v as bs src out_ix"
    and es: "sorted_run es" "set es = set (concat (map g (as @ bs)))"
    and o: "\<forall>r\<in>set outs. table_run r (g r)" "parts_apart (map g outs)" "concat (map g outs) = retained F bt None es"
    and n: "distinct (map num_of outs)" "num_of ` set outs \<inter> num_of ` set (version_files v) = {}"
    and bt: "bt \<longrightarrow> Suc out_ix = length (levels v)" and nf: "newest_first (N @ version_entries g v)"
  defines "v' \<equiv> compacted_version as bs src out_ix outs v"
  shows "newest_first (N @ version_entries g v')" "set (version_entries g v') \<subseteq> set (version_entries g v)"
    "readable_seq mx \<Longrightarrow> readable_seq F \<Longrightarrow> served F es mx \<Longrightarrow>
       keeps_answer bt (lookup_spec (N @ version_entries g v') k (target_tag mx)) (lookup_spec (N @ version_entries g v) k (target_tag mx))"
proof -
  note T = level_of_chosen [OF c]
  let ?T = "levels v ! out_ix"
  let ?S = "staying ?T bs" and ?E = "\<lambda>rs. concat (map g rs)"
  let ?T' = "sort_key key_lo (?S @ outs)"
  have d: "distinct (map num_of (version_files v))" using v by (simp add: version_run_def)
  obtain P U Q where f: "version_files v = P @ as @ U @ ?T @ Q" "version_files v' = P @ U @ ?T' @ Q"
    and Q: "Suc out_ix = length (levels v) \<longrightarrow> Q = []" and U: "U = [] \<or> as @ U \<in> set (levels v)"
    and "length (levels v') = length (levels v)" "set (levels v') \<subseteq> set (levels v) \<union> {U, ?T'}"
    unfolding v'_def by (rule chosen_files [OF c d, where outs = outs])
  have oe: "set (?E outs) \<subseteq> set (?E (as @ bs))" using o(3) retained_subset [of F bt None es] es(2) by simp
  note nl = new_level [OF v c T o(1,2) oe n] and ap = chosen_apart [OF v c T]
  have AU: "ukey x \<noteq> ukey y" if "x \<in> set (?E as)" "y \<in> set (?E U)" for x y
  proof -
    have "U \<noteq> []" using that by auto
    then have "parts_apart (map g (as @ U))" using U v by (auto simp: version_run_def)
    moreover have "\<forall>r\<in>set (as @ U). table_run r (g r)" using v unfolding version_run_def f by auto
    ultimately show ?thesis using that parts_apart_keys [of g as U x y] by force
  qed
  have tS: "\<forall>r\<in>set ?S. table_run r (g r)" using nl(1) by auto
  have SR: "ukey x \<noteq> ukey y" if x: "x \<in> set es" and y: "y \<in> set (?E ?S)" for x y
  proof -
    obtain r where r: "r \<in> set ?S" "y \<in> set (g r)" using y by auto
    then show ?thesis using ap(3) [OF r(1)] x es(2) table_bounds(1) [of r g y] tS by force
  qed
  have nT: "newest_first (?E ?T')" using nl(1,3) by (intro sorted_run_newest_first level_sorted) auto
  have sT: "set (?E ?T') = set (retained F bt None es) \<union> set (?E ?S)" unfolding o(3) [symmetric] by auto
  have nS: "newest_first (?E ?S)" using ap(2) tS by (intro sorted_run_newest_first level_sorted) auto
  have se: "set es = set (?E as) \<union> set (?E bs)" and eT: "set (?E ?T) = set (?E bs) \<union> set (?E ?S)" using es(2) ap(1) by auto
  have ve: "N @ version_entries g v = (N @ ?E P) @ (?E as @ ?E U @ ?E ?T) @ ?E Q" "N @ version_entries g v' = (N @ ?E P) @ (?E U @ ?E ?T') @ ?E Q"
    unfolding version_entries_def f by simp_all
  have nX: "newest_first (?E as @ ?E U @ ?E ?T)" using nf unfolding ve newest_first_append by blast
  have AU': "\<forall>x\<in>set (?E as). \<forall>y\<in>set (?E U). ukey x \<noteq> ukey y" and SR': "\<forall>x\<in>set es. \<forall>y\<in>set (?E ?S). ukey x \<noteq> ukey y" using AU SR by blast+
  note ml = merge_level [OF nX es(1) se eT AU' SR' nS nT sT]
  show "newest_first (N @ version_entries g v')" using newest_first_replace [OF nf [unfolded ve] ml(2,1)] unfolding ve .
  show "set (version_entries g v') \<subseteq> set (version_entries g v)" using ml(2) unfolding version_entries_def f by auto
  assume "readable_seq mx" "readable_seq F" "served F es mx"
  from ml(3) [OF this, of k] show "keeps_answer bt (lookup_spec (N @ version_entries g v') k (target_tag mx)) (lookup_spec (N @ version_entries g v) k (target_tag mx))"
    unfolding ve by (rule keeps_answer_context) (simp add: Q bt lookup_spec_def)
qed

end
