(* ===== verification/DbGc.thy ===== *)
theory DbGc
  imports DbCompact
begin

text \<open>
  The value-log garbage collector, one round of the background thread and the counters of the
  database (\<^verbatim>\<open>src/db.cpp\<close>). A pass runs without the mutex between its critical sections; here
  it is one function, its critical sections are the functions it calls. \<open>coins\<close> gives the
  heights the skip list draws for the write with a given sequence number.
\<close>

definition VlogGcNeeded :: "DB \<Rightarrow> bool" where
  "VlogGcNeeded db =
     (if \<not> vsep_enabled db then False
      else case current_vlog db of
             None \<Rightarrow> False
           | Some (_, vl) \<Rightarrow>
               if snapshots db \<noteq> [] then False
               else if length (vlogs db) > 1 then True
               else vl_end vl \<ge> max (vlog_gc_size db) (unat (vlog_gc_floor db)))"

subsection \<open>The pass\<close>

fun put_vlog :: "u64 \<Rightarrow> VLog \<Rightarrow> (u64 \<times> VLog) list \<Rightarrow> (u64 \<times> VLog) list" where
  "put_vlog n vl [] = [(n, vl)]"
| "put_vlog n vl (x # xs) = (if n < fst x then (n, vl) # x # xs else if n = fst x then x # xs else x # put_vlog n vl xs)"

text \<open>The fresh generation, published before anything refers to it, or why the pass ends here.\<close>

definition gc_rotate :: "DB \<Rightarrow> (Status + u64) \<times> DB" where
  "gc_rotate db =
     (if snapshots db \<noteq> [] then (Inl Ok, db)
      else
        let fresh = next_file_number db
        in case VLog_Open (db_dir db) fresh (world db) of
             (Inl s, w) \<Rightarrow> (Inl s, db\<lparr>world := w\<rparr>)
           | (Inr vl, w) \<Rightarrow>
               (case WriteManifest (db\<lparr>world := w, next_file_number := fresh + 1, vlogs := put_vlog fresh vl (vlogs db), vlog_current := Some fresh\<rparr>) of
                  (ms, db1) \<Rightarrow>
                    if ok ms then (Inr fresh, db1)
                    else let older = filter (\<lambda>x. fst x \<noteq> fresh) (vlogs db1)
                         in (Inl ms, db1\<lparr>next_file_number := fresh, vlogs := older, vlog_current := Some (fst (last older))\<rparr>)))"

definition drain_flush :: "DB \<Rightarrow> (Status \<times> DB) option" where
  "drain_flush db = (case imm db of
      None \<Rightarrow> Some (Ok, db)
    | Some m \<Rightarrow>
        (case FlushImmMemTable m (imm_log_number db) (imm_sst_number db) db of
           None \<Rightarrow> None
         | Some (s, db1) \<Rightarrow> Some (s, if ok s then db1\<lparr>imm := None\<rparr> else db1)))"

text \<open>An entry is live when the newest version of its key points at it.\<close>

definition gc_live :: "u64 \<Rightarrow> nat \<Rightarrow> Lookup \<Rightarrow> bool" where
  "gc_live gen off r = (case r of
      kFound stored \<Rightarrow> (case DecodeValuePointer stored of None \<Rightarrow> False | Some p \<Rightarrow> vlog_number p = gen \<and> vp_offset p = of_nat off)
    | _ \<Rightarrow> False)"

fun gc_visit :: "(nat \<Rightarrow> nat list) \<Rightarrow> u64 \<Rightarrow> scanned list \<Rightarrow> Status \<times> u64 \<times> DB \<Rightarrow> (Status \<times> u64 \<times> DB) option" where
  "gc_visit coins gen [] st = Some st"
| "gc_visit coins gen ((k, v, off) # xs) (err, rewritten, db) =
     (if \<not> ok err then gc_visit coins gen xs (err, rewritten, db)
      else case LookupIn (mem db) (imm db) (version db) k kMaxSeq of
             None \<Rightarrow> None
           | Some (r, _) \<Rightarrow>
               if \<not> gc_live gen off r then gc_visit coins gen xs (err, rewritten, db)
               else case WriteEntry (coins (unat (next_seq db))) kTypeValue k v False db of
                      None \<Rightarrow> None
                    | Some (s, db1) \<Rightarrow>
                        if \<not> ok s then gc_visit coins gen xs (s, rewritten, db1)
                        else case drain_flush db1 of
                               None \<Rightarrow> None
                             | Some (s', db2) \<Rightarrow> gc_visit coins gen xs (s', rewritten + of_nat (length v), db2))"

text \<open>Generation after generation; nobody appends to a generation while it is scanned.\<close>

fun gc_scan :: "(nat \<Rightarrow> nat list) \<Rightarrow> VLog list \<Rightarrow> Status \<times> u64 \<times> DB \<Rightarrow> (Status \<times> u64 \<times> DB) option" where
  "gc_scan coins [] st = Some st"
| "gc_scan coins (vl # vls) (err, rewritten, db) =
     (if \<not> ok err then Some (err, rewritten, db)
      else case ScanEntries (vl_end vl) vl (world db) of
             (None, w) \<Rightarrow> None
           | (Some (scan_s, xs), w) \<Rightarrow>
               (case gc_visit coins (vl_number vl) xs (Ok, rewritten, db\<lparr>world := w\<rparr>) of
                  None \<Rightarrow> None
                | Some (err1, rewritten1, db1) \<Rightarrow>
                    gc_scan coins vls (if ok err1 \<and> \<not> ok scan_s then scan_s else err1, rewritten1, db1)))"

definition unlink_vlogs :: "VLog list \<Rightarrow> DB \<Rightarrow> DB" where
  "unlink_vlogs vls db = fold (\<lambda>vl db. db\<lparr>world := unlink (VlogPath (vl_number vl) db) (world db)\<rparr>) vls db"

text \<open>The retirement: durable first, then unnamed, then deleted; never under a live snapshot.\<close>

definition gc_retire :: "VLog list \<Rightarrow> u64 \<Rightarrow> DB \<Rightarrow> (Status \<times> DB) option" where
  "gc_retire retired rewritten db =
     (if snapshots db \<noteq> [] then Some (Ok, db)
      else case ForceDurabilityLocked db of
             None \<Rightarrow> None
           | Some (d, db1) \<Rightarrow>
               if \<not> ok d then Some (d, db1)
               else
                 (case WriteManifest (db1\<lparr>vlogs := filter (\<lambda>x. fst x \<notin> vl_number ` set retired) (vlogs db1), vlog_gc_floor := 2 * rewritten\<rparr>) of
                    (ms, db2) \<Rightarrow>
                      if \<not> ok ms then Some (ms, db2\<lparr>vlogs := fold (\<lambda>vl. put_vlog (vl_number vl) vl) retired (vlogs db2)\<rparr>)
                      else let db3 = unlink_vlogs retired db2
                           in Some (Ok, db3\<lparr>stats_vlog_gcs := stats_vlog_gcs db3 + 1\<rparr>)))"

definition RunVlogGC :: "(nat \<Rightarrow> nat list) \<Rightarrow> DB \<Rightarrow> (Status \<times> DB) option" where
  "RunVlogGC coins db = (case gc_rotate db of
      (Inl s, db1) \<Rightarrow> Some (s, db1)
    | (Inr fresh, db1) \<Rightarrow>
        let retired = map snd (filter (\<lambda>x. fst x \<noteq> fresh) (vlogs db1))
        in case gc_scan coins retired (Ok, 0, db1) of
             None \<Rightarrow> None
           | Some (err, rewritten, db2) \<Rightarrow> if \<not> ok err then Some (err, db2) else gc_retire retired rewritten db2)"

subsection \<open>The background thread\<close>

text \<open>One round of \<^verbatim>\<open>BackgroundLoop\<close> once the thread is awake; \<open>None\<close> when the work does not return.\<close>

definition BackgroundRound :: "(nat \<Rightarrow> nat list) \<Rightarrow> DB \<Rightarrow> DB option" where
  "BackgroundRound coins db = (case imm db of
      Some m \<Rightarrow>
        (case FlushImmMemTable m (imm_log_number db) (imm_sst_number db) db of
           None \<Rightarrow> None
         | Some (s, db1) \<Rightarrow> Some (if ok s then db1\<lparr>imm := None\<rparr> else db1\<lparr>last_error := s\<rparr>))
    | None \<Rightarrow>
        if CompactionNeeded db then
          (case PickCompaction db of
             (as, bs, src, out_ix) \<Rightarrow>
               (case RunCompaction as bs src out_ix db of
                  None \<Rightarrow> None
                | Some (s, db1) \<Rightarrow> Some (if ok s then db1 else db1\<lparr>last_error := s, compaction_disabled := True\<rparr>)))
        else if VlogGcNeeded db then
          (case RunVlogGC coins (db\<lparr>vlog_gc_active := True\<rparr>) of
             None \<Rightarrow> None
           | Some (s, db1) \<Rightarrow> Some (if ok s then db1\<lparr>vlog_gc_active := False\<rparr> else db1\<lparr>vlog_gc_active := False, last_error := s\<rparr>))
        else Some db)"

text \<open>The predicates the background thread and \<^verbatim>\<open>wait_for_background_work\<close> sleep on.\<close>

definition work_pending :: "DB \<Rightarrow> bool" where
  "work_pending db \<longleftrightarrow> imm db \<noteq> None \<or> CompactionNeeded db \<or> VlogGcNeeded db"

definition background_idle :: "DB \<Rightarrow> bool" where
  "background_idle db \<longleftrightarrow> imm db = None \<and> \<not> CompactionNeeded db \<and> \<not> VlogGcNeeded db \<and> \<not> vlog_gc_active db"

subsection \<open>Counters\<close>

definition level_file_count :: "nat \<Rightarrow> DB \<Rightarrow> nat" where
  "level_file_count lv db =
     (if lv = 0 then length (l0 (version db))
      else if lv - 1 < length (levels (version db)) then length (levels (version db) ! (lv - 1))
      else 0)"

definition total_file_count :: "DB \<Rightarrow> nat" where
  "total_file_count db = foldl (\<lambda>n rs. n + length rs) (length (l0 (version db))) (levels (version db))"

end
