(* ===== verification/DbInvariant.thy ===== *)
theory DbInvariant
  imports Levels DbGc
begin

text \<open>
  What a database holds, as runs of entries and a history of writes, and that each operation on
  memtables, versions and snapshots keeps it: writes, rotation, snapshots, flushes, and the
  building and installation of a compaction.
\<close>

subsection \<open>What reads depend on\<close>

text \<open>The memtables, the version and the bookkeeping of sequence and file numbers.\<close>

definition core :: "DB \<Rightarrow> MemTable \<times> MemTable option \<times> Version \<times> u64 \<times> (nat \<times> u64) list \<times> u64 \<times> u64 \<times> bool" where
  "core db = (mem db, imm db, version db, next_seq db, snapshots db, next_file_number db, imm_sst_number db, vsep_enabled db)"

lemma core_world [simp]: "core (db\<lparr>world := w\<rparr>) = core db"
  by (simp add: core_def)

lemma DrainWalRing_core: "DrainWalRing db = Some (s, db') \<Longrightarrow> core db' = core db"
  by (auto simp: DrainWalRing_def core_def erase_pending_def split: option.splits prod.splits if_splits)

lemma SyncViaRing_core:
  assumes "SyncViaRing db = Some (s, db')"
  shows "core db' = core db"
proof -
  have "core (snd (snd x)) = core db" if "x = (case current_vlog db of
      None \<Rightarrow> (True, r1, db\<lparr>wal_token := wal_token db + 1\<rparr>)
    | Some (_, vl) \<Rightarrow>
        let db2 = db\<lparr>wal_token := wal_token db + 1, wal_token := wal_token (db\<lparr>wal_token := wal_token db + 1\<rparr>) + 1\<rparr>
        in case QueueFsync (vl_fd vl) (wal_token db2) r1 of (b, r2) \<Rightarrow> (b, r2, db2))" for x r1
    using that by (auto simp: core_def Let_def split: option.splits prod.splits)
  note this [OF refl]
  then show ?thesis using assms unfolding SyncViaRing_def Let_def
    by (auto simp: core_def split: option.splits prod.splits bool.splits)
qed

lemma sync_ring_core: "sync_ring db = Some (s, db') \<Longrightarrow> core db' = core db"
  by (auto simp: sync_ring_def split: option.splits prod.splits if_splits dest!: DrainWalRing_core SyncViaRing_core)
     (simp_all add: core_def)

lemma sync_files_core: "sync_files db = (s, db') \<Longrightarrow> core db' = core db"
  by (auto simp: sync_files_def core_def split: option.splits prod.splits sum.splits if_splits)

lemma MaybeSync_core: "MaybeSync db = Some (s, db') \<Longrightarrow> core db' = core db"
  by (auto simp: MaybeSync_def Let_def split: SyncMode.splits if_splits dest!: sync_ring_core sync_files_core)
     (simp_all add: core_def)

lemma separate_value_core: "separate_value type k v db = Some (s, stored, db') \<Longrightarrow> core db' = core db"
  by (auto simp: separate_value_def core_def set_vlog_def Let_def split: option.splits prod.splits if_splits)

lemma append_wal_core:
  assumes "append_wal payload db = Some (s, db')"
  shows "core db' = core db"
proof (cases "io_uring_active db")
  case True
  then show ?thesis using assms
    by (auto simp: append_wal_def append_ring_def core_def erase_pending_def Let_def split: option.splits prod.splits bool.splits)
next
  case False
  then show ?thesis using assms
    by (auto simp: append_wal_def append_sync_def core_def Let_def split: prod.splits if_splits)
qed

lemma WriteManifest_core: "WriteManifest db = (s, db') \<Longrightarrow> core db' = core db"
  by (auto simp: WriteManifest_def split: prod.splits)

lemma unlink_tables_core [simp]: "core (unlink_tables rs db) = core db"
  by (induction rs arbitrary: db) (simp_all add: unlink_tables_def)

lemma MaybeResolvePointer_core: "MaybeResolvePointer hash v db = (s, v', db') \<Longrightarrow> core db' = core db"
  by (auto simp: MaybeResolvePointer_def core_def Let_def split: option.splits prod.splits sum.splits if_splits)

lemma WriteEntry_core:
  assumes "WriteEntry coins type k v c db = Some (s, db')"
  shows "if ok s then \<exists>s1 stored db1 mt. separate_value type k v db = Some (s1, stored, db1) \<and> ok s1
           \<and> mem_insert coins (next_seq db) type k stored (mem db) = Some mt \<and> core db' = core (db\<lparr>mem := mt, next_seq := next_seq db + 1\<rparr>)
         else core db' = core db"
proof -
  obtain s1 stored db1 where 1: "separate_value type k v db = Some (s1, stored, db1)"
    using assms by (auto simp: WriteEntry_def split: option.splits prod.splits)
  note c1 = separate_value_core [OF 1]
  show ?thesis
  proof (cases "ok s1")
    case False
    then show ?thesis using assms 1 c1 by (auto simp: WriteEntry_def)
  next
    case ok1: True
    then obtain s2 db2 where 2: "append_wal (wal_payload (next_seq db1) type k stored) db1 = Some (s2, db2)"
      using assms 1 by (auto simp: WriteEntry_def split: option.splits prod.splits)
    note c2 = append_wal_core [OF 2]
    show ?thesis
    proof (cases "ok s2")
      case False
      then show ?thesis using assms 1 2 ok1 c1 c2 by (auto simp: WriteEntry_def)
    next
      case ok2: True
      let ?db3 = "if c then db2\<lparr>stats_user_bytes := stats_user_bytes db2 + of_nat (length k + length v)\<rparr> else db2"
      obtain s4 db4 where 4: "MaybeSync ?db3 = Some (s4, db4)" using assms 1 2 ok1 ok2 by (auto simp: WriteEntry_def Let_def split: option.splits)
      have c4: "core db4 = core db" using MaybeSync_core [OF 4] c1 c2 by (simp add: core_def)
      then have m: "mem db4 = mem db" "next_seq db4 = next_seq db" by (simp_all add: core_def)
      have "WriteEntry coins type k v c db = (if \<not> ok s4 then Some (s4, db4)
          else case mem_insert coins (next_seq db) type k stored (mem db) of
                 None \<Rightarrow> None | Some mt \<Rightarrow> Some (Ok, db4\<lparr>mem := mt, next_seq := next_seq db + 1\<rparr>))"
        using 1 2 4 ok1 ok2 m by (simp add: WriteEntry_def Let_def split: option.splits)
      then show ?thesis using assms c4 1 ok1 by (auto simp: core_def split: if_splits option.splits)
    qed
  qed
qed


lemma RotateForFlush_core:
  assumes "RotateForFlush db = Some (s, db')"
  shows "if ok s then core db' = core (db\<lparr>imm := Some (mem db), mem := NewMemTable, imm_sst_number := next_file_number db + 1, next_file_number := next_file_number db + 2\<rparr>)
         else core db' = core db"
proof -
  obtain d db0 where 0: "(if io_uring_active db then DrainWalRing db else Some (Ok, db)) = Some (d, db0)"
    using assms by (auto simp: RotateForFlush_def split: option.splits prod.splits)
  then have c: "core db0 = core db" by (auto split: if_splits dest: DrainWalRing_core)
  show ?thesis using assms c unfolding RotateForFlush_def 0
    by (auto simp: core_def Let_def split: if_splits sum.splits prod.splits)
qed

subsection \<open>The invariant\<close>

fun found :: "Lookup \<Rightarrow> bytes option" where
  "found (kFound v) = Some v"
| "found kDeleted = None"
| "found kMissing = None"

text \<open>The oldest read point still served: the oldest snapshot, or the present.\<close>

definition db_floor :: "DB \<Rightarrow> u64" where
  "db_floor db = min (SmallestSnapshotSeq db) (next_seq db - 1)"

definition answers_history :: "u64 \<Rightarrow> entry list \<Rightarrow> (u64 \<times> wop) list \<Rightarrow> bool" where
  "answers_history F es ws \<longleftrightarrow> (\<forall>k mx. readable_seq mx \<and> F \<le> mx \<longrightarrow>
     found (lookup_of (lookup_spec es k (target_tag mx))) = found (history_get ws k mx))"

definition numbers_ok :: "DB \<Rightarrow> bool" where
  "numbers_ok db \<longleftrightarrow> (\<forall>r\<in>set (version_files (version db)). num_of r < next_file_number db)
     \<and> (imm db \<noteq> None \<longrightarrow> imm_sst_number db < next_file_number db \<and> imm_sst_number db \<notin> num_of ` set (version_files (version db)))"

definition seqs_ok :: "DB \<Rightarrow> entry list \<Rightarrow> (u64 \<times> wop) list \<Rightarrow> bool" where
  "seqs_ok db es ws \<longleftrightarrow> 0 < next_seq db \<and> next_seq db < 2 ^ 56 \<and> (\<forall>e\<in>set es. tag_seq (etag e) < next_seq db)
     \<and> sorted_wrt (<) (map fst ws) \<and> (\<forall>x\<in>set ws. fst x < next_seq db) \<and> (\<forall>x\<in>set (snapshots db). snd x < next_seq db)"

text \<open>
  What the database holds: \<open>M\<close> and \<open>I\<close> are the entries of the two memtables, \<open>g\<close> gives those
  of the tables, \<open>ws\<close> is the history of the writes with the slots they stored.
\<close>

definition db_rep :: "(TableRef \<Rightarrow> entry list) \<Rightarrow> entry list \<Rightarrow> entry list \<Rightarrow> (u64 \<times> wop) list \<Rightarrow> DB \<Rightarrow> bool" where
  "db_rep g M I ws db \<longleftrightarrow> holds_run (mem db) M \<and> (M = [] \<longrightarrow> approximate_size (mem db) = 0)
     \<and> (case imm db of None \<Rightarrow> I = [] | Some m \<Rightarrow> holds_run m I \<and> I \<noteq> [])
     \<and> version_run g (version db) \<and> newest_first (M @ I @ version_entries g (version db))
     \<and> seqs_ok db (M @ I @ version_entries g (version db)) ws \<and> numbers_ok db
     \<and> answers_history (db_floor db) (M @ I @ version_entries g (version db)) ws"

lemma db_rep_core:
  assumes "core db' = core db"
  shows "db_rep g M I ws db' = db_rep g M I ws db" "db_floor db' = db_floor db" "SmallestSnapshotSeq db' = SmallestSnapshotSeq db"
  using assms by (simp_all add: core_def db_rep_def seqs_ok_def numbers_ok_def db_floor_def SmallestSnapshotSeq_def)

text \<open>In such a state a lookup at a served read point is a lookup in the history.\<close>

lemma db_rep_lookup:
  assumes r: "db_rep g M I ws db" and k: "short_key k" and mx: "readable_seq mx" "db_floor db \<le> mx"
  shows "\<exists>l. LookupIn (mem db) (imm db) (version db) k mx = Some (l, Ok) \<and> found l = found (history_get ws k mx)"
proof -
  have v: "version_run g (version db)" using r by (simp add: db_rep_def)
  note l = version_run_lsm [OF v]
  have "lsm_run (mem db) (imm db) (version db) M I (map g (l0 (version db))) (map (map g) (levels (version db)))"
    using r l(1,2) by (simp add: lsm_run_def db_rep_def split: option.splits)
  from LookupIn_run [OF this k, of mx] show ?thesis using r mx unfolding l(3) db_rep_def answers_history_def by auto
qed

subsection \<open>Writes\<close>

definition wop_of :: "u8 \<Rightarrow> bytes \<Rightarrow> bytes \<Rightarrow> wop" where
  "wop_of type k stored = (if type = kTypeValue then WPut k stored else WDel k)"

lemma wkey_wop_of [simp]: "wkey (wop_of type k stored) = k"
  by (simp add: wop_of_def)

lemma mem_insert_run:
  assumes "holds_run mt es" and "short_key k"
  shows "\<exists>mt'. mem_insert coins seq type k stored mt = Some mt' \<and> holds_run mt' (add_entry (wentry seq (wop_of type k stored)) es)"
  using MemTable_Put_run [OF assms, of coins seq stored] MemTable_Delete_run [OF assms, of coins seq]
  by (simp add: mem_insert_def wop_of_def)

lemma option_eqI: "(\<And>x. a = Some x \<longleftrightarrow> b = Some x) \<Longrightarrow> a = b"
  by (cases a) (auto, metis option.exhaust)

lemma lookup_insert:
  assumes "newest_first es" and "newest_first es'" and "set es' = insert e (set es)"
    and "\<And>x. x \<in> set es \<Longrightarrow> ukey x = ukey e \<Longrightarrow> etag x < etag e"
  shows "lookup_spec es' k T = (if ukey e = k \<and> etag e \<le> T then Some e else lookup_spec es k T)"
proof (cases "ukey e = k \<and> etag e \<le> T")
  case True
  have "etag x \<le> etag e" if "x \<in> set es'" "ukey x = k" for x using assms(3) assms(4) [of x] that True by (metis insert_iff less_imp_le order_refl)
  then have "lookup_spec es' k T = Some e" using True assms(3) by (simp add: lookup_newest [OF assms(2)])
  then show ?thesis using True by simp
next
  case False
  have "lookup_spec es' k T = Some x \<longleftrightarrow> lookup_spec es k T = Some x" for x
    unfolding lookup_newest [OF assms(1)] lookup_newest [OF assms(2)] assms(3) using False by blast
  then have "lookup_spec es' k T = lookup_spec es k T" by (rule option_eqI)
  then show ?thesis unfolding if_not_P [OF False] .
qed

lemma history_get_snoc:
  "history_get (ws @ [(seq, w)]) k mx = (if wkey w = k \<and> seq \<le> mx then (case w of WPut _ v \<Rightarrow> kFound v | WDel _ \<Rightarrow> kDeleted) else history_get ws k mx)"
  by (auto simp: history_get_def split: wop.splits)

lemma le_Smallest: "x \<le> SmallestSnapshotSeq db \<longleftrightarrow> (\<forall>s\<in>set (snapshots db). x \<le> snd s)"
proof -
  have "x \<le> fold (\<lambda>s m. min m (snd s)) xs m0 \<longleftrightarrow> x \<le> m0 \<and> (\<forall>s\<in>set xs. x \<le> snd s)" for xs :: "(nat \<times> u64) list" and m0
    by (induction xs arbitrary: m0) auto
  then show ?thesis by (simp add: SmallestSnapshotSeq_def kMaxSeq_def)
qed

lemma le_db_floor: "x \<le> db_floor db \<longleftrightarrow> (\<forall>s\<in>set (snapshots db). x \<le> snd s) \<and> x \<le> next_seq db - 1"
  by (simp add: db_floor_def le_Smallest)

lemma pred_word_less: "0 < (n :: u64) \<Longrightarrow> x < n \<longleftrightarrow> x \<le> n - 1"
  by unat_arith

lemma seq_succ: "(n :: u64) < 2 ^ 56 \<Longrightarrow> n < n + 1"
  by unat_arith simp

lemma tag_older:
  assumes "seq < 2 ^ 56" and "tag_seq t' < seq"
  shows "t' < make_tag seq t"
  using tag_seq_mono [of "make_tag seq t" t'] tag_seq_make [OF assms(1), of t] assms(2) by (metis leD linorder_le_less_linear)

text \<open>One more write, at the next sequence number.\<close>

lemma write_rep:
  assumes r: "db_rep g M I ws db" and k: "short_key k" and lim: "next_seq db + 1 < 2 ^ 56"
    and mt: "mem_insert coins (next_seq db) type k stored (mem db) = Some mt"
    and c: "core db' = core (db\<lparr>mem := mt, next_seq := next_seq db + 1\<rparr>)"
  shows "\<exists>M'. db_rep g M' I (ws @ [(next_seq db, wop_of type k stored)]) db'"
proof -
  let ?n = "next_seq db" and ?VE = "version_entries g (version db)"
  let ?w = "wop_of type k stored"
  let ?e = "wentry ?n ?w" and ?R = "I @ version_entries g (version db)"
  have old: "\<forall>e\<in>set (M @ ?R). tag_seq (etag e) < ?n" and n: "0 < ?n" "?n < 2 ^ 56" and ws: "sorted_wrt (<) (map fst ws)" "\<forall>x\<in>set ws. fst x < ?n"
    and sn: "\<forall>x\<in>set (snapshots db). snd x < ?n" using r by (simp_all add: db_rep_def seqs_ok_def)
  have new: "etag x < etag ?e" if "x \<in> set (M @ ?R)" for x unfolding wentry_tag using old that by (intro tag_older [OF n(2)]) blast
  have "add_entry ?e M = insert_entry ?e M" using new by (force simp: add_entry_def)
  then obtain mt' where mt': "mem_insert coins ?n type k stored (mem db) = Some mt'" "holds_run mt' (insert_entry ?e M)"
    using mem_insert_run [of "mem db" M k coins ?n type stored] r k by (auto simp: db_rep_def)
  then have h: "holds_run mt (insert_entry ?e M)" using mt by simp
  have nfM: "newest_first (M @ ?R)" using r by (simp add: db_rep_def)
  have nf: "newest_first (insert_entry ?e M @ ?R)"
    using nfM new sorted_run_newest_first [OF holds_run_sorted [OF h]] by (auto simp: newest_first_append newer_def)
  have look: "lookup_spec (insert_entry ?e M @ ?R) q T = (if k = q \<and> etag ?e \<le> T then Some ?e else lookup_spec (M @ ?R) q T)" for q T
    using lookup_insert [OF nfM nf, of ?e q T] new by simp
  have n1: "?n < ?n + 1" using seq_succ n(2) .
  have db': "next_seq db' = ?n + 1" "snapshots db' = snapshots db" using c by (simp_all add: core_def)
  have "db_floor db \<le> db_floor db'"
    using le_db_floor [of "db_floor db" db] n(1) pred_word_less [OF n(1), of "db_floor db"] by (auto simp: le_db_floor db')
  then have "answers_history (db_floor db') (insert_entry ?e M @ ?R) (ws @ [(?n, ?w)])"
    using r target_tag_le [OF n(2)] unfolding answers_history_def look history_get_snoc db_rep_def wentry_tag
    by (auto simp: lookup_of_wentry)
  moreover have "seqs_ok db' (insert_entry ?e M @ ?R) (ws @ [(?n, ?w)])"
  proof -
    have "\<forall>e\<in>set (insert_entry ?e M @ ?R). tag_seq (etag e) < ?n + 1"
      using order_less_trans [OF _ n1] old n1 n(2) by (auto simp: wentry_tag tag_seq_make simp del: split_paired_All)
    moreover have "\<forall>x\<in>set ws. fst x < ?n + 1" "\<forall>x\<in>set (snapshots db). snd x < ?n + 1" using ws sn order_less_trans [OF _ n1] by blast+
    ultimately show ?thesis using ws lim n1 by (auto simp: seqs_ok_def db' sorted_wrt_append intro: le_less_trans [OF _ n1])
  qed
  ultimately have "db_rep g (insert_entry ?e M) I (ws @ [(?n, ?w)]) db'"
    using r h nf c by (simp add: db_rep_def numbers_ok_def core_def insert_entry_def)
  then show ?thesis ..
qed


subsection \<open>Rotation and snapshots\<close>

text \<open>File numbers do not wrap.\<close>

definition room_for :: "nat \<Rightarrow> DB \<Rightarrow> bool" where
  "room_for n db \<longleftrightarrow> unat (next_file_number db) + n < 2 ^ 64"

lemma room_for_less: "room_for n db \<Longrightarrow> i < n \<Longrightarrow> next_file_number db \<le> next_file_number db + of_nat i \<and> next_file_number db + of_nat i < next_file_number db + of_nat n"
  by (simp add: room_for_def word_le_nat_alt word_less_nat_alt unat_word_ariths unat_of_nat)

lemma rotate_rep:
  assumes r: "db_rep g M [] ws db" and "imm db = None" and room: "room_for 2 db" and sz: "0 < approximate_size (mem db)"
    and c: "core db' = core (db\<lparr>imm := Some (mem db), mem := NewMemTable, imm_sst_number := next_file_number db + 1, next_file_number := next_file_number db + 2\<rparr>)"
  shows "db_rep g [] M ws db'"
proof -
  let ?n = "next_file_number db"
  have lt: "?n < ?n + 2" "?n + 1 < ?n + 2" "?n < ?n + 1" using room_for_less [OF room, of 0] room_for_less [OF room, of 1] room
    by (simp_all add: room_for_def word_less_nat_alt unat_word_ariths)
  have files: "\<forall>r\<in>set (version_files (version db)). num_of r < ?n" using r by (simp add: db_rep_def numbers_ok_def)
  then have "\<forall>r\<in>set (version_files (version db)). num_of r < ?n + 2" "?n + 1 \<notin> num_of ` set (version_files (version db))"
    using lt by (auto intro: less_trans)
  then have "numbers_ok db'" using c lt by (simp add: numbers_ok_def core_def)
  moreover have "db_floor db' = db_floor db" using c by (simp add: core_def db_floor_def SmallestSnapshotSeq_def)
  ultimately show ?thesis using r c sz holds_run_New by (auto simp: db_rep_def core_def seqs_ok_def NewMemTable_def)
qed

lemma db_rep_floor:
  assumes r: "db_rep g M I ws db" and c: "core db' = core (db\<lparr>snapshots := sn\<rparr>)" and "db_floor db \<le> db_floor db'"
    and "\<forall>x\<in>set sn. snd x < next_seq db"
  shows "db_rep g M I ws db'"
  using assms by (auto simp: db_rep_def core_def seqs_ok_def numbers_ok_def answers_history_def)

lemma GetSnapshot_rep:
  assumes r: "db_rep g M I ws db" and "GetSnapshot db = (s, db')"
  shows "db_rep g M I ws db'" "db_floor db' = db_floor db" "snd s < next_seq db" "readable_seq (snd s)" "db_floor db \<le> snd s" "s \<in> set (snapshots db')"
proof -
  have n: "0 < next_seq db" "next_seq db < 2 ^ 56" using r by (simp_all add: db_rep_def seqs_ok_def)
  have s: "snd s = next_seq db - 1" "snapshots db' = snapshots db @ [s]" "next_seq db' = next_seq db" and c: "core db' = core (db\<lparr>snapshots := snapshots db @ [s]\<rparr>)"
    using assms(2) by (auto simp: GetSnapshot_def Let_def core_def)
  show lt: "snd s < next_seq db" using n(1) by (simp add: s pred_word_less)
  then show "readable_seq (snd s)" using less_trans [OF _ n(2)] by (auto simp: readable_seq_def)
  have "x \<le> db_floor db' \<longleftrightarrow> x \<le> db_floor db" for x unfolding le_db_floor s by (auto simp: s(1))
  then show f: "db_floor db' = db_floor db" by (meson order.antisym order_refl)
  have "\<forall>x\<in>set (snapshots db @ [s]). snd x < next_seq db" using r lt by (auto simp: db_rep_def seqs_ok_def)
  then show "db_rep g M I ws db'" using db_rep_floor [OF r c] f by simp
  show "db_floor db \<le> snd s" "s \<in> set (snapshots db')" by (simp_all add: s db_floor_def)
qed

lemma set_release_first: "set (release_first h ss) \<subseteq> set ss"
  by (induction ss) auto

lemma ReleaseSnapshot_rep:
  assumes r: "db_rep g M I ws db"
  shows "db_rep g M I ws (ReleaseSnapshot h db)" "db_floor db \<le> db_floor (ReleaseSnapshot h db)"
proof -
  show f: "db_floor db \<le> db_floor (ReleaseSnapshot h db)"
    using le_db_floor [of "db_floor db" db] set_release_first [of h "snapshots db"] by (auto simp: le_db_floor ReleaseSnapshot_def)
  have "\<forall>x\<in>set (release_first h (snapshots db)). snd x < next_seq db"
    using r set_release_first [of h "snapshots db"] by (auto simp: db_rep_def seqs_ok_def)
  then show "db_rep g M I ws (ReleaseSnapshot h db)" by (intro db_rep_floor [OF r _ f]) (simp_all add: ReleaseSnapshot_def core_def)
qed

subsection \<open>Flush\<close>

lemma only_built_core: "only_built db db' \<Longrightarrow> next_file_number db' = next_file_number db \<Longrightarrow> core db' = core db"
  by (cases db, cases db') (simp add: only_built_def core_def)

lemma FlushBuild_run:
  assumes b: "FlushBuild im n db = Some (x, db')" and h: "holds_run im I" and ne: "I \<noteq> []"
  shows "core db' = core db" "x = Inr r \<Longrightarrow> num_of r = n \<and> (small_table r \<longrightarrow> table_run r I)"
proof -
  let ?xs = "map item_of_args (map entry_args I)"
  have e: "map entry_of ?xs = I"
    by (induction I) (auto simp: entry_of_def item_of_args_def entry_args_def make_tag_parts)
  obtain b bs cur where a: "Builder_Add_all ?xs (NewBuilder DefaultTableOptions) = (Ok, b)" and k: "bld_ok b DefaultTableOptions bs cur" "concat bs @ cur = I"
    using bld_ok_Add_all [OF bld_ok_New, of ?xs DefaultTableOptions] holds_run_sorted [OF h] e by auto
  obtain y db1 where st: "seal_table ''flush self-check failed for '' n 0 b db = (y, db1)" by (metis surj_pair)
  have B: "FlushBuild im n db = (case (y, db1) of
      (Inl s, db1) \<Rightarrow> Some (Inl s, db1\<lparr>world := unlink (SstPath n db1) (world db1)\<rparr>)
    | (Inr r, db1) \<Rightarrow> Some (Inr r, db1\<lparr>stats_sst_bytes := stats_sst_bytes db1 + file_size (tr_meta r), stats_flushes := stats_flushes db1 + 1\<rparr>))"
    unfolding FlushBuild_def ForEach_run [OF h] by (simp add: a st del: map_map)
  have "only_built db db1" using seal_table_built(1) [OF st] by blast
  then have "core db1 = core db" using seal_table_built(1) [OF st] by (metis core_def only_built_core)
  then show "core db' = core db" using b B by (auto simp: core_def split: sum.splits)
  assume x: "x = Inr r"
  then have y: "y = Inr r" using b B by (auto split: sum.splits)
  show "num_of r = n \<and> (small_table r \<longrightarrow> table_run r I)"
    using seal_table_built(2) [OF st, of r] seal_table_run [of _ n 0 b db r db1 bs cur] holds_run_sorted [OF h] k st y ne by auto
qed

lemma flush_rep:
  assumes r: "db_rep g M I ws db" and t: "table_run r I" and n: "num_of r = imm_sst_number db" and im: "imm db \<noteq> None"
    and c: "core db' = core (db\<lparr>imm := None, version := (version db)\<lparr>l0 := r # l0 (version db)\<rparr>\<rparr>)"
  shows "db_rep (g(r := I)) M [] ws db'"
proof -
  let ?v = "version db" and ?v' = "(version db)\<lparr>l0 := r # l0 (version db)\<rparr>" and ?g = "g(r := I)"
  have f: "version_files ?v' = r # version_files ?v" by (simp add: version_files_def)
  have nums: "num_of r \<notin> num_of ` set (version_files ?v)" using r n im by (simp add: db_rep_def numbers_ok_def)
  then have "r \<notin> set (version_files ?v)" by blast
  then have g: "map ?g (version_files ?v) = map g (version_files ?v)" and lv: "\<forall>rs\<in>set (levels ?v). map ?g rs = map g rs"
    by (auto simp: version_files_def)
  have ve: "version_entries ?g ?v' = I @ version_entries g ?v" by (simp add: version_entries_def f g)
  have "version_run g ?v" using r by (simp add: db_rep_def)
  moreover from this have "\<forall>rs\<in>set (levels ?v). parts_apart (map ?g rs)" using lv unfolding version_run_def by metis
  ultimately have "version_run ?g ?v'" using nums t \<open>r \<notin> set (version_files ?v)\<close> unfolding version_run_def f by auto
  moreover have "db_floor db' = db_floor db" using c by (simp add: core_def db_floor_def SmallestSnapshotSeq_def)
  ultimately show ?thesis using r c n im ve f by (auto simp: db_rep_def core_def seqs_ok_def numbers_ok_def)
qed


subsection \<open>Compaction\<close>

lemma insert_entry_Cons: "insert_entry e (x # xs) = (if key_lt (ikey x) (ikey e) then x # insert_entry e xs else e # x # xs)"
  by (simp add: insert_entry_def)

lemma insert_sorted_run:
  assumes "sorted_run es" and "\<forall>x\<in>set es. ikey x \<noteq> ikey e"
  shows "sorted_run (insert_entry e es)"
  using assms
proof (induction es)
  case Nil
  then show ?case by (simp add: insert_entry_def sorted_run_def)
next
  case (Cons x xs)
  have xs: "sorted_run xs" "\<forall>y\<in>set xs. key_lt (ikey x) (ikey y)" using Cons.prems(1) by (simp_all add: sorted_run_def)
  show ?case
  proof (cases "key_lt (ikey x) (ikey e)")
    case True
    then show ?thesis using Cons xs by (simp add: insert_entry_Cons sorted_run_def)
  next
    case False
    then have "key_lt (ikey e) (ikey x)" using Cons.prems(2) key_lt_total by (metis list.set_intros(1))
    moreover from this have "\<forall>y\<in>set xs. key_lt (ikey e) (ikey y)" using xs(2) kl.lt_trans by blast
    ultimately show ?thesis using Cons.prems(1) False by (simp add: insert_entry_Cons sorted_run_def)
  qed
qed

lemma sort_run:
  assumes "distinct (map ikey xs)"
  shows "\<exists>es. sorted_run es \<and> mset es = mset xs"
  using assms
proof (induction xs)
  case (Cons x xs)
  then obtain es where es: "sorted_run es" "mset es = mset xs" by auto
  have "ikey x \<notin> ikey ` set es" using Cons.prems unfolding mset_eq_setD [OF es(2)] by simp
  then have "\<forall>y\<in>set es. ikey y \<noteq> ikey x"
  proof (intro ballI notI)
    fix y assume "y \<in> set es" "ikey y = ikey x"
    then have "ikey x \<in> ikey ` set es" by (rule image_eqI [OF sym, rotated])
    with \<open>ikey x \<notin> ikey ` set es\<close> show False ..
  qed
  from insert_sorted_run [OF es(1) this] have "sorted_run (insert_entry x es)" .
  moreover have "mset (insert_entry x es) = add_mset x (mset es)"
  proof -
    let ?P = "\<lambda>y. key_lt (ikey y) (ikey x)"
    have "mset (insert_entry x es) = add_mset x (mset (takeWhile ?P es @ dropWhile ?P es))"
      unfolding insert_entry_def mset_append by simp
    then show ?thesis unfolding takeWhile_dropWhile_id .
  qed
  ultimately show ?case using es(2) by auto
qed (auto simp: sorted_run_def)

lemma distinct_files:
  assumes v: "version_run g v" and nf: "newest_first (version_entries g v)" and rs: "distinct rs" "set rs \<subseteq> set (version_files v)"
  shows "distinct (map ikey (concat (map g rs)))"
proof -
  let ?fs = "version_files v"
  have ne: "g r \<noteq> []" if "r \<in> set ?fs" for r using v that table_run_facts(1) by (auto simp: version_run_def)
  have d: "distinct (concat (map g ?fs))" using newest_first_distinct [OF nf] by (simp add: version_entries_def)
  have "[] \<notin> set (map g ?fs)" using ne by (auto dest: sym)
  then have "removeAll [] (map g ?fs) = map g ?fs" by simp
  then have m: "distinct (map g ?fs)" and dj: "\<And>a b. a \<in> g ` set ?fs \<Longrightarrow> b \<in> g ` set ?fs \<Longrightarrow> a \<noteq> b \<Longrightarrow> set a \<inter> set b = {}"
    and each: "\<And>a. a \<in> g ` set ?fs \<Longrightarrow> distinct a"
    using d unfolding distinct_concat_iff by auto
  have "distinct (map g rs)" using m rs by (auto simp: distinct_map intro: inj_on_subset)
  then have "distinct (concat (map g rs))"
  proof (rule distinct_concat)
    have sub: "set (map g rs) \<subseteq> g ` set ?fs" using rs(2) by auto
    show "distinct a" if "a \<in> set (map g rs)" for a using each sub that by blast
    show "set a \<inter> set b = {}" if "a \<in> set (map g rs)" "b \<in> set (map g rs)" "a \<noteq> b" for a b
      by (rule dj) (use sub that in blast)+
  qed
  moreover have "inj_on ikey (set (concat (map g rs)))"
  proof (rule inj_onI)
    have sub: "set (concat (map g rs)) \<subseteq> set (version_entries g v)" using rs(2) by (auto simp: version_entries_def)
    fix x y assume "x \<in> set (concat (map g rs))" "y \<in> set (concat (map g rs))" "ikey x = ikey y"
    then show "x = y" using sub newest_first_tags [OF nf, of x y] by blast
  qed
  ultimately show ?thesis by (simp add: distinct_map)
qed


text \<open>
  The background thread between its critical sections: it has built a table from the immutable
  memtable, or the outputs of a compaction.
\<close>

datatype Job = NoJob | Flushed TableRef | Merged "TableRef list" "TableRef list" "nat option" nat "TableRef list"

text \<open>The outputs of a merge of \<open>as\<close> and \<open>bs\<close>, as far as the readers of the database go.\<close>

definition merged_ok :: "(TableRef \<Rightarrow> entry list) \<Rightarrow> DB \<Rightarrow> TableRef list \<Rightarrow> nat \<Rightarrow> TableRef list \<Rightarrow> bool" where
  "merged_ok g db ins out_ix outs \<longleftrightarrow> (\<exists>F es bt oess. sorted_run es \<and> set es = set (concat (map g ins))
     \<and> list_all2 table_run outs oess \<and> parts_apart oess \<and> concat oess = retained F bt None es
     \<and> (bt \<longrightarrow> Suc out_ix = length (levels (version db))) \<and> readable_seq F \<and> (\<forall>mx. db_floor db \<le> mx \<longrightarrow> served F es mx))"

definition fresh_outputs :: "DB \<Rightarrow> TableRef list \<Rightarrow> bool" where
  "fresh_outputs db outs \<longleftrightarrow> distinct (map num_of outs) \<and> num_of ` set outs \<inter> num_of ` set (version_files (version db)) = {}
     \<and> (\<forall>r\<in>set outs. num_of r < next_file_number db) \<and> (imm db \<noteq> None \<longrightarrow> imm_sst_number db \<notin> num_of ` set outs)"

fun job_ok :: "(TableRef \<Rightarrow> entry list) \<Rightarrow> entry list \<Rightarrow> DB \<Rightarrow> Job \<Rightarrow> bool" where
  "job_ok g I db NoJob \<longleftrightarrow> True"
| "job_ok g I db (Flushed r) \<longleftrightarrow> imm db \<noteq> None \<and> table_run r I \<and> num_of r = imm_sst_number db"
| "job_ok g I db (Merged as bs src out_ix outs) \<longleftrightarrow>
     chosen (version db) as bs src out_ix \<and> merged_ok g db (as @ bs) out_ix outs \<and> fresh_outputs db outs"

lemma chosen_distinct:
  assumes v: "version_run g v" and c: "chosen v as bs src out_ix"
  shows "distinct (as @ bs)" "set (as @ bs) \<subseteq> set (version_files v)"
proof -
  have d: "distinct (map num_of (version_files v))" using v by (simp add: version_run_def)
  have bs: "set bs \<subseteq> set (levels v ! out_ix)" "distinct bs" using c by (auto simp: chosen_def distinct_map)
  obtain P U Q where f: "version_files v = P @ as @ U @ levels v ! out_ix @ Q"
    by (rule chosen_files [OF c d, where outs = "[]"])
  have "distinct (version_files v)" using d by (simp add: distinct_map)
  then show "distinct (as @ bs)" using bs unfolding f by auto
  show "set (as @ bs) \<subseteq> set (version_files v)" using bs unfolding f by auto
qed

lemma db_rep_numbers:
  assumes "db_rep g M I ws db" and "core db' = core (db\<lparr>next_file_number := n\<rparr>)" and "next_file_number db \<le> n"
  shows "db_rep g M I ws db'" "db_floor db' = db_floor db"
  using assms less_le_trans [OF _ assms(3)]
  by (auto simp: db_rep_def core_def seqs_ok_def numbers_ok_def db_floor_def SmallestSnapshotSeq_def)

lemma Smallest_readable:
  assumes "db_rep g M I ws db"
  shows "readable_seq (SmallestSnapshotSeq db)"
proof -
  have "fold (\<lambda>s m. min m (snd s)) xs m0 \<in> insert m0 (snd ` set xs)" for xs :: "(nat \<times> u64) list" and m0
    by (induction xs arbitrary: m0) (auto simp: min_def split: if_splits)
  then have "SmallestSnapshotSeq db \<in> insert kMaxSeq (snd ` set (snapshots db))" by (simp add: SmallestSnapshotSeq_def)
  moreover have "\<forall>x\<in>set (snapshots db). snd x < next_seq db" "next_seq db < 2 ^ 56" using assms by (simp_all add: db_rep_def seqs_ok_def)
  then have "\<forall>q\<in>snd ` set (snapshots db). q < 2 ^ 56" using less_trans [of _ "next_seq db"] by blast
  ultimately show ?thesis unfolding readable_seq_def by auto
qed

lemma floor_served:
  assumes r: "db_rep g M I ws db" and es: "set es \<subseteq> set (version_entries g (version db))" and mx: "db_floor db \<le> mx"
  shows "served (SmallestSnapshotSeq db) es mx"
proof (cases "SmallestSnapshotSeq db \<le> mx")
  case False
  then have "next_seq db - 1 \<le> mx" using mx by (auto simp: db_floor_def min_def split: if_splits)
  moreover have "tag_seq (etag e) \<le> next_seq db - 1" if "e \<in> set es" for e
    using r es that by (auto simp: db_rep_def seqs_ok_def simp flip: pred_word_less)
  ultimately show ?thesis unfolding served_def using order_trans by blast
qed (simp add: served_def)

lemma output_numbers:
  assumes "map num_of outs = map (\<lambda>i. next_file_number db + of_nat i) [0..<length outs]" and room: "room_for (length outs) db"
    and "\<forall>r\<in>set (version_files (version db)). num_of r < next_file_number db"
    and c: "core db' = core (db\<lparr>next_file_number := next_file_number db + of_nat (length outs)\<rparr>)" and "imm db = None"
  shows "fresh_outputs db' outs" "next_file_number db \<le> next_file_number db'"
proof -
  let ?n = "next_file_number db"
  have le: "?n \<le> ?n + of_nat i \<and> unat (?n + of_nat i) = unat ?n + i" if "i \<le> length outs" for i
    using room that by (simp add: room_for_def word_le_nat_alt unat_word_ariths unat_of_nat)
  have "inj_on (\<lambda>i. ?n + of_nat i :: u64) (set [0..<length outs])" using le by (intro inj_onI) (metis add_left_cancel atLeastLessThan_iff less_imp_le set_upt)
  then have d: "distinct (map num_of outs)" unfolding assms(1) by (simp add: distinct_map)
  have s: "num_of ` set outs = (\<lambda>i. ?n + of_nat i) ` {0..<length outs}" using arg_cong [OF assms(1), of set] by simp
  have lt: "?n + of_nat i < ?n + of_nat (length outs)" if "i < length outs" for i using room_for_less [OF room that] by blast
  have "num_of ` set outs \<inter> num_of ` set (version_files (version db)) = {}"
  proof -
    have "\<forall>x\<in>num_of ` set outs. ?n \<le> x" unfolding s using le by auto
    moreover have "\<forall>x\<in>num_of ` set (version_files (version db)). x < ?n" using assms(3) by auto
    ultimately show ?thesis by (meson disjoint_iff leD)
  qed
  moreover have "\<forall>x\<in>num_of ` set outs. x < ?n + of_nat (length outs)" unfolding s using lt by auto
  ultimately show "fresh_outputs db' outs" using d c assms(5) by (simp add: fresh_outputs_def core_def)
  show "?n \<le> next_file_number db'" using le [of "length outs"] c by (simp add: core_def)
qed

lemma CompactBuild_rep:
  assumes r: "db_rep g M I ws db" and c: "chosen (version db) as bs src out_ix" and im: "imm db = None"
    and b: "CompactBuild as bs out_ix db = Some (Inr outs, db')" and small: "\<forall>r\<in>set outs. small_table r" and room: "room_for (length outs) db"
  shows "db_rep g M I ws db'" "job_ok g I db' (Merged as bs src out_ix outs)"
proof -
  have v: "version_run g (version db)" and nf: "newest_first (version_entries g (version db))" using r by (auto simp: db_rep_def newest_first_append)
  note cd = chosen_distinct [OF v c]
  obtain es where es: "sorted_run es" "mset es = mset (concat (map g (as @ bs)))" using sort_run [OF distinct_files [OF v nf cd]] by blast
  have "\<forall>r\<in>set (as @ bs). table_run r (g r)" using v cd(2) by (auto simp: version_run_def)
  then have runs: "list_all2 table_run (as @ bs) (map g (as @ bs))" by (simp only: list_all2_map2 list_all2_same)
  obtain x dbx where x: "CompactBuild as bs out_ix db = Some (x, dbx)" "only_built db dbx"
    and *: "\<And>outs. x = Inr outs \<Longrightarrow> next_file_number dbx = next_file_number db + of_nat (length outs)
       \<and> (\<exists>oess. out_tables out_ix (next_file_number db) outs oess \<and> parts_apart oess \<and> [] \<notin> set oess
          \<and> concat oess = retained (SmallestSnapshotSeq db) (out_ix + 1 = kMaxLevels - 1) None es)"
    by (rule CompactBuild_files [OF runs es, where out_ix = out_ix and db = db]) (rule that, assumption+)
  have "x = Inr outs" and dbx: "dbx = db'" using x(1) b by simp_all
  from * [OF this(1)] obtain oess where o: "out_tables out_ix (next_file_number db) outs oess" "parts_apart oess"
    "concat oess = retained (SmallestSnapshotSeq db) (out_ix + 1 = kMaxLevels - 1) None es" and n': "next_file_number db' = next_file_number db + of_nat (length outs)"
    unfolding dbx by blast
  have core: "core db' = core (db\<lparr>next_file_number := next_file_number db + of_nat (length outs)\<rparr>)"
    using x(2) n' unfolding dbx by (cases db, cases db') (simp add: only_built_def core_def)
  have nums: "\<forall>r\<in>set (version_files (version db)). num_of r < next_file_number db" using r by (simp add: db_rep_def numbers_ok_def)
  have on: "map num_of outs = map (\<lambda>i. next_file_number db + of_nat i) [0..<length outs]" using o(1) by (simp add: out_tables_def)
  note fr = output_numbers [OF on room nums core im]
  show r': "db_rep g M I ws db'" by (rule db_rep_numbers [OF r core]) (use fr(2) core in \<open>simp add: core_def\<close>)
  have fl: "db_floor db' = db_floor db" and ver: "version db' = version db" using core by (simp_all add: core_def db_floor_def SmallestSnapshotSeq_def)
  have se: "set es = set (concat (map g (as @ bs)))" using mset_eq_setD [OF es(2)] .
  then have "set es \<subseteq> set (version_entries g (version db))" using cd(2) by (auto simp: version_entries_def)
  then have sv: "\<forall>mx. db_floor db' \<le> mx \<longrightarrow> served (SmallestSnapshotSeq db) es mx" unfolding fl using floor_served [OF r] by blast
  have run: "list_all2 table_run outs oess" using o(1) small by (auto simp: out_tables_def list_all2_conv_all_nth)
  have bt: "out_ix + 1 = kMaxLevels - 1 \<longrightarrow> Suc out_ix = length (levels (version db'))" using v ver by (simp add: version_run_def)
  have "merged_ok g db' (as @ bs) out_ix outs" unfolding merged_ok_def
    by (intro exI conjI) (rule es(1) se run o(2) o(3) bt Smallest_readable [OF r] sv)+
  then show "job_ok g I db' (Merged as bs src out_ix outs)" using c fr(1) ver by simp
qed

lemma version_run_cong:
  assumes "\<forall>r\<in>set (version_files v). g' r = g r"
  shows "version_run g' v = version_run g v" "version_entries g' v = version_entries g v"
proof -
  have "parts_apart (map g' rs) = parts_apart (map g rs)" if "rs \<in> set (levels v)" for rs
  proof -
    have "\<forall>r\<in>set rs. g' r = g r" using assms that by (auto simp: version_files_def)
    then have "map g' rs = map g rs" by simp
    then show ?thesis by (simp only:)
  qed
  then show "version_run g' v = version_run g v" using assms by (simp add: version_run_def cong: conj_cong)
  have "map g' (version_files v) = map g (version_files v)" using assms by simp
  then show "version_entries g' v = version_entries g v" by (simp only: version_entries_def)
qed

text \<open>The outputs under one assignment of entries to tables with the old files.\<close>

lemma merged_outputs:
  assumes v: "version_run g (version db)" and ch: "chosen (version db) as bs src out_ix" and m: "merged_ok g db (as @ bs) out_ix outs"
    and fo: "fresh_outputs db outs"
  obtains g' F es bt where "\<forall>r\<in>set (version_files (version db)). g' r = g r"
    "sorted_run es" "set es = set (concat (map g' (as @ bs)))" "\<forall>r\<in>set outs. table_run r (g' r)" "parts_apart (map g' outs)"
    "concat (map g' outs) = retained F bt None es" "bt \<longrightarrow> Suc out_ix = length (levels (version db))" "readable_seq F"
    "\<forall>mx. db_floor db \<le> mx \<longrightarrow> served F es mx"
proof -
  let ?v = "version db"
  obtain F es bt oess where m: "sorted_run es" "set es = set (concat (map g (as @ bs)))" "list_all2 table_run outs oess" "parts_apart oess"
    "concat oess = retained F bt None es" "bt \<longrightarrow> Suc out_ix = length (levels ?v)" "readable_seq F" "\<forall>mx. db_floor db \<le> mx \<longrightarrow> served F es mx"
    using m unfolding merged_ok_def by (elim exE conjE)
  have dn: "distinct (map num_of outs)" and dj: "num_of ` set outs \<inter> num_of ` set (version_files ?v) = {}" using fo by (simp_all add: fresh_outputs_def)
  obtain g' where g': "map g' outs = oess" "\<And>r. r \<notin> set outs \<Longrightarrow> g' r = g r"
    using extend_runs [of outs oess g] dn list_all2_lengthD [OF m(3)] by (auto simp: distinct_map)
  have old: "\<forall>r\<in>set (version_files ?v). g' r = g r" using dj by (intro ballI g'(2)) auto
  have "\<forall>r\<in>set (as @ bs). g' r = g r" using chosen_distinct(2) [OF v ch] old by blast
  then have "map g' (as @ bs) = map g (as @ bs)" by (simp only: map_eq_conv)
  then have es: "set es = set (concat (map g' (as @ bs)))" using m(2) by (simp only:)
  have o: "\<forall>r\<in>set outs. table_run r (g' r)" using m(3) unfolding g'(1) [symmetric] by (simp add: list_all2_map2 list_all2_same)
  show thesis by (rule that [OF old m(1) es o m(4)[folded g'(1)] m(5)[folded g'(1)] m(6-8)])
qed

lemma keeps_found: "keeps_answer bt new old \<Longrightarrow> found (lookup_of new) = found (lookup_of old)"
  by (auto simp: keeps_answer_def lookup_of_def kTypeValue_def kTypeDeletion_def)

lemma install_rep:
  assumes r: "db_rep g M I ws db" and j: "job_ok g I db (Merged as bs src out_ix outs)"
    and c: "core db' = core (db\<lparr>version := compacted_version as bs src out_ix outs (version db)\<rparr>)"
  shows "\<exists>g'. db_rep g' M I ws db'"
proof -
  let ?v = "version db" and ?v' = "version db'" and ?N = "M @ I"
  have v: "version_run g ?v" and ch: "chosen ?v as bs src out_ix" and fo: "fresh_outputs db outs" using r j by (simp_all add: db_rep_def)
  obtain g' F es bt where old: "\<forall>r\<in>set (version_files ?v). g' r = g r" and es: "sorted_run es" "set es = set (concat (map g' (as @ bs)))"
    and o: "\<forall>r\<in>set outs. table_run r (g' r)" "parts_apart (map g' outs)" "concat (map g' outs) = retained F bt None es"
    and bt: "bt \<longrightarrow> Suc out_ix = length (levels ?v)" and F: "readable_seq F" and sv: "\<forall>mx. db_floor db \<le> mx \<longrightarrow> served F es mx"
    using j unfolding job_ok.simps by (elim conjE) (rule merged_outputs [OF v ch _ fo])
  note cg = version_run_cong [OF old]
  have v: "version_run g' ?v" and nf: "newest_first (?N @ version_entries g' ?v)" and fl: "db_floor db' = db_floor db"
    using r c by (simp_all add: db_rep_def cg core_def db_floor_def SmallestSnapshotSeq_def)
  have dn: "distinct (map num_of outs)" and dj: "num_of ` set outs \<inter> num_of ` set (version_files ?v) = {}" using fo by (simp_all add: fresh_outputs_def)
  have nv: "?v' = compacted_version as bs src out_ix outs ?v" using c by (simp add: core_def)
  have oe: "set (concat (map g' outs)) \<subseteq> set (concat (map g' (as @ bs)))" using retained_subset [of F bt None es] unfolding o(3) es(2) .
  note sh = compacted_shape [OF v ch o(1,2) oe dn dj, folded nv]
  note an = compacted_answers [OF v ch es o dn dj bt nf, folded nv]
  have "answers_history (db_floor db') (M @ I @ version_entries g' ?v') ws"
    using r keeps_found [OF an(3) [OF _ F]] sv fl unfolding db_rep_def answers_history_def cg [symmetric] append_assoc by simp
  moreover have "seqs_ok db' (M @ I @ version_entries g' ?v') ws" using r an(2) c by (auto simp: db_rep_def seqs_ok_def cg core_def)
  moreover have "numbers_ok db'" using r sh(2) fo c by (auto simp: db_rep_def numbers_ok_def fresh_outputs_def core_def)
  moreover have "mem db' = mem db" "imm db' = imm db" using c by (simp_all add: core_def)
  ultimately have "db_rep g' M I ws db'" using r sh(1) an(1) unfolding db_rep_def by simp
  then show ?thesis by blast
qed

end
