(* ===== verification/DbSteps.thy ===== *)
theory DbSteps
  imports DbInvariant
begin

text \<open>
  The database as a whole: the states its operations reach, in any order and with the
  background work cut into its critical sections, and that each step keeps the invariant of
  theory \<open>DbInvariant\<close>.
\<close>

subsection \<open>The steps of the database\<close>

text \<open>
  A state is the database, what the background thread has built, and the history. A write
  waits for room (\<^verbatim>\<open>Put\<close> rotates first when the memtable is full), and the background work runs
  between its critical sections; sequence and file numbers do not wrap, and a table stays
  below 4 GiB, the reach of its 32-bit offsets.
\<close>

type_synonym db_state = "DB \<times> Job \<times> (u64 \<times> wop) list"

inductive db_step :: "db_state \<Rightarrow> db_state \<Rightarrow> bool" where
  step_write: "WriteEntry coins type k v c db = Some (s, db') \<Longrightarrow> separate_value type k v db = Some (s1, stored, db1) \<Longrightarrow>
     short_key k \<Longrightarrow> next_seq db + 1 < 2 ^ 56 \<Longrightarrow>
     db_step (db, j, ws) (db', j, if ok s then ws @ [(next_seq db, wop_of type k stored)] else ws)"
| step_rotate: "RotateForFlush db = Some (s, db') \<Longrightarrow> imm db = None \<Longrightarrow> 0 < approximate_size (mem db) \<Longrightarrow> room_for 2 db \<Longrightarrow>
     db_step (db, j, ws) (db', j, ws)"
| step_snapshot: "GetSnapshot db = (s, db') \<Longrightarrow> db_step (db, j, ws) (db', j, ws)"
| step_release: "db_step (db, j, ws) (ReleaseSnapshot h db, j, ws)"
| step_get: "DB_Get hash k sn db = Some (s, v, db') \<Longrightarrow> db_step (db, j, ws) (db', j, ws)"
| step_scan: "DB_Scan hash first fin sn db = Some (s, calls, db') \<Longrightarrow> db_step (db, j, ws) (db', j, ws)"
| step_flush_built: "imm db = Some m \<Longrightarrow> FlushBuild m (imm_sst_number db) db = Some (Inr r, db') \<Longrightarrow> small_table r \<Longrightarrow>
     db_step (db, NoJob, ws) (db', Flushed r, ws)"
| step_flush_failed: "imm db = Some m \<Longrightarrow> FlushBuild m (imm_sst_number db) db = Some (Inl s, db') \<Longrightarrow>
     db_step (db, NoJob, ws) (db'\<lparr>last_error := s\<rparr>, NoJob, ws)"
| step_flush_installed: "FlushInstall r (imm_log_number db) db = (s, db') \<Longrightarrow> ok s \<Longrightarrow>
     db_step (db, Flushed r, ws) (db'\<lparr>imm := None\<rparr>, NoJob, ws)"
| step_compact_built: "imm db = None \<Longrightarrow> CompactionNeeded db \<Longrightarrow> PickCompaction db = (as, bs, src, out_ix) \<Longrightarrow> as \<noteq> [] \<Longrightarrow>
     CompactBuild as bs out_ix db = Some (Inr outs, db') \<Longrightarrow> \<forall>r\<in>set outs. small_table r \<Longrightarrow> room_for (length outs) db \<Longrightarrow>
     db_step (db, NoJob, ws) (db', Merged as bs src out_ix outs, ws)"
| step_compact_failed: "imm db = None \<Longrightarrow> CompactionNeeded db \<Longrightarrow> PickCompaction db = (as, bs, src, out_ix) \<Longrightarrow> as \<noteq> [] \<Longrightarrow>
     CompactBuild as bs out_ix db = Some (Inl s, db') \<Longrightarrow> next_file_number db \<le> next_file_number db' \<Longrightarrow>
     db_step (db, NoJob, ws) (db'\<lparr>last_error := s, compaction_disabled := True\<rparr>, NoJob, ws)"
| step_compact_installed: "CompactInstall as bs src out_ix outs db = (s, db') \<Longrightarrow>
     db_step (db, Merged as bs src out_ix outs, ws) (if ok s then db' else db'\<lparr>last_error := s, compaction_disabled := True\<rparr>, NoJob, ws)"
| step_gc_rotated: "gc_rotate db = (x, db') \<Longrightarrow> room_for 1 db \<Longrightarrow> db_step (db, NoJob, ws) (db', NoJob, ws)"
| step_gc_retired: "gc_retire retired rewritten db = Some (s, db') \<Longrightarrow> db_step (db, NoJob, ws) (db', NoJob, ws)"

inductive_cases db_step_cases: "db_step (db, j, ws) (db', j', ws')"

definition db_inv :: "db_state \<Rightarrow> bool" where
  "db_inv st = (case st of (db, j, ws) \<Rightarrow> \<exists>g M I. db_rep g M I ws db \<and> job_ok g I db j)"

lemma job_ok_mono:
  assumes "job_ok g I db j" and "version db' = version db" and "imm db' = imm db" and "imm_sst_number db' = imm_sst_number db"
    and "next_file_number db \<le> next_file_number db'" and "db_floor db \<le> db_floor db'"
  shows "job_ok g I db' j"
proof (cases j)
  case (Merged as bs src out_ix outs)
  have "merged_ok g db ins o' os \<Longrightarrow> merged_ok g db' ins o' os" for ins o' os
    using order_trans [OF assms(6)] assms(2) unfolding merged_ok_def by metis
  moreover have "fresh_outputs db outs \<Longrightarrow> fresh_outputs db' outs"
    using less_le_trans [OF _ assms(5)] assms(2-4) by (auto simp: fresh_outputs_def)
  ultimately show ?thesis using assms(1,2) Merged by simp
qed (use assms in simp_all)

lemma db_inv_core:
  assumes "db_inv (db, j, ws)" and "core db' = core db"
  shows "db_inv (db', j, ws)"
proof -
  obtain g M I where r: "db_rep g M I ws db" "job_ok g I db j" using assms(1) by (auto simp: db_inv_def)
  have "job_ok g I db' j" by (rule job_ok_mono [OF r(2)]) (use assms(2) in \<open>simp_all add: core_def db_floor_def SmallestSnapshotSeq_def\<close>)
  then show ?thesis using r(1) db_rep_core [OF assms(2)] by (auto simp: db_inv_def)
qed


lemma DB_Get_core: "DB_Get hash k sn db = Some (s, v, db') \<Longrightarrow> core db' = core db"
  by (auto simp: DB_Get_def split: option.splits prod.splits Lookup.splits dest: MaybeResolvePointer_core)

lemma db_scan_loop_core:
  assumes "db_scan_loop hash fin mx it cur calls db = Some r"
  shows "core (snd (snd r)) = core db"
proof (rule db_scan_loop.raw_induct [of "\<lambda>hash fin mx it cur calls db r. core (snd (snd r)) = core db", OF _ assms], goal_cases)
  case (1 loop hash fin mx it cur calls db r)
  let ?user = "ExtractUserKey (mg_key it)"
  obtain s v db1 where m: "MaybeResolvePointer hash (mg_value it) db = (s, v, db1)" by (metis prod_cases3)
  note c = MaybeResolvePointer_core [OF m]
  have nx: "core (snd (snd r)) = core d" if "Option.bind (mg_Next it) (\<lambda>it'. loop hash fin mx it' cu cl d) = Some r" for cu cl d
    using that 1(1) unfolding bind_eq_Some_conv by blast
  show ?case using 1(2) nx [of _ _ db1] nx [of _ _ db] c unfolding Let_def m by (auto split: if_splits)
qed

lemma DB_Scan_core: "DB_Scan hash first fin sn db = Some (s, calls, db') \<Longrightarrow> core db' = core db"
  by (auto simp: DB_Scan_def bind_eq_Some_conv dest!: db_scan_loop_core)

lemma gc_rotate_core:
  assumes "gc_rotate db = (x, db')"
  shows "core db' = core db \<or> core db' = core (db\<lparr>next_file_number := next_file_number db + 1\<rparr>)"
proof (cases "snapshots db \<noteq> []")
  case True
  then show ?thesis using assms by (simp add: gc_rotate_def)
next
  case False
  obtain y w where o: "VLog_Open (db_dir db) (next_file_number db) (world db) = (y, w)" by (metis surj_pair)
  show ?thesis
  proof (cases y)
    case (Inr vl)
    let ?d = "db\<lparr>world := w, next_file_number := next_file_number db + 1, vlogs := put_vlog (next_file_number db) vl (vlogs db), vlog_current := Some (next_file_number db)\<rparr>"
    obtain ms db1 where w: "WriteManifest ?d = (ms, db1)" by (metis surj_pair)
    have "core db1 = core (db\<lparr>next_file_number := next_file_number db + 1\<rparr>)" using WriteManifest_core [OF w] by (simp add: core_def)
    then show ?thesis using assms False o Inr w by (auto simp: gc_rotate_def Let_def core_def split: if_splits)
  qed (use assms False o in \<open>auto simp: gc_rotate_def Let_def\<close>)
qed

lemma unlink_vlogs_core [simp]: "core (unlink_vlogs vls db) = core db"
  by (induction vls arbitrary: db) (simp_all add: unlink_vlogs_def)

lemma ForceDurabilityLocked_core: "ForceDurabilityLocked db = Some (s, db') \<Longrightarrow> core db' = core db"
  by (auto simp: ForceDurabilityLocked_def split: if_splits dest: sync_ring_core sync_files_core)

lemma gc_retire_core:
  assumes "gc_retire retired rewritten db = Some (s, db')"
  shows "core db' = core db"
proof (cases "snapshots db \<noteq> []")
  case True
  then show ?thesis using assms by (simp add: gc_retire_def)
next
  case False
  obtain d db1 where f: "ForceDurabilityLocked db = Some (d, db1)" using assms False by (auto simp: gc_retire_def split: option.splits)
  let ?d = "db1\<lparr>vlogs := filter (\<lambda>x. fst x \<notin> vl_number ` set retired) (vlogs db1), vlog_gc_floor := 2 * rewritten\<rparr>"
  obtain ms db2 where w: "WriteManifest ?d = (ms, db2)" by (metis surj_pair)
  have c: "core db1 = core db" "core db2 = core db"
    using ForceDurabilityLocked_core [OF f] WriteManifest_core [OF w] by (simp_all add: core_def)
  have u: "core (unlink_vlogs retired db2) = core db" using c by simp
  have core1: "core (d\<lparr>vlogs := a\<rparr>) = core d" "core (d\<lparr>stats_vlog_gcs := b\<rparr>) = core d" for d a b by (simp_all add: core_def)
  have "gc_retire retired rewritten db = (if \<not> ok d then Some (d, db1)
      else if \<not> ok ms then Some (ms, db2\<lparr>vlogs := fold (\<lambda>vl. put_vlog (vl_number vl) vl) retired (vlogs db2)\<rparr>)
      else Some (Ok, (unlink_vlogs retired db2)\<lparr>stats_vlog_gcs := stats_vlog_gcs (unlink_vlogs retired db2) + 1\<rparr>))" (is "_ = ?r")
    unfolding gc_retire_def if_not_P [OF False] f Let_def option.case prod.case w ..
  with assms have r: "Some (s, db') = ?r" by (simp only:)
  show ?thesis
  proof (cases "ok d")
    case d: True
    show ?thesis using r d c u by (cases "ok ms") (simp_all add: core1)
  qed (use r c in simp)
qed


subsection \<open>Every step keeps the invariant\<close>

lemma inv_write:
  assumes i: "db_inv (db, j, ws)" and w: "WriteEntry coins type k v c db = Some (s, db')" and sp: "separate_value type k v db = Some (s1, stored, db1)"
    and k: "short_key k" and lim: "next_seq db + 1 < 2 ^ 56"
  shows "db_inv (db', j, if ok s then ws @ [(next_seq db, wop_of type k stored)] else ws)"
proof (cases "ok s")
  case True
  obtain g M I where r: "db_rep g M I ws db" "job_ok g I db j" using i by (auto simp: db_inv_def)
  obtain mt where mt: "mem_insert coins (next_seq db) type k stored (mem db) = Some mt" and c: "core db' = core (db\<lparr>mem := mt, next_seq := next_seq db + 1\<rparr>)"
    using WriteEntry_core [OF w] True sp by auto
  obtain M' where M': "db_rep g M' I (ws @ [(next_seq db, wop_of type k stored)]) db'" using write_rep [OF r(1) k lim mt c] by blast
  have n: "0 < next_seq db" using r(1) by (simp add: db_rep_def seqs_ok_def)
  have "db_floor db \<le> db_floor db'"
    using le_db_floor [of "db_floor db" db] pred_word_less [OF n, of "db_floor db"] c by (auto simp: le_db_floor core_def)
  then have "job_ok g I db' j" using c by (intro job_ok_mono [OF r(2)]) (simp_all add: core_def)
  then show ?thesis using M' True by (auto simp: db_inv_def)
next
  case False
  then show ?thesis using db_inv_core [OF i] WriteEntry_core [OF w] by simp
qed

lemma inv_rotate:
  assumes i: "db_inv (db, j, ws)" and w: "RotateForFlush db = Some (s, db')" and im: "imm db = None" and sz: "0 < approximate_size (mem db)"
    and room: "room_for 2 db"
  shows "db_inv (db', j, ws)"
proof (cases "ok s")
  case True
  obtain g M I where r: "db_rep g M I ws db" "job_ok g I db j" using i by (auto simp: db_inv_def)
  have "I = []" using r(1) im by (simp add: db_rep_def)
  have c: "core db' = core (db\<lparr>imm := Some (mem db), mem := NewMemTable, imm_sst_number := next_file_number db + 1, next_file_number := next_file_number db + 2\<rparr>)"
    using RotateForFlush_core [OF w] True by simp
  have rep: "db_rep g [] M ws db'" using rotate_rep [OF _ im room sz c] r(1) \<open>I = []\<close> by simp
  have "job_ok g M db' j"
  proof (cases j)
    case (Merged as bs src out_ix outs)
    have lt: "next_file_number db < next_file_number db + 2" "next_file_number db < next_file_number db + 1"
      using room by (simp_all add: room_for_def word_less_nat_alt unat_word_ariths)
    have f: "db_floor db' = db_floor db" "version db' = version db" using c by (simp_all add: core_def db_floor_def SmallestSnapshotSeq_def)
    have "fresh_outputs db' outs"
      using r(2) Merged c order_less_trans [OF _ lt(1)] order_less_trans [OF _ lt(2)] by (fastforce simp: fresh_outputs_def core_def)
    moreover have "merged_ok g db' (as @ bs) out_ix outs" using r(2) Merged f by (simp add: merged_ok_def)
    ultimately show ?thesis using r(2) Merged f by simp
  qed (use r(2) im in simp_all)
  then show ?thesis using rep by (auto simp: db_inv_def)
next
  case False
  then show ?thesis using db_inv_core [OF i] RotateForFlush_core [OF w] by simp
qed

lemma inv_flush_install:
  assumes i: "db_inv (db, Flushed r, ws)" and f: "FlushInstall r n db = (s, db')" and "ok s"
  shows "db_inv (db'\<lparr>imm := None\<rparr>, NoJob, ws)"
proof -
  obtain g M I where rep: "db_rep g M I ws db" and j: "job_ok g I db (Flushed r)" using i by (auto simp: db_inv_def)
  let ?d = "db\<lparr>version := (version db)\<lparr>l0 := r # l0 (version db)\<rparr>\<rparr>"
  obtain ms db1 where w: "WriteManifest ?d = (ms, db1)" by (metis surj_pair)
  have "core db' = core ?d" using f w assms(3) WriteManifest_core [OF w] by (auto simp: FlushInstall_def split: if_splits)
  then have c: "core (db'\<lparr>imm := None\<rparr>) = core (db\<lparr>imm := None, version := (version db)\<lparr>l0 := r # l0 (version db)\<rparr>\<rparr>)" by (simp add: core_def)
  have "db_rep (g(r := I)) M [] ws (db'\<lparr>imm := None\<rparr>)" using j by (intro flush_rep [OF rep _ _ _ c]) auto
  then show ?thesis by (auto simp: db_inv_def)
qed

lemma inv_compact_install:
  assumes i: "db_inv (db, Merged as bs src out_ix outs, ws)" and f: "CompactInstall as bs src out_ix outs db = (s, db')"
  shows "db_inv (db', NoJob, ws)"
proof -
  obtain g M I where rep: "db_rep g M I ws db" and j: "job_ok g I db (Merged as bs src out_ix outs)" using i by (auto simp: db_inv_def)
  let ?d = "db\<lparr>version := compacted_version as bs src out_ix outs (version db)\<rparr>"
  obtain ms db1 where w: "WriteManifest ?d = (ms, db1)" by (metis surj_pair)
  have st: "core (x\<lparr>stats_compactions := y\<rparr>) = core x" for x y by (simp add: core_def)
  have "core db' = core ?d" using f w WriteManifest_core [OF w] by (auto simp: CompactInstall_def st split: if_splits)
  from install_rep [OF rep j this] show ?thesis by (auto simp: db_inv_def)
qed


lemma picked_chosen:
  assumes "db_rep g M I ws db" and "CompactionNeeded db" and "PickCompaction db = (as, bs, src, out_ix)" and "as \<noteq> []"
  shows "chosen (version db) as bs src out_ix"
proof -
  have "length (levels (version db)) = kMaxLevels - 1" using assms(1) by (simp add: db_rep_def version_run_def)
  then have "levels (version db) \<noteq> []" by (auto simp: kMaxLevels_def)
  then show ?thesis using PickCompaction_chosen assms(2-4) by blast
qed

lemma CompactBuild_built:
  assumes r: "db_rep g M I ws db" and c: "chosen (version db) as bs src out_ix" and b: "CompactBuild as bs out_ix db = Some (x, db')"
  shows "core db' = core (db\<lparr>next_file_number := next_file_number db'\<rparr>)"
proof -
  have v: "version_run g (version db)" and nf: "newest_first (version_entries g (version db))" using r by (auto simp: db_rep_def newest_first_append)
  note cd = chosen_distinct [OF v c]
  obtain es where es: "sorted_run es" "mset es = mset (concat (map g (as @ bs)))" using sort_run [OF distinct_files [OF v nf cd]] by blast
  have "\<forall>r\<in>set (as @ bs). table_run r (g r)" using v cd(2) by (auto simp: version_run_def)
  then have runs: "list_all2 table_run (as @ bs) (map g (as @ bs))" by (simp only: list_all2_map2 list_all2_same)
  obtain y dby where y: "CompactBuild as bs out_ix db = Some (y, dby)" "only_built db dby"
    by (rule CompactBuild_files [OF runs es, where out_ix = out_ix and db = db]) (rule that, assumption+)
  then have "only_built db db'" using b by simp
  then show ?thesis by (cases db, cases db') (simp add: only_built_def core_def)
qed

lemma inv_snapshot:
  assumes i: "db_inv (db, j, ws)" and s: "GetSnapshot db = (s, db')"
  shows "db_inv (db', j, ws)"
proof -
  obtain g M I where r: "db_rep g M I ws db" "job_ok g I db j" using i by (auto simp: db_inv_def)
  note g = GetSnapshot_rep [OF r(1) s]
  have "job_ok g I db' j" using s g(2) by (intro job_ok_mono [OF r(2)]) (auto simp: GetSnapshot_def Let_def)
  then show ?thesis using g(1) by (auto simp: db_inv_def)
qed

lemma inv_release:
  assumes i: "db_inv (db, j, ws)"
  shows "db_inv (ReleaseSnapshot h db, j, ws)"
proof -
  obtain g M I where r: "db_rep g M I ws db" "job_ok g I db j" using i by (auto simp: db_inv_def)
  note g = ReleaseSnapshot_rep [OF r(1), of h]
  have "job_ok g I (ReleaseSnapshot h db) j" using g(2) by (intro job_ok_mono [OF r(2)]) (auto simp: ReleaseSnapshot_def)
  then show ?thesis using g(1) by (auto simp: db_inv_def)
qed

lemma inv_flush_build:
  assumes i: "db_inv (db, NoJob, ws)" and m: "imm db = Some m" and b: "FlushBuild m (imm_sst_number db) db = Some (x, db')"
  shows "db_inv (db'\<lparr>last_error := s\<rparr>, NoJob, ws)" "x = Inr r \<Longrightarrow> small_table r \<Longrightarrow> db_inv (db', Flushed r, ws)"
proof -
  obtain g M I where rep: "db_rep g M I ws db" using i by (auto simp: db_inv_def)
  have h: "holds_run m I" "I \<noteq> []" using rep m by (simp_all add: db_rep_def)
  note f = FlushBuild_run [OF b h]
  have "core (db'\<lparr>last_error := s\<rparr>) = core db" using f(1) by (simp add: core_def)
  then show "db_inv (db'\<lparr>last_error := s\<rparr>, NoJob, ws)" using db_inv_core i by blast
  assume "x = Inr r" "small_table r"
  then have "job_ok g I db' (Flushed r)" using f m by (simp add: core_def)
  then show "db_inv (db', Flushed r, ws)" using rep db_rep_core [OF f(1)] by (auto simp: db_inv_def)
qed

lemma inv_compact_build:
  assumes i: "db_inv (db, NoJob, ws)" and p: "imm db = None" "CompactionNeeded db" "PickCompaction db = (as, bs, src, out_ix)" "as \<noteq> []"
    and b: "CompactBuild as bs out_ix db = Some (x, db')"
  shows "next_file_number db \<le> next_file_number db' \<Longrightarrow> db_inv (db'\<lparr>last_error := s, compaction_disabled := True\<rparr>, NoJob, ws)"
    "x = Inr outs \<Longrightarrow> \<forall>r\<in>set outs. small_table r \<Longrightarrow> room_for (length outs) db \<Longrightarrow> db_inv (db', Merged as bs src out_ix outs, ws)"
proof -
  obtain g M I where rep: "db_rep g M I ws db" using i by (auto simp: db_inv_def)
  note c = picked_chosen [OF rep p(2-4)]
  have "core (db'\<lparr>last_error := s, compaction_disabled := True\<rparr>) = core (db\<lparr>next_file_number := next_file_number db'\<rparr>)"
    using CompactBuild_built [OF rep c b] by (simp add: core_def)
  from db_rep_numbers [OF rep this] show "db_inv (db'\<lparr>last_error := s, compaction_disabled := True\<rparr>, NoJob, ws)"
    if "next_file_number db \<le> next_file_number db'" using that by (auto simp: db_inv_def)
  assume "x = Inr outs" "\<forall>r\<in>set outs. small_table r" "room_for (length outs) db"
  with CompactBuild_rep [OF rep c p(1)] b show "db_inv (db', Merged as bs src out_ix outs, ws)"
    by (auto simp: db_inv_def simp del: job_ok.simps)
qed

lemma inv_gc_rotate:
  assumes i: "db_inv (db, NoJob, ws)" and g: "gc_rotate db = (x, db')" and room: "room_for 1 db"
  shows "db_inv (db', NoJob, ws)"
  using gc_rotate_core [OF g]
proof
  assume "core db' = core db"
  then show ?thesis using db_inv_core [OF i] by blast
next
  assume c: "core db' = core (db\<lparr>next_file_number := next_file_number db + 1\<rparr>)"
  obtain g M I where rep: "db_rep g M I ws db" using i by (auto simp: db_inv_def)
  have le: "next_file_number db \<le> next_file_number db + 1" using room_for_less [OF room, of 0] by simp
  from db_rep_numbers(1) [OF rep c le] show ?thesis by (auto simp: db_inv_def)
qed

lemma db_step_inv: "db_step st st' \<Longrightarrow> db_inv st \<Longrightarrow> db_inv st'"
proof (induction rule: db_step.induct)
  case (step_flush_built db m r db' ws)
  then show ?case using inv_flush_build(2) by blast
next
  case (step_compact_built db as bs src out_ix outs db' ws)
  then show ?case using inv_compact_build(2) by blast
next
  case (step_compact_installed as bs src out_ix outs db s db' ws)
  have "core (db'\<lparr>last_error := s, compaction_disabled := True\<rparr>) = core db'" by (simp add: core_def)
  then show ?case using inv_compact_install [OF step_compact_installed(2,1)] db_inv_core by simp
qed (blast intro: inv_write inv_rotate inv_snapshot inv_release inv_flush_build(1) inv_flush_install inv_compact_build(1) inv_gc_rotate
       db_inv_core DB_Get_core DB_Scan_core gc_retire_core)+

lemma db_steps_inv: "db_step\<^sup>*\<^sup>* st st' \<Longrightarrow> db_inv st \<Longrightarrow> db_inv st'"
  by (induction rule: rtranclp_induct) (auto intro: db_step_inv)

end
