(* ===== verification/DbOpen.thy ===== *)
theory DbOpen
  imports DbCompact
begin

text \<open>
  Opening a database (\<^verbatim>\<open>DB::Open\<close>, \<^verbatim>\<open>DB::RemoveOrphanFiles\<close> and the destructor in
  \<^verbatim>\<open>src/db.cpp\<close>): the MANIFEST, its tables sorted into levels, the value logs, the sweep of
  leftovers and the replay of every log from the floor on. \<open>rdir\<close> is what \<^verbatim>\<open>readdir\<close> lists of a
  directory, in the order it lists it. The start of the background thread has no counterpart.
\<close>

subsection \<open>An empty database\<close>

definition NewDB :: "path \<Rightarrow> Options \<Rightarrow> World \<Rightarrow> DB" where
  "NewDB dir opts w =
     \<lparr>db_dir = dir, world = w, log_fd = 0, log_offset = 0, ring = None, wal_size = 0, wal_token = 0, wal_pending = [], wal_ring_error = Ok,
      mem = NewMemTable, imm = None, imm_log_number = 0, imm_sst_number = 0, version = \<lparr>l0 = [], levels = replicate (kMaxLevels - 1) []\<rparr>,
      next_seq = 1, db_options = opts, unsynced_bytes = 0, wal_truncated = False, snapshots = [], next_snapshot = 0,
      next_file_number = 1, log_number = 0, vsep_enabled = False, vsep_threshold = 0, vlog_gc_size = 0, vlogs = [], vlog_current = None,
      vlog_gc_floor = 0, vlog_gc_active = False, vlog_cache = NewLruCache 16 (push_bit 20 32),
      stats_wal_bytes = 0, stats_sst_bytes = 0, stats_vlog_bytes = 0, stats_user_bytes = 0, stats_flushes = 0, stats_compactions = 0,
      stats_vlog_gcs = 0, compaction_disabled = False, last_error = Ok\<rparr>"

subsection \<open>MANIFEST and tables\<close>

definition read_manifest :: "path \<Rightarrow> World \<Rightarrow> (Status + ManifestState) \<times> World" where
  "read_manifest dir w =
     (if names w (ManifestPath dir) = None then (Inr (NewManifestState\<lparr>ms_log_number := 1\<rparr>), w)
      else case ParseManifest (ManifestPath dir) w of
             (None, w1) \<Rightarrow> (Inl (Corruption (str ''MANIFEST is corrupt'')), w1)
           | (Some ms, w1) \<Rightarrow>
               if has_log_number ms then (Inr ms, w1) else (Inl (Corruption (str ''MANIFEST is corrupt'')), w1))"

fun open_tables :: "FileMeta list \<Rightarrow> DB \<Rightarrow> (Status + TableRef list) \<times> DB" where
  "open_tables [] db = (Inr [], db)"
| "open_tables (m # ms) db =
     (case Table_Open (file_number m) (SstPath (file_number m) db) (world db) of
        (Inl s, w) \<Rightarrow> (Inl (Corruption (str ''cannot open SST '' @ SstFileName (file_number m) @ str '': '' @ message s)), db\<lparr>world := w\<rparr>)
      | (Inr t, w) \<Rightarrow>
          (case open_tables ms (db\<lparr>world := w\<rparr>) of
             (Inl s, db1) \<Rightarrow> (Inl s, db1)
           | (Inr rs, db1) \<Rightarrow> (Inr (\<lparr>tr_table = t, tr_meta = m\<rparr> # rs), db1)))"

text \<open>L0 has the newest file first, a level below is in key order.\<close>

definition assemble_version :: "TableRef list \<Rightarrow> Version" where
  "assemble_version rs =
     \<lparr>l0 = rev (sort_key (\<lambda>r. file_number (tr_meta r)) (filter (\<lambda>r. flevel (tr_meta r) = 0) rs)),
      levels = map (\<lambda>i. sort_key (\<lambda>r. t_smallest_user_key (tr_table r)) (filter (\<lambda>r. unat (flevel (tr_meta r)) = Suc i) rs))
        [0..<kMaxLevels - 1]\<rparr>"

subsection \<open>Value logs\<close>

fun open_vlogs :: "u64 list \<Rightarrow> DB \<Rightarrow> Status \<times> DB" where
  "open_vlogs [] db = (Ok, db)"
| "open_vlogs (n # ns) db =
     (case VLog_Open (db_dir db) n (world db) of
        (Inl s, w) \<Rightarrow> (IOError (str ''cannot open vlog '' @ VLog_FileName n @ str '': '' @ message s), db\<lparr>world := w\<rparr>)
      | (Inr vl, w) \<Rightarrow> open_vlogs ns (db\<lparr>world := w, vlogs := vlogs db @ [(n, vl)]\<rparr>))"

definition vlog_on_disk :: "bytes list \<Rightarrow> bool" where
  "vlog_on_disk entries = list_ex (\<lambda>name. ParseNumberedFile name (str ''.vlog'') \<noteq> None) entries"

definition setup_separation :: "(path \<Rightarrow> World \<Rightarrow> bytes list) \<Rightarrow> u64 list \<Rightarrow> DB \<Rightarrow> Status \<times> u64 list \<times> DB" where
  "setup_separation rdir named db =
     (let live = remdups (sort named);
          on = enable_value_separation (db_options db)
      in case call (world db) (\<lambda>w. ((), w)) of
           (dirp, w) \<Rightarrow>
             let entries = (case dirp of Inl _ \<Rightarrow> [] | Inr _ \<Rightarrow> rdir (db_dir db) w);
                 db1 = db\<lparr>world := w\<rparr>
             in if vlog_on_disk entries \<and> \<not> on then
                  (IOError (str ''directory contains value logs but enable_value_separation is off; reopen with the switch on to avoid orphaning them''), live, db1)
                else if live \<noteq> [] \<and> \<not> on then
                  (IOError (str ''MANIFEST names value logs but enable_value_separation is off; reopen with the switch on to avoid orphaning them''), live, db1)
                else if on then
                  let live1 = (if live = [] then [1] else live)
                  in case open_vlogs live1 db1 of
                       (s, db2) \<Rightarrow>
                         if \<not> ok s then (s, live1, db2)
                         else (Ok, live1, db2\<lparr>vlog_current := Some (last live1), vsep_enabled := True,
                                 vlog_gc_size := max (opt_vlog_gc_size (db_options db)) 65536,
                                 vsep_threshold := max (value_separation_threshold (db_options db)) 64\<rparr>)
                else (Ok, live, db1))"

subsection \<open>Leftovers\<close>

definition orphan :: "u64 set \<Rightarrow> u64 \<Rightarrow> u64 set \<Rightarrow> bytes \<Rightarrow> bool" where
  "orphan live_sst log_floor live_vlogs name \<longleftrightarrow>
     name = kManifestTmpFileName
     \<or> (case ParseNumberedFile name (str ''.sst'') of Some n \<Rightarrow> n \<notin> live_sst | None \<Rightarrow> False)
     \<or> (case ParseNumberedFile name (str ''.log'') of Some n \<Rightarrow> n < log_floor | None \<Rightarrow> False)
     \<or> (case ParseNumberedFile name (str ''.vlog'') of Some n \<Rightarrow> n \<notin> live_vlogs | None \<Rightarrow> False)"

definition RemoveOrphanFiles :: "(path \<Rightarrow> World \<Rightarrow> bytes list) \<Rightarrow> FileMeta list \<Rightarrow> u64 \<Rightarrow> u64 set \<Rightarrow> DB \<Rightarrow> DB" where
  "RemoveOrphanFiles rdir live log_floor live_vlogs db =
     (case call (world db) (\<lambda>w. ((), w)) of
        (Inl _, w) \<Rightarrow> db\<lparr>world := w\<rparr>
      | (Inr _, w) \<Rightarrow>
          db\<lparr>world := fold (\<lambda>name w. if orphan (file_number ` set live) log_floor live_vlogs name
                                     then unlink (db_dir db @ str ''/'' @ name) w else w) (rdir (db_dir db) w) w\<rparr>)"

subsection \<open>Replay\<close>

definition list_logs :: "(path \<Rightarrow> World \<Rightarrow> bytes list) \<Rightarrow> u64 \<Rightarrow> DB \<Rightarrow> (Status + u64 list) \<times> DB" where
  "list_logs rdir log_floor db =
     (case call (world db) (\<lambda>w. ((), w)) of
        (Inl _, w) \<Rightarrow> (Inl (IOError (str ''cannot read directory '' @ db_dir db)), db\<lparr>world := w\<rparr>)
      | (Inr _, w) \<Rightarrow>
          let ns = sort (filter (\<lambda>n. n \<ge> log_floor) (List.map_filter (\<lambda>name. ParseNumberedFile name (str ''.log'')) (rdir (db_dir db) w)))
          in (Inr (if ns = [] then [log_floor] else ns), db\<lparr>world := w\<rparr>))"

text \<open>
  The records of one log: the memtable, the largest sequence number and the end of the last
  record applied. The second component says where the log is to be cut, with the text of the
  error if that fails.
\<close>

function replay_loop :: "(nat \<Rightarrow> nat list) \<Rightarrow> Reader \<Rightarrow> MemTable \<times> u64 \<times> nat \<Rightarrow> ((MemTable \<times> u64) \<times> (string \<times> nat) option \<times> Reader) option" where
  "replay_loop coins r (mt, max_seq, applied_end) = (case ReadRecord r of
      (RecEof, r1) \<Rightarrow> Some ((mt, max_seq), None, r1)
    | (RecCorrupt off, r1) \<Rightarrow> Some ((mt, max_seq), Some (''cannot truncate torn log tail: '', off), r1)
    | (RecOk rec, r1) \<Rightarrow>
        (case ParseRecord rec of
           None \<Rightarrow> None
         | Some None \<Rightarrow> Some ((mt, max_seq), Some (''cannot truncate malformed log record: '', applied_end), r1)
         | Some (Some (seq, type, k, v)) \<Rightarrow>
             (case mem_insert (coins (unat seq)) seq type k v mt of
                None \<Rightarrow> None
              | Some mt' \<Rightarrow> replay_loop coins r1 (mt', if seq > max_seq then seq else max_seq, last_good_end r1))))"
  by pat_completeness auto
termination by (relation "measure (\<lambda>(coins, r, st). reader_left r)") (auto dest!: ReadRecord_left [OF sym])

declare replay_loop.simps [simp del]

definition cut_log :: "nat \<Rightarrow> string \<times> nat \<Rightarrow> World \<Rightarrow> Status \<times> World" where
  "cut_log fd = (\<lambda>(what, off) w.
     (case ftruncate fd off w of
        (Inl e, w1) \<Rightarrow> (IOError (str what @ e), w1)
      | (Inr _, w1) \<Rightarrow>
          (case fsync fd w1 of
             (Inl e, w2) \<Rightarrow> (IOError (str what @ e), w2)
           | (Inr _, w2) \<Rightarrow> (Ok, w2))))"

fun replay_logs :: "(nat \<Rightarrow> nat list) \<Rightarrow> u64 list \<Rightarrow> u64 \<Rightarrow> DB \<Rightarrow> (Status \<times> u64 \<times> DB) option" where
  "replay_logs coins [] max_seq db = Some (Ok, max_seq, db)"
| "replay_logs coins (n # ns) max_seq db =
     (case open_creat (LogPath n db) (world db) of
        (Inl e, w) \<Rightarrow> Some (IOError (str ''cannot open log '' @ LogFileName n @ str '': '' @ e), max_seq, db\<lparr>world := w\<rparr>)
      | (Inr fd, w) \<Rightarrow>
          (case replay_loop coins (fd_reader fd w) (mem db, max_seq, 0) of
             None \<Rightarrow> None
           | Some ((mt, max_seq1), None, r) \<Rightarrow> replay_logs coins ns max_seq1 (db\<lparr>mem := mt, world := reader_done r w\<rparr>)
           | Some ((mt, max_seq1), Some c, r) \<Rightarrow>
               (case cut_log fd c (reader_done r w) of
                  (s, w1) \<Rightarrow>
                    if \<not> ok s then Some (s, max_seq1, db\<lparr>mem := mt, world := w1\<rparr>)
                    else replay_logs coins ns max_seq1 (db\<lparr>mem := mt, world := w1, wal_truncated := True\<rparr>))))"

subsection \<open>Open\<close>

text \<open>The ring and the descriptor of the newest log; the writer starts at the end of the file.\<close>

definition attach_log :: "DB \<Rightarrow> Status \<times> DB" where
  "attach_log db =
     (case (if enable_io_uring (db_options db) then Ring_Open 64 (world db) else (Inl Ok, world db)) of
        (x, w) \<Rightarrow>
          let db1 = db\<lparr>world := w, ring := (case x of Inl _ \<Rightarrow> None | Inr r \<Rightarrow> Some r)\<rparr>
          in case open_creat (LogPath (log_number db1) db1) w of
               (Inl e, w1) \<Rightarrow> (IOError (str ''cannot open log '' @ LogFileName (log_number db1) @ str '': '' @ e), db1\<lparr>world := w1\<rparr>)
             | (Inr fd, w1) \<Rightarrow>
                 let log_end = length (inodes w1 fd)
                 in (case SyncDir (db_dir db1) w1 of
                       (s, w2) \<Rightarrow>
                         (if ok s then Ok else IOError (str ''cannot sync db directory: '' @ message s),
                          db1\<lparr>world := w2, log_fd := fd, log_offset := log_end, wal_size := (if io_uring_active db1 then log_end else 0)\<rparr>)))"

definition max_number :: "u64 \<Rightarrow> u64 list \<Rightarrow> u64" where
  "max_number n ns = fold max ns n"

definition recover_logs :: "(nat \<Rightarrow> nat list) \<Rightarrow> u64 list \<Rightarrow> DB \<Rightarrow> ((Status + DB) \<times> World) option" where
  "recover_logs coins log_numbers db = (case replay_logs coins log_numbers 0 db of
      None \<Rightarrow> None
    | Some (s, max_seq, db1) \<Rightarrow>
        if \<not> ok s then Some (Inl s, world db1)
        else
          let seqs = map (\<lambda>r. largest_seq (tr_meta r)) (version_files (version db1))
          in case attach_log (db1\<lparr>next_seq := max_number max_seq seqs + 1\<rparr>) of
               (s1, db2) \<Rightarrow> Some (if \<not> ok s1 then Inl s1 else Inr db2, world db2))"

definition DB_Open :: "(path \<Rightarrow> World \<Rightarrow> bytes list) \<Rightarrow> (nat \<Rightarrow> nat list) \<Rightarrow> path \<Rightarrow> Options \<Rightarrow> World \<Rightarrow> ((Status + DB) \<times> World) option" where
  "DB_Open rdir coins dir opts w =
     (case call w (\<lambda>w. ((), w)) of
        (Inl e, w1) \<Rightarrow> Some (Inl (IOError (str ''cannot create directory '' @ dir @ str '': '' @ e)), w1)
      | (Inr _, w1) \<Rightarrow>
          (case read_manifest dir w1 of
             (Inl s, w2) \<Rightarrow> Some (Inl s, w2)
           | (Inr ms, w2) \<Rightarrow>
               (case open_tables (ms_files ms) (NewDB dir opts w2) of
                  (Inl s, db) \<Rightarrow> Some (Inl s, world db)
                | (Inr rs, db) \<Rightarrow>
                    (case setup_separation rdir (ms_vlogs ms) (db\<lparr>version := assemble_version rs\<rparr>) of
                       (s, live_vlogs, db1) \<Rightarrow>
                         if \<not> ok s then Some (Inl s, world db1)
                         else
                           (case list_logs rdir (ms_log_number ms) db1 of
                              (Inl s1, db2) \<Rightarrow> Some (Inl s1, world db2)
                            | (Inr log_numbers, db2) \<Rightarrow>
                                let db3 = RemoveOrphanFiles rdir (ms_files ms) (ms_log_number ms) (set live_vlogs) (db2\<lparr>log_number := last log_numbers\<rparr>);
                                    seen = max_number (ms_log_number ms) (map file_number (ms_files ms) @ (if vsep_enabled db3 then live_vlogs else []))
                                in recover_logs coins log_numbers (db3\<lparr>next_file_number := max seen (last log_numbers) + 1\<rparr>))))))"

text \<open>The destructor: what the ring still holds reaches the file; a failure has nowhere to go.\<close>

definition close_db :: "DB \<Rightarrow> World option" where
  "close_db db = (if io_uring_active db then map_option (\<lambda>(_, db1). world db1) (DrainWalRing db) else Some (world db))"

end
