(* ===== verification/DbHistory.thy ===== *)
theory DbHistory
  imports DbSteps DbOpen
begin

text \<open>
  What clients of the database see: a database opened on an empty directory starts with the
  empty history, and every read of every state reached from there is a read of the history.
\<close>

subsection \<open>Opening an empty directory\<close>

text \<open>\<^verbatim>\<open>readdir\<close> lists the two dot entries and names that exist, each once.\<close>

definition lists_existing :: "(path \<Rightarrow> World \<Rightarrow> bytes list) \<Rightarrow> bool" where
  "lists_existing rdir \<longleftrightarrow> (\<forall>dir w. distinct (rdir dir w) \<and> (\<forall>name\<in>set (rdir dir w).
     name = str ''.'' \<or> name = str ''..'' \<or> (0x2F \<notin> set name \<and> names w (dir @ str ''/'' @ name) \<noteq> None)))"

definition empty_dir :: "path \<Rightarrow> World \<Rightarrow> bool" where
  "empty_dir dir w \<longleftrightarrow> (\<forall>name. 0x2F \<notin> set name \<longrightarrow> names w (dir @ str ''/'' @ name) = None)"

definition no_logs :: "path \<Rightarrow> World \<Rightarrow> bool" where
  "no_logs dir w \<longleftrightarrow> (\<forall>name n. 0x2F \<notin> set name \<and> ParseNumberedFile name (str ''.log'') = Some n
     \<longrightarrow> names w (dir @ str ''/'' @ name) = None)"

definition blank :: "path \<Rightarrow> DB \<Rightarrow> bool" where
  "blank dir db \<longleftrightarrow> db_dir db = dir \<and> mem db = NewMemTable \<and> imm db = None \<and> snapshots db = [] \<and> ring db = None
     \<and> version db = \<lparr>l0 = [], levels = replicate (kMaxLevels - 1) []\<rparr>"

lemma blank_world [simp]: "blank dir (db\<lparr>world := w\<rparr>) = blank dir db"
  by (simp add: blank_def)

lemma call_id: "call w (\<lambda>w. ((), w)) = (x, w') \<Longrightarrow> same w w'"
  by (cases rule: call_cases [of w "\<lambda>w. ((), w)"]) auto

lemma open_creat_cases:
  assumes "open_creat p w = (x, w')"
  shows "(\<exists>e. x = Inl e) \<and> same w w' \<or> (\<exists>i. x = Inr i \<and> names w p = Some i \<and> same w w')
    \<or> (\<exists>i. x = Inr i \<and> names w p = None \<and> names w' = (names w)(p \<mapsto> i) \<and> inodes w' i = [])"
proof (cases rule: call_cases [of w "\<lambda>w. case names w p of Some i \<Rightarrow> (i, w) | None \<Rightarrow> create_file p w"])
  case (2 w1)
  then show ?thesis using assms same_simps(3) [OF 2(2)]
    by (cases "names w p") (auto simp: open_creat_def create_file_def set_names_def set_inode_def)
qed (use assms in \<open>auto simp: open_creat_def\<close>)

lemma fmt06_1: "fmt06 1 = [48, 48, 48, 48, 48, 49]"
  by (simp add: fmt06_def digits.simps [of "Suc 0"] numeral_eq_Suc)

lemma log_parses: "ParseNumberedFile (LogFileName n) (str ''.log'') = Some n"
  by (simp add: LogFileName_def fmt06_parses del: str_Cons)

lemma vlog_not_log: "ParseNumberedFile (VLog_FileName n) (str ''.log'') = None"
  by (rule ParseNumberedFile_other) (simp add: VLog_FileName_def)

lemma dots_not_log: "ParseNumberedFile (str ''.'') (str ''.log'') = None" "ParseNumberedFile (str ''..'') (str ''.log'') = None"
  by (simp_all add: ParseNumberedFile_def)

lemma no_logs_names: "no_logs dir w \<Longrightarrow> (\<And>p. names w' p \<noteq> None \<Longrightarrow> names w p \<noteq> None) \<Longrightarrow> no_logs dir w'"
  unfolding no_logs_def by blast

lemma no_logs_same: "no_logs dir w \<Longrightarrow> same w w' \<Longrightarrow> no_logs dir w'"
  by (simp add: no_logs_def same_simps(3))

lemma empty_no_logs: "empty_dir dir w \<Longrightarrow> no_logs dir w"
  by (simp add: empty_dir_def no_logs_def)

lemma VLog_Open_no_logs:
  assumes "VLog_Open dir n w = (x, w')" and "no_logs dir w"
  shows "no_logs dir w'"
proof -
  let ?p = "dir @ str ''/'' @ VLog_FileName n"
  obtain y where o: "open_creat ?p w = (y, w')"
    using assms(1) by (auto simp: VLog_Open_def Let_def split: prod.splits sum.splits)
  have "names w' = names w \<or> (\<exists>i. names w' = (names w)(?p \<mapsto> i))"
    using open_creat_cases [OF o] by (auto dest: same_simps(3))
  then show ?thesis using assms(2) vlog_not_log [of n] by (auto simp: no_logs_def)
qed

lemma list_logs_none:
  assumes "lists_existing rdir" and "no_logs dir w" and "db_dir db = dir" "world db = w" and "list_logs rdir fl db = (Inr ns, db')"
  shows "ns = [fl]" "\<exists>w'. same w w' \<and> db' = db\<lparr>world := w'\<rparr>"
proof -
  obtain x w1 where c: "call w (\<lambda>w. ((), w)) = (x, w1)" by (metis surj_pair)
  have s: "same w w1" by (rule call_id [OF c])
  have "ParseNumberedFile name (str ''.log'') = None" if "name \<in> set (rdir dir w1)" for name
  proof (rule ccontr)
    assume p: "ParseNumberedFile name (str ''.log'') \<noteq> None"
    then have "name \<noteq> str ''.''" "name \<noteq> str ''..''" using dots_not_log by (auto simp del: str_Cons)
    then have n: "0x2F \<notin> set name" "names w1 (dir @ str ''/'' @ name) \<noteq> None" using assms(1) that unfolding lists_existing_def by blast+
    obtain n where "ParseNumberedFile name (str ''.log'') = Some n" using p by blast
    then have "names w (dir @ str ''/'' @ name) = None" using assms(2) n(1) unfolding no_logs_def by blast
    then show False using n(2) same_simps(3) [OF s] by simp
  qed
  then have "List.map_filter (\<lambda>name. ParseNumberedFile name (str ''.log'')) (rdir dir w1) = []"
    by (simp add: List.map_filter_def filter_empty_conv)
  then show "ns = [fl]" "\<exists>w'. same w w' \<and> db' = db\<lparr>world := w'\<rparr>"
    using assms(3-5) c s by (auto simp: list_logs_def split: sum.splits)
qed

lemma unlink_names: "names (unlink p w) q \<noteq> None \<Longrightarrow> names w q \<noteq> None"
proof (cases rule: call_cases [of w "\<lambda>w. ((), if names w p = None then w else set_names ((names w)(p := None)) w)"])
  case (2 w')
  assume "names (unlink p w) q \<noteq> None"
  then show ?thesis using 2 same_simps(3) [OF 2(2)] by (auto simp: unlink_def set_names_def split: if_splits)
qed (auto simp: unlink_def same_simps(3))

lemma RemoveOrphan_no_logs:
  assumes "no_logs dir (world db)"
  shows "no_logs dir (world (RemoveOrphanFiles rdir live fl vls db))" "\<exists>w. RemoveOrphanFiles rdir live fl vls db = db\<lparr>world := w\<rparr>"
proof -
  have f: "no_logs dir v \<Longrightarrow> no_logs dir (fold (\<lambda>name w. if P name then unlink (h name) w else w) xs v)" for P h xs v
  proof (induction xs arbitrary: v)
    case (Cons x xs)
    then show ?case using no_logs_names [OF Cons.prems unlink_names] by simp
  qed simp
  obtain x w1 where c: "call (world db) (\<lambda>w. ((), w)) = (x, w1)" by (metis surj_pair)
  have "no_logs dir w1" by (rule no_logs_same [OF assms call_id [OF c]])
  then show "no_logs dir (world (RemoveOrphanFiles rdir live fl vls db))" using f c by (cases x) (simp_all add: RemoveOrphanFiles_def)
  show "\<exists>w. RemoveOrphanFiles rdir live fl vls db = db\<lparr>world := w\<rparr>" using c by (cases x) (auto simp: RemoveOrphanFiles_def)
qed

lemma setup_separation_blank:
  assumes "setup_separation rdir [] db = (s, live, db')" and "blank dir db" and "no_logs dir (world db)"
  shows "blank dir db' \<and> no_logs dir (world db')"
proof -
  obtain x w1 where c: "call (world db) (\<lambda>w. ((), w)) = (x, w1)" by (metis surj_pair)
  have 1: "no_logs dir w1" by (rule no_logs_same [OF assms(3) call_id [OF c]])
  have d: "db_dir db = dir" using assms(2) by (simp add: blank_def)
  obtain y w2 where v: "VLog_Open dir 1 w1 = (y, w2)" by (metis surj_pair)
  have 2: "no_logs dir w2" by (rule VLog_Open_no_logs [OF v 1])
  have "blank dir (db\<lparr>world := w2, vlogs := a, vlog_current := b, vsep_enabled := e, vlog_gc_size := f, vsep_threshold := g\<rparr>)"
    "blank dir (db\<lparr>world := w2, vlogs := a\<rparr>)" for a b e f g
    using assms(2) by (simp_all add: blank_def)
  then show ?thesis using assms(1,2) c 1 2 d v
    by (cases y) (auto simp: setup_separation_def Let_def split: if_splits)
qed

lemma replay_empty:
  assumes "reader_left r = 0"
  shows "\<exists>c r'. replay_loop coins r (mt, m, e) = Some ((mt, m), c, r')"
proof -
  obtain x r1 where r: "ReadRecord r = (x, r1)" by (metis surj_pair)
  then show ?thesis using ReadRecord_left [of r _ r1] assms by (cases x) (auto simp: replay_loop.simps [of coins r])
qed

lemma replay_fresh_log:
  assumes "blank dir db" and "no_logs dir (world db)" and "replay_logs coins [1] 0 db = Some (s, m, db')" and "ok s"
  shows "m = 0 \<and> blank dir db' \<and> next_seq db' = next_seq db"
proof -
  have "0x2F \<notin> set (LogFileName 1)" by (simp add: LogFileName_def fmt06_1)
  then have n: "names (world db) (LogPath 1 db) = None" using assms(1,2) log_parses [of 1] by (auto simp: LogPath_def blank_def no_logs_def)
  obtain x w1 where o: "open_creat (LogPath 1 db) (world db) = (x, w1)" by (metis surj_pair)
  show ?thesis
  proof (cases x)
    case (Inl e)
    then show ?thesis using assms(3,4) o by (auto simp: IOError_def ok_def)
  next
    case (Inr fd)
    then have "inodes w1 fd = []" using open_creat_cases [OF o] n by auto
    then have "reader_left (fd_reader fd w1) = 0" by (simp add: reader_left_def fd_reader_def open_reader_def)
    from replay_empty [OF this] obtain c r' where "replay_loop coins (fd_reader fd w1) (mem db, 0, 0) = Some ((mem db, 0), c, r')" by blast
    then show ?thesis using assms o Inr by (cases c) (auto simp: blank_def split: if_splits prod.splits)
  qed
qed

lemma attach_log_core: "attach_log db = (s, db') \<Longrightarrow> core db' = core db"
  by (auto simp: attach_log_def core_def Let_def split: prod.splits sum.splits if_splits)

lemma blank_rep:
  assumes "blank dir db" and "next_seq db = 1"
  shows "db_rep (\<lambda>_. []) [] [] [] db"
proof -
  have "version_files (version db) = []" using assms(1) by (simp add: blank_def version_files_def)
  moreover have "newest_first []" by (simp add: newest_first_def)
  ultimately show ?thesis using assms holds_run_New
    by (auto simp: db_rep_def blank_def version_run_def version_entries_def seqs_ok_def numbers_ok_def answers_history_def
        NewMemTable_def parts_apart_def history_get_def lookup_spec_def lookup_of_def)
qed

text \<open>Without a MANIFEST: the floor is 1, there is no table and no value log.\<close>

definition swept :: "(path \<Rightarrow> World \<Rightarrow> bytes list) \<Rightarrow> u64 list \<Rightarrow> u64 list \<Rightarrow> DB \<Rightarrow> DB" where
  "swept rdir live ns db = RemoveOrphanFiles rdir [] 1 (set live) (db\<lparr>log_number := last ns\<rparr>)"

definition numbered :: "u64 list \<Rightarrow> u64 list \<Rightarrow> DB \<Rightarrow> DB" where
  "numbered live ns db = db\<lparr>next_file_number := max (max_number 1 (if vsep_enabled db then live else [])) (last ns) + 1\<rparr>"

lemma DB_Open_no_manifest:
  assumes "call w (\<lambda>w. ((), w)) = (Inr u, w1)" and "names w1 (ManifestPath dir) = None"
    and "setup_separation rdir [] ((NewDB dir opts w1)\<lparr>version := assemble_version []\<rparr>) = (ss, live, d1)"
    and "list_logs rdir 1 d1 = (y, d2)"
  shows "DB_Open rdir coins dir opts w = (if \<not> ok ss then Some (Inl ss, world d1) else case y of Inl s1 \<Rightarrow> Some (Inl s1, world d2)
      | Inr ns \<Rightarrow> recover_logs coins ns (numbered live ns (swept rdir live ns d2)))"
proof -
  let ?ms = "NewManifestState\<lparr>ms_log_number := 1\<rparr>"
  have m: "read_manifest dir w1 = (Inr ?ms, w1)" unfolding read_manifest_def if_P [OF assms(2)] ..
  have ms: "ms_files ?ms = []" "ms_vlogs ?ms = []" "ms_log_number ?ms = 1" by (simp_all add: NewManifestState_def)
  have "numbered live ns (swept rdir live ns d2) = (let db3 = RemoveOrphanFiles rdir (ms_files ?ms) (ms_log_number ?ms) (set live) (d2\<lparr>log_number := last ns\<rparr>);
        seen = max_number (ms_log_number ?ms) (map file_number (ms_files ?ms) @ (if vsep_enabled db3 then live else []))
        in db3\<lparr>next_file_number := max seen (last ns) + 1\<rparr>)" for ns
    unfolding numbered_def swept_def ms Let_def list.map append_Nil ..
  then show ?thesis unfolding DB_Open_def assms(1) prod.case sum.case m ms open_tables.simps assms(3,4)
    by (cases y) (simp_all only: prod.case sum.case Let_def ms list.map append_Nil)
qed

lemma recover_blank:
  assumes b: "blank dir db" and n: "no_logs dir (world db)" and r: "recover_logs coins [1] db = Some (Inr db', w')"
  shows "db_inv (db', NoJob, []) \<and> snapshots db' = [] \<and> imm db' = None"
proof -
  obtain s m db1 where p: "replay_logs coins [1] 0 db = Some (s, m, db1)"
    using r unfolding recover_logs_def by (cases "replay_logs coins [1] 0 db") auto
  have ok: "ok s" using r unfolding recover_logs_def p by (cases "ok s") auto
  note f = replay_fresh_log [OF b n p ok]
  have "version_files (version db1) = []" using f by (simp add: blank_def version_files_def)
  then have q: "max_number m (map (\<lambda>r. largest_seq (tr_meta r)) (version_files (version db1))) + 1 = 1" using f by (simp add: max_number_def)
  let ?d = "db1\<lparr>next_seq := 1\<rparr>"
  obtain s1 db2 where a: "attach_log ?d = (s1, db2)" by (metis surj_pair)
  have "recover_logs coins [1] db = Some (if \<not> ok s1 then Inl s1 else Inr db2, world db2)"
    unfolding recover_logs_def p option.case prod.case if_not_P [OF not_not [THEN iffD2, OF ok]] Let_def q a ..
  then have db': "db' = db2" using r by (cases "ok s1") auto
  have b2: "blank dir ?d" using f by (simp add: blank_def)
  have c: "core db' = core ?d" using attach_log_core [OF a] db' by simp
  have "db_rep (\<lambda>_. []) [] [] [] db'" using db_rep_core(1) [OF c] blank_rep [OF b2] by simp
  then have "db_inv (db', NoJob, [])" unfolding db_inv_def prod.case by (intro exI conjI) simp_all
  then show ?thesis using c b2 by (simp add: core_def blank_def)
qed

lemma fresh_open:
  assumes l: "lists_existing rdir" and e: "empty_dir dir w" and o: "DB_Open rdir coins dir opts w = Some (Inr db, w')"
  shows "db_inv (db, NoJob, []) \<and> snapshots db = [] \<and> imm db = None"
proof -
  obtain x w1 where c: "call w (\<lambda>w. ((), w)) = (x, w1)" by (metis surj_pair)
  have "\<exists>u. x = Inr u"
  proof (cases x)
    case (Inl e1)
    have "DB_Open rdir coins dir opts w = Some (Inl (IOError (str ''cannot create directory '' @ dir @ str '': '' @ e1)), w1)"
      unfolding DB_Open_def c Inl prod.case sum.case ..
    then have "Inl (IOError (str ''cannot create directory '' @ dir @ str '': '' @ e1)) = (Inr db :: Status + DB)"
      using o by (simp only: option.inject prod.inject)
    then show ?thesis by (simp only: sum.distinct)
  qed blast
  then obtain u where x: "x = Inr u" by blast
  have s: "same w w1" by (rule call_id [OF c])
  have m: "names w1 (ManifestPath dir) = None"
    using e same_simps(3) [OF s] by (simp add: ManifestPath_def empty_dir_def kManifestFileName_def)
  let ?d0 = "(NewDB dir opts w1)\<lparr>version := assemble_version []\<rparr>"
  have b0: "blank dir ?d0" "no_logs dir (world ?d0)" "next_seq ?d0 = 1" using no_logs_same [OF empty_no_logs [OF e] s]
    by (simp_all add: blank_def NewDB_def assemble_version_def map_replicate_const)
  obtain ss live d1 where st: "setup_separation rdir [] ?d0 = (ss, live, d1)" by (rule prod_cases3)
  note b1 = setup_separation_blank [OF st b0(1,2)]
  obtain y d2 where ll: "list_logs rdir 1 d1 = (y, d2)" by (metis surj_pair)
  note eq = DB_Open_no_manifest [OF c [unfolded x] m st ll, of coins]
  have "ok ss" "\<exists>ns. y = Inr ns" using o unfolding eq by (cases "ok ss"; cases y; simp)+
  then obtain ns where ok1: "ok ss" and y: "y = Inr ns" by blast
  have d1: "db_dir d1 = dir" using b1 by (simp add: blank_def)
  note lg = list_logs_none [OF l conjunct2 [OF b1] d1 refl ll [unfolded y]]
  then obtain w2 where ns: "ns = [1]" and d2: "d2 = d1\<lparr>world := w2\<rparr>" and w2: "same (world d1) w2" by blast
  let ?d3 = "swept rdir live [1] d2"
  have n2: "no_logs dir (world (d2\<lparr>log_number := last [1]\<rparr>))" using no_logs_same [OF conjunct2 [OF b1] w2] d2 by simp
  obtain w3 where w3: "?d3 = d2\<lparr>log_number := 1, world := w3\<rparr>" using RemoveOrphan_no_logs(2) [OF n2, of rdir "[]" 1 "set live"] by (auto simp: swept_def)
  let ?d4 = "numbered live [1] ?d3"
  have b4: "blank dir ?d4" using b1 d2 w3 by (simp add: numbered_def blank_def)
  have n4: "no_logs dir (world ?d4)" using RemoveOrphan_no_logs(1) [OF n2, of rdir "[]" 1 "set live"] by (simp add: numbered_def swept_def)
  have rl: "recover_logs coins [1] ?d4 = Some (Inr db, w')" using o unfolding eq if_not_P [OF not_not [THEN iffD2, OF ok1]] y sum.case ns .
  show ?thesis by (rule recover_blank [OF b4 n4 rl])
qed

subsection \<open>A directory with one log\<close>

definition only_log_1 :: "path \<Rightarrow> World \<Rightarrow> bool" where
  "only_log_1 dir w \<longleftrightarrow> (\<forall>name. 0x2F \<notin> set name \<and> name \<noteq> LogFileName 1 \<longrightarrow> names w (dir @ str ''/'' @ name) = None)"

lemma log_1_name: "LogFileName 1 = [48, 48, 48, 48, 48, 49, 46, 108, 111, 103]"
  by (simp add: LogFileName_def fmt06_1)

lemma listed_names:
  assumes "lists_existing rdir" and "only_log_1 dir w" and "same w w'" and "name \<in> set (rdir dir w')"
  shows "name = str ''.'' \<or> name = str ''..'' \<or> name = LogFileName 1"
proof (rule ccontr)
  assume a: "\<not> ?thesis"
  then have "0x2F \<notin> set name" "names w' (dir @ str ''/'' @ name) \<noteq> None" using assms(1,4) unfolding lists_existing_def by blast+
  then show False using assms(2) a same_simps(3) [OF assms(3)] unfolding only_log_1_def by (auto simp del: str_Cons)
qed

lemma listed_parse:
  assumes "name = str ''.'' \<or> name = str ''..'' \<or> name = LogFileName 1"
  shows "ParseNumberedFile name (str ''.vlog'') = None" "ParseNumberedFile name (str ''.sst'') = None"
    "name \<noteq> LogFileName 1 \<Longrightarrow> ParseNumberedFile name (str ''.log'') = None" "name \<noteq> kManifestTmpFileName"
  using assms by (auto simp: ParseNumberedFile_def log_1_name kManifestTmpFileName_def)

lemma listed_not_orphan:
  assumes "name = str ''.'' \<or> name = str ''..'' \<or> name = LogFileName 1"
  shows "\<not> orphan {} 1 {} name"
proof -
  note p = listed_parse [OF assms]
  have "\<not> n < 1" if "ParseNumberedFile name (str ''.log'') = Some n" for n
  proof (cases "name = LogFileName 1")
    case True
    then show ?thesis using that log_parses [of 1] by simp
  qed (use that p(3) in simp)
  then show ?thesis unfolding orphan_def p(1,2) using p(4) by (simp split: option.splits del: str_Cons)
qed

lemma map_filter_one:
  assumes "distinct xs" and "\<And>x. x \<in> set xs \<Longrightarrow> x \<noteq> a \<Longrightarrow> f x = None" and "f a = Some b"
  shows "List.map_filter f xs = (if a \<in> set xs then [b] else [])"
  using assms
proof (induction xs)
  case (Cons x xs)
  then show ?case by (cases "x = a") (auto simp: List.map_filter_simps)
qed (simp add: List.map_filter_simps)

lemma fold_skip: "(\<And>x. x \<in> set xs \<Longrightarrow> \<not> P x) \<Longrightarrow> fold (\<lambda>x v. if P x then h x v else v) xs w = w"
  by (induction xs) auto

text \<open>Opening such a directory replays log 1, whether it exists yet or not.\<close>

definition one_log_db :: "path \<Rightarrow> Options \<Rightarrow> World \<Rightarrow> DB" where
  "one_log_db dir opts w = (NewDB dir opts w)\<lparr>version := assemble_version [], log_number := 1, next_file_number := 2\<rparr>"

lemma open_one_log:
  assumes l: "lists_existing rdir" and d: "only_log_1 dir w" and nf: "no_fail w" and off: "\<not> enable_value_separation opts"
  shows "\<exists>w'. same w w' \<and> no_fail w' \<and> DB_Open rdir coins dir opts w = recover_logs coins [1] (one_log_db dir opts w')"
proof -
  obtain w1 where w1: "no_fail w1" "same w w1" "call w (\<lambda>w. ((), w)) = (Inr (), w1)"
    using no_fail_call [OF nf, of "\<lambda>w. ((), w)"] by auto
  obtain w2 where w2: "no_fail w2" "same w1 w2" "call w1 (\<lambda>w. ((), w)) = (Inr (), w2)"
    using no_fail_call [OF w1(1), of "\<lambda>w. ((), w)"] by auto
  obtain w3 where w3: "no_fail w3" "same w2 w3" "call w2 (\<lambda>w. ((), w)) = (Inr (), w3)"
    using no_fail_call [OF w2(1), of "\<lambda>w. ((), w)"] by auto
  obtain w4 where w4: "no_fail w4" "same w3 w4" "call w3 (\<lambda>w. ((), w)) = (Inr (), w4)"
    using no_fail_call [OF w3(1), of "\<lambda>w. ((), w)"] by auto
  have s2: "same w w2" and s3: "same w w3" and s4: "same w w4" using w1(2) w2(2) w3(2) w4(2) same_trans by blast+
  have m: "names w1 (ManifestPath dir) = None" using d same_simps(3) [OF w1(2)]
    by (simp add: only_log_1_def ManifestPath_def kManifestFileName_def log_1_name)
  let ?d0 = "(NewDB dir opts w1)\<lparr>version := assemble_version []\<rparr>"
  have n: "world ?d0 = w1" "db_dir ?d0 = dir" "db_options ?d0 = opts" "vsep_enabled ?d0 = False" by (simp_all add: NewDB_def)
  have "\<not> vlog_on_disk (rdir dir w2)"
    using listed_parse(1) [OF listed_names [OF l d s2]] by (simp add: vlog_on_disk_def list_ex_iff)
  then have st: "setup_separation rdir [] ?d0 = (Ok, [], ?d0\<lparr>world := w2\<rparr>)"
    unfolding setup_separation_def n w2(3) Let_def using off by simp
  have "List.map_filter (\<lambda>name. ParseNumberedFile name (str ''.log'')) (rdir dir w3) = (if LogFileName 1 \<in> set (rdir dir w3) then [1] else [])"
    by (rule map_filter_one) (use l listed_parse(3) [OF listed_names [OF l d s3]] log_parses in \<open>simp_all add: lists_existing_def del: str_Cons\<close>)
  then have ll: "list_logs rdir 1 (?d0\<lparr>world := w2\<rparr>) = (Inr [1], ?d0\<lparr>world := w3\<rparr>)"
    using n by (simp add: list_logs_def w3(3) Let_def del: str_Cons)
  have "fold (\<lambda>name w. if orphan {} 1 {} name then unlink (h name) w else w) (rdir dir w4) w4 = w4" for h
    by (rule fold_skip) (rule listed_not_orphan [OF listed_names [OF l d s4]])
  then have sw: "swept rdir [] [1] (?d0\<lparr>world := w3\<rparr>) = ?d0\<lparr>world := w4, log_number := 1\<rparr>"
    using n by (simp add: swept_def RemoveOrphanFiles_def w4(3))
  have nu: "numbered [] [1] (swept rdir [] [1] (?d0\<lparr>world := w3\<rparr>)) = one_log_db dir opts w4"
    unfolding sw by (simp add: numbered_def one_log_db_def NewDB_def max_number_def)
  have "DB_Open rdir coins dir opts w = recover_logs coins [1] (one_log_db dir opts w4)"
    using DB_Open_no_manifest [OF w1(3) m st ll, of coins] unfolding sum.case nu by simp
  then show ?thesis using s4 w4(1) by blast
qed

end
