(* ===== verification/Recovery.thy ===== *)
theory Recovery
  imports DbHistory
begin

text \<open>
  Acknowledged writes survive a power cut: what a write leaves in its log, and that opening the
  database replays it.
\<close>

subsection \<open>Records\<close>

definition payload_of :: "u64 \<times> wop \<Rightarrow> bytes" where
  "payload_of = (\<lambda>(seq, w). case w of WPut k v \<Rightarrow> wal_payload seq kTypeValue k v | WDel k \<Rightarrow> wal_payload seq kTypeDeletion k [])"

fun record_fits :: "wop \<Rightarrow> bool" where
  "record_fits (WPut k v) \<longleftrightarrow> length k + 17 < 2 ^ 32 \<and> length v < 2 ^ 32"
| "record_fits (WDel k) \<longleftrightarrow> length k + 17 < 2 ^ 32"

fun record_args :: "u64 \<times> wop \<Rightarrow> u64 \<times> u8 \<times> bytes \<times> bytes" where
  "record_args (seq, WPut k v) = (seq, kTypeValue, k, v)"
| "record_args (seq, WDel k) = (seq, kTypeDeletion, k, [])"

lemma drop_prefix: "length xs = n \<Longrightarrow> drop n (xs @ ys) = ys"
  by simp

lemma ParseRecord_payload:
  assumes "record_fits w"
  shows "ParseRecord (payload_of (seq, w)) = Some (Some (record_args (seq, w)))"
proof (cases w)
  case (WPut k v)
  let ?kl = "PutFixed32 (of_nat (length k))" and ?vl = "PutFixed32 (of_nat (length v))"
  have k: "unat (of_nat (length k) :: u32) = length k" "unat (of_nat (length k) + 17 :: u32) = length k + 17" "unat (of_nat (length v) :: u32) = length v"
    using assms WPut by (simp_all add: unat_of_nat_u32 unat_word_ariths)
  define p where "p = PutFixed64 seq @ [kTypeValue] @ ?kl @ k @ ?vl @ v"
  have l: "length p = 17 + length k + length v" by (simp add: p_def)
  have d9: "drop 9 p = ?kl @ k @ ?vl @ v" using drop_prefix [of "PutFixed64 seq @ [kTypeValue]" 9] by (simp add: p_def)
  have dk: "drop 13 p = k @ ?vl @ v" using drop_prefix [of "PutFixed64 seq @ [kTypeValue] @ ?kl" 13] by (simp add: p_def)
  have dv: "drop (13 + length k) p = ?vl @ v" using drop_prefix [of "PutFixed64 seq @ [kTypeValue] @ ?kl @ k" "13 + length k"] by (simp add: p_def)
  have dw: "drop (17 + length k) p = v" using drop_prefix [of "PutFixed64 seq @ [kTypeValue] @ ?kl @ k @ ?vl" "17 + length k"] by (simp add: p_def)
  have h: "p ! 8 = kTypeValue" "GetFixed64 p = seq" by (simp_all add: p_def nth_append)
  have "ParseRecord p = Some (Some (seq, kTypeValue, k, v))"
    unfolding ParseRecord_def Let_def read32_at_def sub_def h d9 GetFixed32_PutFixed32 k dk dv dw l by (simp add: k)
  then show ?thesis using WPut by (simp add: payload_of_def wal_payload_def p_def)
next
  case (WDel k)
  let ?kl = "PutFixed32 (of_nat (length k))"
  have k: "unat (of_nat (length k) :: u32) = length k" "unat (of_nat (length k) + 13 :: u32) = length k + 13"
    using assms WDel by (simp_all add: unat_of_nat_u32 unat_word_ariths)
  define p where "p = PutFixed64 seq @ [kTypeDeletion] @ ?kl @ k"
  have l: "length p = 13 + length k" by (simp add: p_def)
  have d9: "drop 9 p = ?kl @ k" using drop_prefix [of "PutFixed64 seq @ [kTypeDeletion]" 9] by (simp add: p_def)
  have dk: "drop 13 p = k" using drop_prefix [of "PutFixed64 seq @ [kTypeDeletion] @ ?kl" 13] by (simp add: p_def)
  have h: "p ! 8 = kTypeDeletion" "GetFixed64 p = seq" by (simp_all add: p_def nth_append)
  have "ParseRecord p = Some (Some (seq, kTypeDeletion, k, []))"
    unfolding ParseRecord_def Let_def sub_def h d9 GetFixed32_PutFixed32 k dk l by (simp add: kTypeValue_def kTypeDeletion_def)
  then show ?thesis using WDel by (simp add: payload_of_def wal_payload_def p_def kTypeValue_def kTypeDeletion_def)
qed

subsection \<open>Replay\<close>

definition entry_in :: "u64 \<times> wop \<Rightarrow> entry" where
  "entry_in = (\<lambda>(seq, w). wentry seq w)"

fun add_all :: "(u64 \<times> wop) list \<Rightarrow> entry list \<Rightarrow> entry list" where
  "add_all [] es = es"
| "add_all (x # xs) es = add_all xs (add_entry (entry_in x) es)"

definition max_seq_of :: "u64 \<Rightarrow> (u64 \<times> wop) list \<Rightarrow> u64" where
  "max_seq_of m ws = fold (\<lambda>x m. if fst x > m then fst x else m) ws m"

definition cut_of :: "rres \<Rightarrow> (string \<times> nat) option" where
  "cut_of x = (case x of RecCorrupt off \<Rightarrow> Some (''cannot truncate torn log tail: '', off) | _ \<Rightarrow> None)"

lemma mem_insert_record:
  assumes "record_args (seq, w) = (seq', type, k, v)" and "holds_run mt es" and "record_fits w"
  shows "\<exists>mt'. mem_insert coins seq' type k v mt = Some mt' \<and> holds_run mt' (add_entry (entry_in (seq, w)) es)"
proof -
  have k: "short_key k" using assms(1,3) by (cases w) (auto simp: short_key_def)
  have "seq' = seq" "wop_of type k v = w" using assms(1) by (cases w; auto simp: wop_of_def kTypeValue_def kTypeDeletion_def)+
  then show ?thesis using mem_insert_run [OF assms(2) k, of coins seq' type v] by (simp add: entry_in_def)
qed

text \<open>The loop applies the records of the log in their order and ends where the reader does.\<close>

lemma replay_loop_records:
  assumes "read_all r = (map payload_of ws, x, r')" and "\<forall>y\<in>set ws. record_fits (snd y)" and "holds_run mt es"
  shows "\<exists>mt'. replay_loop coins r (mt, m0, e) = Some ((mt', max_seq_of m0 ws), cut_of x, r') \<and> holds_run mt' (add_all ws es)"
  using assms
proof (induction ws arbitrary: r mt m0 e es)
  case Nil
  obtain y r1 where rr: "ReadRecord r = (y, r1)" by (metis surj_pair)
  then show ?case using Nil by (cases y) (auto simp: read_all.simps [of r] replay_loop.simps [of coins r] max_seq_of_def cut_of_def split: prod.splits)
next
  case (Cons w ws)
  obtain y r1 where rr: "ReadRecord r = (y, r1)" by (metis surj_pair)
  with Cons.prems(1) have y: "y = RecOk (payload_of w)" and ra: "read_all r1 = (map payload_of ws, x, r')"
    by (cases y; auto simp: read_all.simps [of r] split: prod.splits)+
  obtain seq op where w: "w = (seq, op)" by (cases w)
  obtain seq' t k v where args: "record_args w = (seq', t, k, v)" by (metis prod_cases4)
  have seq: "seq' = seq" using args w by (cases op) auto
  have fit: "record_fits op" using Cons.prems(2) w by simp
  have p: "ParseRecord (payload_of w) = Some (Some (seq', t, k, v))" using ParseRecord_payload [OF fit, of seq] args w by simp
  obtain mt1 where mt1: "mem_insert (coins (unat seq')) seq' t k v mt = Some mt1" "holds_run mt1 (add_entry (entry_in w) es)"
    using mem_insert_record [of seq op seq' t k v mt es] args w fit Cons.prems(3) by blast
  have "\<forall>y\<in>set ws. record_fits (snd y)" using Cons.prems(2) by simp
  from Cons.IH [OF ra this mt1(2), of "if seq' > m0 then seq' else m0" "last_good_end r1"]
  show ?case using mt1(1) rr y p w seq by (cases "seq' > m0") (simp_all add: replay_loop.simps [of coins r] max_seq_of_def)
qed


lemma add_all_entries:
  assumes "sorted_wrt (<) (map fst ws)" and "\<forall>x\<in>set ws. fst x < 2 ^ 56" and "\<forall>e\<in>set es. \<forall>x\<in>set ws. tag_seq (etag e) < fst x"
  shows "set (add_all ws es) = set es \<union> entry_in ` set ws"
  using assms
proof (induction ws arbitrary: es)
  case (Cons x ws)
  obtain seq op where x: "x = (seq, op)" by (cases x)
  have q: "seq < 2 ^ 56" using Cons.prems(2) x by simp
  have tag: "tag_seq (etag (entry_in x)) = seq" unfolding x entry_in_def prod.case wentry_tag by (rule tag_seq_make [OF q])
  have "\<not> (\<exists>e\<in>set es. ikey e = ikey (entry_in x))"
  proof
    assume "\<exists>e\<in>set es. ikey e = ikey (entry_in x)"
    then obtain e where e: "e \<in> set es" "etag e = etag (entry_in x)" by (metis prod.inject)
    from e(1) have "tag_seq (etag e) < fst x" using Cons.prems(3) by simp
    then show False using tag x e(2) by simp
  qed
  then have a: "add_entry (entry_in x) es = insert_entry (entry_in x) es" unfolding add_entry_def by (rule if_not_P)
  have "\<forall>e\<in>set (insert_entry (entry_in x) es). \<forall>y\<in>set ws. tag_seq (etag e) < fst y"
    unfolding set_insert_entry using Cons.prems(1,3) tag x by (auto simp del: split_paired_All)
  then show ?case using Cons.IH [of "insert_entry (entry_in x) es"] Cons.prems(1,2) a by simp
qed simp

subsection \<open>What a write leaves on disk\<close>

text \<open>
  A database whose writes are all in its log, on stable storage, under a directory entry that
  is on stable storage too, with no other file beside the log.
\<close>

definition only_log :: "DB \<Rightarrow> (path \<Rightarrow> nat option) \<Rightarrow> bool" where
  "only_log db nm \<longleftrightarrow> nm (LogPath (log_number db) db) = Some (log_fd db)
     \<and> (\<forall>name. 0x2F \<notin> set name \<and> name \<noteq> LogFileName (log_number db) \<longrightarrow> nm (db_dir db @ str ''/'' @ name) = None)"

definition logged :: "DB \<Rightarrow> (u64 \<times> wop) list \<Rightarrow> bool" where
  "logged db ws \<longleftrightarrow> ring db = None \<and> \<not> vsep_enabled db \<and> vlog_current db = None \<and> sync_mode (db_options db) = kSyncAlways
     \<and> inodes (world db) (log_fd db) = enc_log 0 (map payload_of ws) \<and> log_offset db = length (enc_log 0 (map payload_of ws))
     \<and> (ws \<noteq> [] \<longrightarrow> clean (world db) (log_fd db)) \<and> (\<forall>nm\<in>set (pend (world db)). only_log db nm)"

lemma payload_of_wop:
  "type = kTypeValue \<or> type = kTypeDeletion \<Longrightarrow> payload_of (seq, wop_of type k v) = wal_payload seq type k v"
  by (auto simp: payload_of_def wop_of_def wal_payload_def kTypeValue_def kTypeDeletion_def)

lemma fsync_clean: "fsync i w = (Inr u, w') \<Longrightarrow> touch i w w' \<and> clean w' i \<and> inodes w' i = inodes w i"
  by (cases rule: call_cases [of w "\<lambda>w. ((), w\<lparr>clean := (clean w)(i := True)\<rparr>)"]) (auto simp: fsync_def touch_def same_simps)

lemma WriteEntry_logged:
  assumes l: "logged db ws" and t: "type = kTypeValue \<or> type = kTypeDeletion" and w: "WriteEntry coins type k v c db = Some (s, db')" and "ok s"
  shows "logged db' (ws @ [(next_seq db, wop_of type k v)])" "db_dir db' = db_dir db" "log_number db' = log_number db" "db_options db' = db_options db"
proof -
  have sv: "separate_value type k v db = Some (Ok, v, db)" using l by (simp add: separate_value_def logged_def)
  obtain s2 off w2 where a: "fd_AddRecord (log_fd db) (wal_payload (next_seq db) type k v) (log_offset db) (world db) = (s2, off, w2)" by (metis prod_cases3)
  note ar = fd_AddRecord_touch [OF a]
  obtain r w3 where f: "fsync (log_fd db) w2 = (r, w3)" by (metis surj_pair)
  have ring: "ring db = None" "vlog_current db = None" "sync_mode (db_options db) = kSyncAlways" using l by (simp_all add: logged_def)
  have ok2: "ok s2" using w assms(4) sv a ring by (auto simp: WriteEntry_def append_wal_def append_sync_def Let_def split: if_splits)
  have r: "r = Inr ()" using w assms(4) sv a ring ok2 f
    by (cases r) (auto simp: WriteEntry_def append_wal_def append_sync_def Let_def MaybeSync_def sync_files_def current_vlog_def split: if_splits option.splits)
  note fc = fsync_clean [OF f [unfolded r]]
  have db': "world db' = w3" "log_fd db' = log_fd db" "log_offset db' = off" "db_dir db' = db_dir db" "log_number db' = log_number db"
    "db_options db' = db_options db" "ring db' = None" "vlog_current db' = None" "vsep_enabled db' = vsep_enabled db"
    using w assms(4) sv a ring ok2 f r
    by (auto simp: WriteEntry_def append_wal_def append_sync_def Let_def MaybeSync_def sync_files_def current_vlog_def split: if_splits option.splits)
  have "inodes w3 (log_fd db) = enc_log 0 (map payload_of (ws @ [(next_seq db, wop_of type k v)]))"
    using l ar ok2 fc unfolding logged_def by (simp add: enc_log_append payload_of_wop [OF t])
  then show "logged db' (ws @ [(next_seq db, wop_of type k v)])"
    using l ar ok2 fc db' unfolding logged_def only_log_def touch_def LogPath_def by (simp add: enc_log_append payload_of_wop [OF t])
  show "db_dir db' = db_dir db" "log_number db' = log_number db" "db_options db' = db_options db" by (rule db')+
qed

subsection \<open>Opening a directory with one log\<close>

lemma no_fail_reader_done: "no_fail w \<Longrightarrow> no_fail (reader_done r w) \<and> same w (reader_done r w)"
proof -
  assume n: "no_fail w"
  then have "Cut \<notin> set (take m (sys w))" for m by (auto simp: no_fail_def list_all_iff dest!: in_set_takeD)
  then show ?thesis using n by (auto simp: no_fail_def reader_done_def same_def Let_def list_all_iff dest!: in_set_dropD)
qed

lemma no_fail_open_creat:
  assumes "no_fail w"
  shows "\<exists>i w'. open_creat p w = (Inr i, w') \<and> no_fail w' \<and> names w' p = Some i \<and> (\<forall>q. q \<noteq> p \<longrightarrow> names w' q = names w q)
    \<and> (pend w \<noteq> [] \<longrightarrow> pend w' \<noteq> [])
    \<and> (case names w p of Some j \<Rightarrow> i = j \<and> inodes w' i = inodes w j | None \<Rightarrow> inodes w' i = [])"
proof -
  let ?f = "\<lambda>w. case names w p of Some i \<Rightarrow> (i, w) | None \<Rightarrow> create_file p w"
  obtain w1 where w1: "no_fail w1" "same w w1" "call w ?f = (Inr (fst (?f w1)), snd (?f w1))" using no_fail_call [OF assms, of ?f] by blast
  have "no_fail (snd (create_file p w1))" using w1(1) by (simp add: create_file_def set_names_def no_fail_def set_inode_def)
  then show ?thesis using w1(1,3) same_simps(1,3,4) [OF w1(2)]
    by (cases "names w p") (auto simp: open_creat_def create_file_def set_names_def set_inode_def)
qed

lemma no_fail_SyncDir:
  assumes "no_fail w"
  shows "\<exists>w'. SyncDir dir w = (Ok, w') \<and> no_fail w' \<and> names w' = names w \<and> inodes w' = inodes w
    \<and> pend w' = map (\<lambda>nm p. if ParentDir p = dir then names w p else nm p) (pend w)"
proof -
  obtain w1 where w1: "no_fail w1" "same w w1" "call w (\<lambda>w. ((), w)) = (Inr (), w1)"
    using no_fail_call [OF assms, of "\<lambda>w. ((), w)"] by auto
  obtain w2 where w2: "no_fail w2" "same w1 w2" "call w1 (\<lambda>w. ((), sync_entries dir w)) = (Inr (), sync_entries dir w2)"
    using no_fail_call [OF w1(1), of "\<lambda>w. ((), sync_entries dir w)"] by auto
  have "same w w2" by (rule same_trans [OF w1(2) w2(2)])
  then show ?thesis using w1(3) w2 by (auto simp: SyncDir_def sync_entries_def no_fail_def same_simps)
qed

text \<open>The state after the replay, up to what was replayed, and with the log attached.\<close>

definition replayed :: "path \<Rightarrow> Options \<Rightarrow> DB \<Rightarrow> bool" where
  "replayed dir opts db \<longleftrightarrow> db_dir db = dir \<and> db_options db = opts \<and> imm db = None \<and> snapshots db = [] \<and> ring db = None
     \<and> version db = \<lparr>l0 = [], levels = replicate (kMaxLevels - 1) []\<rparr> \<and> \<not> vsep_enabled db \<and> vlog_current db = None
     \<and> log_number db = 1 \<and> next_file_number db = 2 \<and> no_fail (world db) \<and> only_log_1 dir (world db)"

definition attached :: "DB \<Rightarrow> bool" where
  "attached db \<longleftrightarrow> log_offset db = length (inodes (world db) (log_fd db)) \<and> (\<forall>nm\<in>set (pend (world db)). only_log db nm)"

lemma replayed_updates [simp]:
  "replayed dir opts (db\<lparr>mem := m\<rparr>) = replayed dir opts db" "replayed dir opts (db\<lparr>next_seq := q\<rparr>) = replayed dir opts db"
  "replayed dir opts (db\<lparr>log_fd := f\<rparr>) = replayed dir opts db" "replayed dir opts (db\<lparr>log_offset := n\<rparr>) = replayed dir opts db"
  "replayed dir opts (db\<lparr>wal_size := n\<rparr>) = replayed dir opts db"
  by (simp_all add: replayed_def)

lemma replayed_world:
  assumes "replayed dir opts db" and "no_fail w" and "\<And>q. q \<noteq> dir @ str ''/'' @ LogFileName 1 \<Longrightarrow> names w q = names (world db) q"
  shows "replayed dir opts (db\<lparr>world := w\<rparr>)"
  using assms by (simp add: replayed_def only_log_1_def)

lemma attach_one_log:
  assumes r: "replayed dir opts db" and off: "\<not> enable_io_uring opts" and dir: "dir \<noteq> []"
    and fd: "names (world db) (dir @ str ''/'' @ LogFileName 1) = Some fd"
  shows "\<exists>db'. attach_log db = (Ok, db') \<and> replayed dir opts db' \<and> attached db' \<and> mem db' = mem db \<and> next_seq db' = next_seq db
    \<and> log_fd db' = fd \<and> inodes (world db') fd = inodes (world db) fd \<and> (pend (world db) \<noteq> [] \<longrightarrow> pend (world db') \<noteq> [])"
proof -
  have d: "db_dir db = dir" "db_options db = opts" "log_number db = 1" "ring db = None" and nf: "no_fail (world db)" and o: "only_log_1 dir (world db)"
    using r by (simp_all add: replayed_def)
  let ?p = "dir @ str ''/'' @ LogFileName 1"
  obtain w1 where w1: "open_creat ?p (world db) = (Inr fd, w1)" "no_fail w1" "\<forall>q. q \<noteq> ?p \<longrightarrow> names w1 q = names (world db) q" "names w1 ?p = Some fd"
      "inodes w1 fd = inodes (world db) fd" "pend (world db) \<noteq> [] \<longrightarrow> pend w1 \<noteq> []"
    using no_fail_open_creat [OF nf, of ?p] fd by auto
  obtain w2 where w2: "SyncDir dir w1 = (Ok, w2)" "no_fail w2" "names w2 = names w1" "inodes w2 = inodes w1"
      "pend w2 = map (\<lambda>nm p. if ParentDir p = dir then names w1 p else nm p) (pend w1)"
    using no_fail_SyncDir [OF w1(2), of dir] by blast
  let ?d = "db\<lparr>world := w2, log_fd := fd, log_offset := length (inodes w1 fd), wal_size := 0\<rparr>"
  have a: "attach_log db = (Ok, ?d)" unfolding attach_log_def d if_not_P [OF off] Let_def prod.case LogPath_def
    using w1(1) w2(1) d by simp
  have "0x2F \<notin> set (LogFileName 1)" by (simp add: log_1_name)
  then have pd: "ParentDir (dir @ str ''/'' @ name) = dir" if "0x2F \<notin> set name" for name using ParentDir_join [OF dir that] by simp
  have "replayed dir opts ?d" using replayed_world [OF r w2(2)] w1(3) w2(3) by simp
  moreover have "only_log ?d nm" if "nm \<in> set (pend w2)" for nm
    using that o w1(3,4) pd d unfolding w2(5) only_log_def only_log_1_def LogPath_def by (auto simp: log_1_name)
  ultimately show ?thesis using a w1(5,6) w2(4,5) by (intro exI [of _ ?d]) (simp add: attached_def)
qed

lemma replay_one_log:
  assumes r: "replayed dir opts db" and m: "holds_run (mem db) []" and fit: "\<forall>x\<in>set ws. record_fits (snd x)"
    and f: "(case names (world db) (dir @ str ''/'' @ LogFileName 1) of None \<Rightarrow> [] | Some i \<Rightarrow> inodes (world db) i) = enc_log 0 (map payload_of ws)"
  shows "\<exists>db' fd. replay_logs coins [1] 0 db = Some (Ok, max_seq_of 0 ws, db') \<and> replayed dir opts db' \<and> holds_run (mem db') (add_all ws [])
    \<and> names (world db') (dir @ str ''/'' @ LogFileName 1) = Some fd \<and> inodes (world db') fd = enc_log 0 (map payload_of ws)
    \<and> (pend (world db) \<noteq> [] \<longrightarrow> pend (world db') \<noteq> [])"
proof -
  let ?p = "dir @ str ''/'' @ LogFileName 1"
  have d: "LogPath 1 db = ?p" and nf: "no_fail (world db)" using r by (simp_all add: replayed_def LogPath_def)
  obtain fd w1 where w1: "open_creat ?p (world db) = (Inr fd, w1)" "no_fail w1" "names w1 ?p = Some fd"
      "\<forall>q. q \<noteq> ?p \<longrightarrow> names w1 q = names (world db) q" "inodes w1 fd = enc_log 0 (map payload_of ws)"
      "pend (world db) \<noteq> [] \<longrightarrow> pend w1 \<noteq> []"
    using no_fail_open_creat [OF nf, of ?p] f by (cases "names (world db) ?p") auto
  have nd: "\<not> dead w1" using w1(2) by (simp add: no_fail_def)
  obtain rd where rd: "read_all (fd_reader fd w1) = (map payload_of ws, RecEof, rd)"
    using read_all_open_ex [OF no_read_error_rd_of [OF w1(2)] log_at_enc_log, of "map payload_of ws"] nd w1(5) by (auto simp: fd_reader_def)
  obtain mt where mt: "replay_loop coins (fd_reader fd w1) (mem db, 0, 0) = Some ((mt, max_seq_of 0 ws), None, rd)" "holds_run mt (add_all ws [])"
    using replay_loop_records [OF rd fit m, of coins 0 0] by (auto simp: cut_of_def)
  note n = no_fail_reader_done [OF w1(2), of rd]
  let ?d = "db\<lparr>mem := mt, world := reader_done rd w1\<rparr>"
  have "replay_logs coins [1] 0 db = Some (Ok, max_seq_of 0 ws, ?d)" by (simp add: d w1(1) mt(1) del: str_Cons)
  moreover have "replayed dir opts (db\<lparr>world := reader_done rd w1\<rparr>)"
    by (rule replayed_world [OF r]) (use n w1(4) in \<open>auto simp: same_simps simp del: str_Cons\<close>)
  then have "replayed dir opts ?d" by (simp add: replayed_def)
  moreover have "names (world ?d) ?p = Some fd" "inodes (world ?d) fd = enc_log 0 (map payload_of ws)"
    "pend (world db) \<noteq> [] \<longrightarrow> pend (world ?d) \<noteq> []"
    using w1(3,5,6) same_simps(1,3,4) [OF conjunct2 [OF n]] by simp_all
  ultimately show ?thesis using mt(2) by (intro exI [of _ ?d] exI [of _ fd] conjI) simp_all
qed

lemma replayed_open:
  assumes "no_fail w" and "only_log_1 dir w"
  shows "replayed dir opts (one_log_db dir opts w)" "mem (one_log_db dir opts w) = NewMemTable" "world (one_log_db dir opts w) = w"
  using assms by (simp_all add: replayed_def one_log_db_def NewDB_def assemble_version_def map_replicate_const)

text \<open>Opening succeeds, with every record of the log in the memtable and the numbering resumed behind the largest.\<close>

lemma recover_one_log:
  assumes l: "lists_existing rdir" and nf: "no_fail w" and o: "only_log_1 dir w" and off: "\<not> enable_io_uring opts" "\<not> enable_value_separation opts"
    and dir: "dir \<noteq> []" and fit: "\<forall>x\<in>set ws. record_fits (snd x)"
    and f: "(case names w (dir @ str ''/'' @ LogFileName 1) of None \<Rightarrow> [] | Some i \<Rightarrow> inodes w i) = enc_log 0 (map payload_of ws)"
  shows "\<exists>db w'. DB_Open rdir coins dir opts w = Some (Inr db, w') \<and> replayed dir opts db \<and> attached db \<and> holds_run (mem db) (add_all ws [])
    \<and> next_seq db = max_seq_of 0 ws + 1 \<and> inodes (world db) (log_fd db) = enc_log 0 (map payload_of ws)
    \<and> (pend w \<noteq> [] \<longrightarrow> pend (world db) \<noteq> [])"
proof -
  obtain w1 where w1: "same w w1" "no_fail w1" "DB_Open rdir coins dir opts w = recover_logs coins [1] (one_log_db dir opts w1)"
    using open_one_log [OF l o nf off(2)] by blast
  have o1: "only_log_1 dir w1" using o same_simps(3) [OF w1(1)] by (simp add: only_log_1_def)
  let ?d = "one_log_db dir opts w1"
  note r = replayed_open [OF w1(2) o1, of opts]
  have "(case names (world ?d) (dir @ str ''/'' @ LogFileName 1) of None \<Rightarrow> [] | Some i \<Rightarrow> inodes (world ?d) i) = enc_log 0 (map payload_of ws)"
    unfolding r(3) same_simps(1,3) [OF w1(1)] by (rule f)
  from replay_one_log [OF r(1) _ fit this, of coins] obtain db1 fd where p: "replay_logs coins [1] 0 ?d = Some (Ok, max_seq_of 0 ws, db1)"
      "replayed dir opts db1" "holds_run (mem db1) (add_all ws [])"
      "names (world db1) (dir @ str ''/'' @ LogFileName 1) = Some fd" "inodes (world db1) fd = enc_log 0 (map payload_of ws)"
      "pend w1 \<noteq> [] \<longrightarrow> pend (world db1) \<noteq> []"
    using holds_run_New r(2,3) by auto
  have q: "max_number (max_seq_of 0 ws) (map (\<lambda>r. largest_seq (tr_meta r)) (version_files (version db1))) + 1 = max_seq_of 0 ws + 1"
    using p(2) by (simp add: replayed_def version_files_def max_number_def)
  let ?d2 = "db1\<lparr>next_seq := max_seq_of 0 ws + 1\<rparr>"
  have "replayed dir opts ?d2" "names (world ?d2) (dir @ str ''/'' @ LogFileName 1) = Some fd" using p(2,4) by simp_all
  from attach_one_log [OF this(1) off(1) dir this(2)] obtain db2 where a: "attach_log ?d2 = (Ok, db2)" "replayed dir opts db2" "attached db2"
      "mem db2 = mem ?d2" "next_seq db2 = next_seq ?d2" "log_fd db2 = fd" "inodes (world db2) fd = inodes (world ?d2) fd"
      "pend (world ?d2) \<noteq> [] \<longrightarrow> pend (world db2) \<noteq> []" by blast
  have "recover_logs coins [1] ?d = Some (Inr db2, world db2)"
    unfolding recover_logs_def p(1) option.case prod.case Let_def q a(1) by simp
  then show ?thesis using w1(3) a p(3,5,6) same_simps(4) [OF w1(1)] by (intro exI [of _ db2] exI [of _ "world db2"]) simp
qed

subsection \<open>Acknowledged writes\<close>

text \<open>A client that writes one operation after the other, each acknowledged, within one memtable.\<close>

fun client_op :: "nat list \<Rightarrow> wop \<Rightarrow> DB \<Rightarrow> (Status \<times> DB) option" where
  "client_op coins (WPut k v) db = DB_Put coins k v db"
| "client_op coins (WDel k) db = DB_Delete coins k db"

fun put_all :: "(nat list \<times> wop) list \<Rightarrow> DB \<Rightarrow> DB option" where
  "put_all [] db = Some db"
| "put_all ((coins, op) # xs) db = (case client_op coins op db of
      None \<Rightarrow> None
    | Some (s, db') \<Rightarrow> if ok s \<and> imm db' = None then put_all xs db' else None)"

fun stamped :: "u64 \<Rightarrow> wop list \<Rightarrow> (u64 \<times> wop) list" where
  "stamped q [] = []"
| "stamped q (w # ws) = (q, w) # stamped (q + 1) ws"

lemma client_op_write:
  assumes "client_op coins op db = Some (s, db')" and "ok s" and "imm db' = None"
  shows "\<exists>type k v. (type = kTypeValue \<or> type = kTypeDeletion) \<and> wop_of type k v = op \<and> WriteEntry coins type k v True db = Some (s, db')"
proof -
  have *: "WriteEntry coins type k v True db = Some (s, db')" if m: "make_room_and_write coins type k v db = Some (s, db')" for type k v
  proof (cases "approximate_size (mem db) \<ge> write_buffer_size (db_options db)")
    case True
    then obtain s1 db1 where r: "RotateForFlush db = Some (s1, db1)" "WriteEntry coins type k v True db1 = Some (s, db')" "ok s1"
      using m assms(2) by (auto simp: make_room_and_write_def split: if_splits option.splits)
    have "imm db1 \<noteq> None" using RotateForFlush_core [OF r(1)] r(3) by (auto simp: core_def)
    moreover have "imm db' = imm db1" using WriteEntry_core [OF r(2)] assms(2) by (auto simp: core_def)
    ultimately show ?thesis using assms(3) by simp
  next
    case False
    then show ?thesis using m by (auto simp: make_room_and_write_def split: if_splits)
  qed
  show ?thesis
  proof (cases op)
    case (WPut k v)
    then have "WriteEntry coins kTypeValue k v True db = Some (s, db')" using * assms(1) by (simp add: DB_Put_def)
    then show ?thesis using WPut by (intro exI [of _ kTypeValue] exI [of _ k] exI [of _ v]) (simp add: wop_of_def)
  next
    case (WDel k)
    then have "WriteEntry coins kTypeDeletion k [] True db = Some (s, db')" using * assms(1) by (simp add: DB_Delete_def)
    then show ?thesis using WDel by (intro exI [of _ kTypeDeletion] exI [of _ k] exI [of _ "[]"]) (simp add: wop_of_def kTypeValue_def kTypeDeletion_def)
  qed
qed

lemma put_all_logged:
  assumes "logged db ws" and "put_all xs db = Some db'"
  shows "logged db' (ws @ stamped (next_seq db) (map snd xs)) \<and> db_dir db' = db_dir db \<and> log_number db' = log_number db"
  using assms
proof (induction xs arbitrary: db ws)
  case (Cons x xs)
  obtain coins op where x: "x = (coins, op)" by (cases x)
  obtain s db1 where c: "client_op coins op db = Some (s, db1)" "ok s" "imm db1 = None" "put_all xs db1 = Some db'"
    using Cons.prems(2) x by (auto split: option.splits if_splits)
  obtain type k v where w: "type = kTypeValue \<or> type = kTypeDeletion" "wop_of type k v = op" "WriteEntry coins type k v True db = Some (s, db1)"
    using client_op_write [OF c(1-3)] by blast
  note l = WriteEntry_logged [OF Cons.prems(1) w(1,3) c(2)]
  have "next_seq db1 = next_seq db + 1" using WriteEntry_core [OF w(3)] c(2) by (auto simp: core_def)
  then show ?case using Cons.IH [OF l(1) c(4)] l(2,3) w(2) x by simp
qed simp

lemma stamped_seqs:
  assumes "unat q + length ops < 2 ^ 56"
  shows "sorted_wrt (<) (map fst (stamped q ops))" "\<forall>x\<in>set (stamped q ops). q \<le> fst x \<and> unat (fst x) < unat q + length ops"
    "snd ` set (stamped q ops) = set ops"
proof -
  have "sorted_wrt (<) (map fst (stamped q ops)) \<and> (\<forall>x\<in>set (stamped q ops). q \<le> fst x \<and> unat (fst x) < unat q + length ops) \<and> snd ` set (stamped q ops) = set ops"
    using assms
  proof (induction ops arbitrary: q)
    case (Cons w ops)
    have q: "unat (q + 1) = unat q + 1" using Cons.prems by (simp add: unat_word_ariths)
    then have lt: "q < q + 1" by (simp add: word_less_nat_alt)
    have "unat (q + 1) + length ops < 2 ^ 56" using q Cons.prems by simp
    note ih = Cons.IH [OF this]
    have "q < fst x" if "x \<in> set (stamped (q + 1) ops)" for x using ih that lt by (meson less_le_trans)
    then show ?case using ih q by (auto intro: less_imp_le)
  qed simp
  then show "sorted_wrt (<) (map fst (stamped q ops))" "\<forall>x\<in>set (stamped q ops). q \<le> fst x \<and> unat (fst x) < unat q + length ops"
    "snd ` set (stamped q ops) = set ops" by blast+
qed

lemma max_seq_last:
  "sorted_wrt (<) (map fst ws) \<Longrightarrow> \<forall>x\<in>set ws. m < fst x \<Longrightarrow> ws \<noteq> [] \<Longrightarrow> max_seq_of m ws = fst (last ws)"
proof (induction ws arbitrary: m)
  case (Cons x ws)
  then show ?case by (cases "ws = []") (auto simp: max_seq_of_def)
qed simp

subsection \<open>The recovered database\<close>

lemma recovered_seqs:
  assumes "sorted_wrt (<) (map fst ws)" and "\<forall>x\<in>set ws. 0 < fst x \<and> fst x + 1 < 2 ^ 56 \<and> fst x < 2 ^ 56" and "ws \<noteq> []"
    and "n = max_seq_of 0 ws + 1"
  shows "0 < n" "n < 2 ^ 56" "\<forall>x\<in>set ws. fst x < n"
proof -
  have m: "max_seq_of 0 ws = fst (last ws)" using max_seq_last [OF assms(1) _ assms(3), of 0] assms(2) by auto
  have l: "last ws \<in> set ws" using assms(3) by simp
  have lt: "fst (last ws) < fst (last ws) + 1" using assms(2) l by (intro seq_succ) blast
  have "fst x \<le> fst (last ws)" if "x \<in> set ws" for x
  proof (cases "x = last ws")
    case False
    obtain ys y where ws: "ws = ys @ [y]" using assms(3) by (cases ws rule: rev_cases) auto
    show ?thesis using assms(1) that False unfolding ws by (auto simp: sorted_wrt_append intro: less_imp_le)
  qed simp
  then show "\<forall>x\<in>set ws. fst x < n" using assms(4) m lt by (auto intro: le_less_trans)
  then show "0 < n" using l assms(2) less_trans [of 0 "fst (last ws)" n] by blast
  show "n < 2 ^ 56" using assms(2,4) m l by simp
qed

lemma recovered_rep:
  assumes r: "replayed dir opts db" and h: "holds_run (mem db) (add_all ws [])" and ne: "ws \<noteq> []"
    and q: "sorted_wrt (<) (map fst ws)" "\<forall>x\<in>set ws. 0 < fst x \<and> fst x + 1 < 2 ^ 56 \<and> fst x < 2 ^ 56" "next_seq db = max_seq_of 0 ws + 1"
  shows "db_rep (\<lambda>_. []) (add_all ws []) [] ws db"
proof -
  let ?M = "add_all ws []"
  have small: "\<forall>x\<in>set ws. fst x < 2 ^ 56" using q(2) by simp
  have M: "set ?M = entry_in ` set ws" using add_all_entries [OF q(1) small, of "[]"] by simp
  then have nM: "?M \<noteq> []" using ne by (metis image_is_empty set_empty)
  note sr = holds_run_sorted [OF h]
  note s = recovered_seqs [OF q(1,2) ne q(3)]
  have v: "version_files (version db) = []" "levels (version db) = replicate (kMaxLevels - 1) []" using r by (simp_all add: replayed_def version_files_def)
  have tags: "tag_seq (etag e) < next_seq db" if e: "e \<in> set ?M" for e
  proof -
    obtain x where x: "x \<in> set ws" "e = entry_in x" using e M by auto
    have "fst x < 2 ^ 56" "fst x < next_seq db" using x(1) s(3) small by blast+
    then show ?thesis unfolding x(2) by (simp add: entry_in_def case_prod_beta wentry_tag tag_seq_make)
  qed
  have "lookup_of (lookup_spec ?M k (target_tag mx)) = history_get ws k mx" if "readable_seq mx" for k mx
    by (rule lookup_history [OF sr _ _ q(1) that]) (use M small in \<open>auto simp: entry_in_def\<close>)
  then have a: "answers_history (db_floor db) ?M ws" by (simp add: answers_history_def)
  have "seqs_ok db ?M ws" using s tags q(1) r unfolding seqs_ok_def replayed_def by simp
  moreover have "version_run (\<lambda>_. []) (version db)" using v by (simp add: version_run_def parts_apart_def)
  moreover have "numbers_ok db" using r v by (simp add: numbers_ok_def replayed_def)
  moreover have "imm db = None" using r by (simp add: replayed_def)
  ultimately show ?thesis using h nM a sorted_run_newest_first [OF sr] v
    by (simp add: db_rep_def version_entries_def)
qed

text \<open>\<^verbatim>\<open>Get\<close> on a database without value separation whose state represents a history.\<close>

lemma Get_history:
  assumes r: "db_rep g M I ws db" and k: "short_key k" and mx: "readable_seq (read_seq sn)" "db_floor db \<le> read_seq sn"
  shows "\<exists>msg. DB_Get hash k sn db = Some (case found (history_get ws k (read_seq sn)) of
      Some stored \<Rightarrow> MaybeResolvePointer hash stored db | None \<Rightarrow> (NotFound msg, [], db))"
proof -
  obtain l where l: "LookupIn (mem db) (imm db) (version db) k (read_seq sn) = Some (l, Ok)" "found l = found (history_get ws k (read_seq sn))"
    using db_rep_lookup [OF r k mx] by blast
  show ?thesis
  proof (cases l)
    case (kFound v)
    then have "DB_Get hash k sn db = Some (MaybeResolvePointer hash v db)" unfolding DB_Get_def l(1) by simp
    then show ?thesis using l(2) kFound by (simp flip: l(2))
  next
    case kDeleted
    then show ?thesis using l(1) by (intro exI [of _ "str ''deleted: '' @ k"]) (simp add: DB_Get_def flip: l(2))
  next
    case kMissing
    then show ?thesis using l(1) by (intro exI [of _ "str ''missing: '' @ k"]) (simp add: DB_Get_def flip: l(2))
  qed
qed

end
