(* ===== verification/Spec2Isabelle.thy ===== *)
theory Spec2Isabelle
  imports WalCorrect Server Recovery
begin

text \<open>
  A verification library for bedrockkv, a log-structured key-value store.
\<close>

end
